(* ===== verification/Prelude.thy ===== *)
theory Prelude
  imports Main "HOL-Library.Word"
begin

text \<open>
  Shared vocabulary of the development: machine types, C strings, the numeral conversions of
  \<open>printf\<close>, the return value of \<open>snprintf\<close>, a file rewritten at an offset, and the list lemmas
  about the top of a record stack that several components use.
\<close>

named_theorems width_defs \<open>constants that fix the layout of a trace line\<close>
named_theorems len_simps \<open>lengths of the rendered pieces of a line\<close>

section \<open>Machine types\<close>

type_synonym addr = "64 word"
type_synonym u64 = "64 word"
type_synonym u32 = "32 word"

text \<open>
  The outcome of a call that may leave by a C++ exception (realistically \<open>std::bad_alloc\<close>).
\<close>

datatype 'a outcome = Threw | Returned 'a

definition INT_MAX :: int where
  "INT_MAX = 2147483647"

definition SIZEOF_VOID_P :: nat where
  [width_defs]: "SIZEOF_VOID_P = 8"

section \<open>Characters and C strings\<close>

definition NUL :: char where
  "NUL = CHR 0x00"

definition newline :: char where
  "newline = CHR 0x0A"

text \<open>What \<open>%s\<close> and \<open>c_str()\<close> show of a \<open>std::string\<close>: the bytes before the first NUL.\<close>

definition c_str :: "string \<Rightarrow> string" where
  "c_str s = takeWhile (\<lambda>c. c \<noteq> NUL) s"

lemma c_str_id: "NUL \<notin> set s \<Longrightarrow> c_str s = s"
  by (auto simp: c_str_def takeWhile_eq_all_conv)

lemma c_str_Nil [simp]: "c_str [] = []"
  by (simp add: c_str_def)

lemma set_c_str: "set (c_str s) \<subseteq> set s"
  by (auto simp: c_str_def dest: set_takeWhileD)

text \<open>
  The byte at index \<open>i\<close> of a NUL-terminated buffer that holds the C string \<open>s\<close>. A read past the
  terminator is out of the buffer: no value.
\<close>

definition byte_at :: "string \<Rightarrow> nat \<Rightarrow> char option" where
  "byte_at s i = (if i < length s then Some (s ! i) else if i = length s then Some NUL else None)"

section \<open>Numerals as printf renders them\<close>

definition digit_char :: "nat \<Rightarrow> char" where
  "digit_char d = ''0123456789abcdef'' ! d"

fun numeral_in :: "nat \<Rightarrow> nat \<Rightarrow> string" where
  "numeral_in b n =
     (if b < 2 \<or> n < b then [digit_char n] else numeral_in b (n div b) @ [digit_char (n mod b)])"

declare numeral_in.simps [simp del]

definition dec :: "nat \<Rightarrow> string" where
  "dec n = numeral_in 10 n"

definition hex :: "nat \<Rightarrow> string" where
  "hex n = numeral_in 16 n"

text \<open>\<open>std::to_string\<close> and \<open>%ld\<close> of a signed value.\<close>

definition dec_int :: "int \<Rightarrow> string" where
  "dec_int i = (if i < 0 then ''-'' @ dec (nat (- i)) else dec (nat i))"

definition pad_left :: "char \<Rightarrow> nat \<Rightarrow> string \<Rightarrow> string" where
  "pad_left c w s = replicate (w - length s) c @ s"

text \<open>Reading a numeral back.\<close>

fun index_of :: "'a \<Rightarrow> 'a list \<Rightarrow> nat" where
  "index_of x [] = 0"
| "index_of x (y # ys) = (if x = y then 0 else Suc (index_of x ys))"

definition digit_value :: "char \<Rightarrow> nat" where
  "digit_value c = index_of c ''0123456789abcdef''"

definition value_in :: "nat \<Rightarrow> string \<Rightarrow> nat" where
  "value_in b s = foldl (\<lambda>a c. a * b + digit_value c) 0 s"

lemma less_16_cases:
  "(d::nat) < 16 \<Longrightarrow> d \<in> {0, 1, 2, 3, 4, 5, 6, 7, 8, 9, 10, 11, 12, 13, 14, 15}"
  by (simp add: less_Suc_eq numeral_eq_Suc)

lemma digit_value_char: "d < 16 \<Longrightarrow> digit_value (digit_char d) = d"
proof -
  have "list_all (\<lambda>d. digit_value (digit_char d) = d) [0..<16]" by code_simp
  then show "d < 16 \<Longrightarrow> ?thesis" by (simp add: list_all_iff)
qed

lemma digit_char_printable:
  "d < 16 \<Longrightarrow> digit_char d \<noteq> NUL \<and> digit_char d \<noteq> newline \<and> digit_char d \<noteq> CHR '' ''"
  by (drule less_16_cases) (auto simp: NUL_def newline_def digit_char_def)

lemma value_in_snoc: "value_in b (s @ [c]) = value_in b s * b + digit_value c"
  by (simp add: value_in_def)

lemma value_numeral_in:
  "2 \<le> b \<Longrightarrow> b \<le> 16 \<Longrightarrow> value_in b (numeral_in b n) = n"
proof (induction b n rule: numeral_in.induct)
  case (1 b n)
  show ?case
  proof (cases "n < b")
    case True
    with 1 show ?thesis by (simp add: numeral_in.simps value_in_def digit_value_char)
  next
    case False
    have "n mod b < b" using 1 by (intro mod_less_divisor) simp
    from less_le_trans [OF this] 1 have "n mod b < 16" by blast
    with 1 False show ?thesis
      by (simp add: numeral_in.simps [of b n] value_in_snoc digit_value_char)
  qed
qed

lemma numeral_in_inject:
  "2 \<le> b \<Longrightarrow> b \<le> 16 \<Longrightarrow> numeral_in b m = numeral_in b n \<longleftrightarrow> m = n"
  by (metis value_numeral_in)

lemma dec_inject [simp]: "dec m = dec n \<longleftrightarrow> m = n"
  by (simp add: dec_def numeral_in_inject)

lemma value_dec [simp]: "value_in 10 (dec n) = n"
  by (simp add: dec_def value_numeral_in)

lemma numeral_in_nonempty [simp]: "numeral_in b n \<noteq> []"
  by (subst numeral_in.simps) simp

lemma dec_nonempty [simp]: "dec n \<noteq> []"
  by (simp add: dec_def)

lemma length_numeral_in:
  "2 \<le> b \<Longrightarrow> n < b ^ k \<Longrightarrow> 0 < k \<Longrightarrow> length (numeral_in b n) \<le> k"
proof (induction k arbitrary: n)
  case 0
  then show ?case by simp
next
  case (Suc k)
  show ?case
  proof (cases "n < b")
    case True
    then show ?thesis by (simp add: numeral_in.simps [of b n])
  next
    case False
    then have "k \<noteq> 0" using Suc.prems by (cases k) auto
    moreover have "n div b < b ^ k"
      using Suc.prems by (simp add: less_mult_imp_div_less mult.commute)
    ultimately have "length (numeral_in b (n div b)) \<le> k"
      using Suc.IH Suc.prems(1) by blast
    with False Suc.prems(1) show ?thesis by (simp add: numeral_in.simps [of b n])
  qed
qed

lemma set_numeral_in:
  "2 \<le> b \<Longrightarrow> b \<le> 16 \<Longrightarrow> set (numeral_in b n) \<subseteq> digit_char ` {..<b}"
proof (induction b n rule: numeral_in.induct)
  case (1 b n)
  then show ?case
    by (subst numeral_in.simps) auto
qed

lemma numeral_chars:
  assumes "2 \<le> b" "b \<le> 16" "c \<in> set (numeral_in b n)"
  shows "c \<noteq> NUL \<and> c \<noteq> newline \<and> c \<noteq> CHR '' ''"
proof -
  from set_numeral_in [OF assms(1,2), of n] assms(3) obtain d where "d < b" "c = digit_char d"
    by blast
  with assms(2) show ?thesis by (simp add: digit_char_printable)
qed

lemma dec_chars: "c \<in> set (dec n) \<Longrightarrow> c \<noteq> NUL \<and> c \<noteq> newline \<and> c \<noteq> CHR '' ''"
  unfolding dec_def by (rule numeral_chars) auto

lemma hex_chars: "c \<in> set (hex n) \<Longrightarrow> c \<noteq> NUL \<and> c \<noteq> newline \<and> c \<noteq> CHR '' ''"
  unfolding hex_def by (rule numeral_chars) auto

lemma length_pad_left [len_simps]: "length s \<le> w \<Longrightarrow> length (pad_left c w s) = w"
  by (simp add: pad_left_def)

lemma set_pad_left: "set (pad_left c w s) \<subseteq> insert c (set s)"
  by (auto simp: pad_left_def)

lemma length_dec_le: "n < 10 ^ k \<Longrightarrow> 0 < k \<Longrightarrow> length (dec n) \<le> k"
  by (simp add: dec_def length_numeral_in)

lemma length_hex_word: "length (hex (unat (p :: addr))) \<le> 16"
proof -
  have "unat p < 16 ^ 16" using unsigned_less [of p] by simp
  then show ?thesis unfolding hex_def by (intro length_numeral_in) auto
qed

lemma digit_char_not_minus: "d < 16 \<Longrightarrow> digit_char d \<noteq> CHR ''-''"
  by (drule less_16_cases) (auto simp: digit_char_def)

lemma minus_not_in_dec: "CHR ''-'' \<notin> set (dec n)"
proof
  assume "CHR ''-'' \<in> set (dec n)"
  then obtain d where "d < 10" "CHR ''-'' = digit_char d"
    using set_numeral_in [of 10 n] by (auto simp: dec_def)
  then show False using digit_char_not_minus [of d] by simp
qed

lemma dec_int_inject [simp]: "dec_int i = dec_int j \<longleftrightarrow> i = j"
proof
  have ne: "CHR ''-'' # s \<noteq> dec n" "dec n \<noteq> CHR ''-'' # s" for s n
    using minus_not_in_dec [of n] by (metis list.set_intros(1))+
  show "dec_int i = dec_int j \<Longrightarrow> i = j"
    by (auto simp: dec_int_def ne split: if_splits)
qed simp

section \<open>snprintf\<close>

text \<open>
  \<open>snprintf\<close> returns the length the complete text has, or a negative value when that does not fit
  an \<open>int\<close>.
\<close>

definition snprintf_ret :: "string \<Rightarrow> int" where
  "snprintf_ret s = (if int (length s) \<le> INT_MAX then int (length s) else - 1)"

lemma snprintf_ret_small: "int (length s) \<le> INT_MAX \<Longrightarrow> snprintf_ret s = int (length s)"
  by (simp add: snprintf_ret_def)

text \<open>A narrowing cast of a size to \<open>int\<close>.\<close>

definition int_of_size :: "nat \<Rightarrow> int" where
  "int_of_size n = sint (word_of_nat n :: 32 word)"

lemma int_of_size_small: "int n \<le> INT_MAX \<Longrightarrow> int_of_size n = int n"
  unfolding int_of_size_def INT_MAX_def
  by (simp add: signed_of_nat signed_take_bit_int_eq_self)

section \<open>Rewriting bytes of a file in place\<close>

text \<open>
  \<open>pwrite\<close> on a descriptor without \<open>O_APPEND\<close>: the bytes land at the offset; a gap past the end of
  the file reads as zero bytes.
\<close>

definition pwrite_at :: "string \<Rightarrow> nat \<Rightarrow> string \<Rightarrow> string" where
  "pwrite_at file off bs =
     take off (file @ replicate (off - length file) NUL) @ bs @ drop (off + length bs) file"

lemma length_pwrite_inside:
  "off + length bs \<le> length file \<Longrightarrow> length (pwrite_at file off bs) = length file"
  by (simp add: pwrite_at_def)

lemma nth_pwrite_inside:
  "off + length bs \<le> length file \<Longrightarrow> i < length file \<Longrightarrow>
   pwrite_at file off bs ! i =
     (if off \<le> i \<and> i < off + length bs then bs ! (i - off) else file ! i)"
  by (auto simp: pwrite_at_def nth_append min_def)

lemma pwrite_append:
  "off + length bs \<le> length file \<Longrightarrow> pwrite_at (file @ more) off bs = pwrite_at file off bs @ more"
  by (simp add: pwrite_at_def)

text \<open>A field of known width at a known place.\<close>

lemma field_at:
  assumes "length a = m" "length b = n"
  shows "take n (drop m (a @ b @ c)) = b" "m + n \<le> length (a @ b @ c)"
  by (simp_all add: assms [symmetric])

section \<open>The top of a stack kept as a vector\<close>

text \<open>
  The record stack is a vector with its top at the end. How many elements at the top satisfy a
  predicate, counted down from the top until the first that does not.
\<close>

definition count_top :: "('a \<Rightarrow> bool) \<Rightarrow> 'a list \<Rightarrow> nat" where
  "count_top P xs = length (takeWhile P (rev xs))"

definition pop_n :: "nat \<Rightarrow> 'a list \<Rightarrow> 'a list" where
  "pop_n n xs = take (length xs - n) xs"

lemma count_top_le [simp]: "count_top P xs \<le> length xs"
  by (metis count_top_def length_rev length_takeWhile_le)

lemma count_top_Nil [simp]: "count_top P [] = 0"
  by (simp add: count_top_def)

lemma count_top_snoc [simp]: "count_top P (xs @ [x]) = (if P x then Suc (count_top P xs) else 0)"
  by (simp add: count_top_def)

lemma pop_0 [simp]: "pop_n 0 xs = xs"
  by (simp add: pop_n_def)

lemma length_pop_n [simp]: "length (pop_n n xs) = length xs - n"
  by (simp add: pop_n_def)

lemma pop_n_snoc [simp]: "pop_n (Suc n) (xs @ [x]) = pop_n n xs"
  by (simp add: pop_n_def)

lemma pop_n_append: "n = length ys \<Longrightarrow> pop_n n (xs @ ys) = xs"
  by (simp add: pop_n_def)

lemma set_pop_n: "set (pop_n n xs) \<subseteq> set xs"
  by (auto simp: pop_n_def dest: in_set_takeD)

lemma popped_satisfy: "x \<in> set (drop (length xs - count_top P xs) xs) \<Longrightarrow> P x"
proof (induction xs rule: rev_induct)
  case Nil
  then show ?case by simp
next
  case (snoc y xs)
  then show ?case by (auto split: if_splits simp: Suc_diff_le)
qed

lemma kept_top_fails:
  "pop_n (count_top P xs) xs \<noteq> [] \<Longrightarrow> \<not> P (last (pop_n (count_top P xs) xs))"
proof (induction xs rule: rev_induct)
  case Nil
  then show ?case by simp
next
  case (snoc y xs)
  then show ?case by (cases "P y") auto
qed

lemma kept_if_not: "x \<in> set xs \<Longrightarrow> \<not> P x \<Longrightarrow> x \<in> set (pop_n (count_top P xs) xs)"
proof (induction xs rule: rev_induct)
  case Nil
  then show ?case by simp
next
  case (snoc y xs)
  then show ?case by auto
qed

end
