(* ===== verification/ObjectFiles.thy ===== *)
theory ObjectFiles
  imports Prelude
begin

text \<open>
  The object files behind addresses (\<open>src/callStack.cpp\<close>, \<open>include/callStack.h\<close>): which file is
  registered for an object (\<open>mapped_object_path\<close>, \<open>object_file_path\<close>), and its registration, once per
  object, with a libbacktrace state of its own (\<open>ensure_object_loaded\<close>). The loader, the files under
  \<open>/proc\<close> and libbacktrace are the parameter \<open>world\<close>: what they answer at the time of a call.
\<close>

section \<open>The outside world\<close>

record dl_info =
  dli_fname :: "string option"
  dli_fbase :: addr
  dli_sname :: "string option"

text \<open>
  One call of libbacktrace's callbacks. The last field says whether copying the strings runs out of
  memory. A state is the number of its creation.
\<close>

record pc_callback =
  pc_file :: "string option"
  pc_line :: int
  pc_function :: "string option"
  pc_oom :: bool

record sym_callback =
  sym_name :: "string option"
  sym_value :: addr
  sym_oom :: bool

record world =
  cmdline_file :: string
  maps_file :: "string list"
  create_state :: bool
  add_file :: "string \<Rightarrow> addr \<Rightarrow> (bool \<times> bool \<times> bool) option"
  dladdr1 :: "addr \<Rightarrow> (dl_info \<times> addr option) option"
  backtrace_pcinfo :: "nat \<Rightarrow> addr \<Rightarrow> pc_callback list"
  backtrace_syminfo :: "nat \<Rightarrow> addr \<Rightarrow> sym_callback list"
  cxa_demangle :: "string \<Rightarrow> int \<times> string option"
  on_clang :: bool
  log_addr_on :: bool

section \<open>Addresses\<close>

record address_info =
  ai_info :: dl_info
  load_bias :: addr
  ai_valid :: bool

definition no_dl_info :: dl_info where
  "no_dl_info = \<lparr>dli_fname = None, dli_fbase = 0, dli_sname = None\<rparr>"

definition invalid_address :: address_info where
  "invalid_address = \<lparr>ai_info = no_dl_info, load_bias = 0, ai_valid = False\<rparr>"

definition query_address :: "world \<Rightarrow> addr \<Rightarrow> address_info" where
  "query_address w address =
     (case dladdr1 w address of
        None \<Rightarrow> invalid_address
      | Some (info, link_map) \<Rightarrow>
          if dli_fbase info = 0 then \<lparr>ai_info = info, load_bias = 0, ai_valid = False\<rparr>
          else \<lparr>ai_info = info,
                load_bias = (case link_map of Some l_addr \<Rightarrow> l_addr | None \<Rightarrow> 0),
                ai_valid = True\<rparr>)"

definition inside_call_instruction :: "addr \<Rightarrow> addr" where
  "inside_call_instruction return_address = return_address - 1"

section \<open>Library functions on strings\<close>

text \<open>\<open>std::string::find_first_not_of\<close> and \<open>std::string::find\<close> for one character; \<open>npos\<close> is None.\<close>

definition find_first_not_of :: "string \<Rightarrow> char \<Rightarrow> nat \<Rightarrow> nat option" where
  "find_first_not_of s c pos =
     (let k = pos + length (takeWhile (\<lambda>x. x = c) (drop pos s))
      in if k < length s then Some k else None)"

definition find_char :: "string \<Rightarrow> char \<Rightarrow> nat \<Rightarrow> nat option" where
  "find_char s c pos =
     (let k = pos + length (takeWhile (\<lambda>x. x \<noteq> c) (drop pos s))
      in if k < length s then Some k else None)"

definition is_space :: "char \<Rightarrow> bool" where
  "is_space c \<longleftrightarrow> (of_char c :: nat) \<in> {9, 10, 11, 12, 13, 32}"

definition is_hex_digit :: "char \<Rightarrow> bool" where
  "is_hex_digit c \<longleftrightarrow> c \<in> set ''0123456789abcdefABCDEF''"

definition hex_value :: "char \<Rightarrow> nat" where
  "hex_value c = (if c \<in> set ''ABCDEF'' then 10 + index_of c ''ABCDEF'' else digit_value c)"

text \<open>
  \<open>strtoull\<close> in base 16: the value and the number of characters consumed, 0 when there are no digits.
  Too large a number saturates, a minus sign negates modulo \<open>2 ^ 64\<close>.
\<close>

definition strtoull16 :: "string \<Rightarrow> u64 \<times> nat" where
  "strtoull16 s =
     (let ws = length (takeWhile is_space s);
          s1 = drop ws s;
          negative = (s1 \<noteq> [] \<and> hd s1 = CHR ''-'');
          sign = (if s1 \<noteq> [] \<and> hd s1 \<in> {CHR ''+'', CHR ''-''} then 1 else 0);
          s2 = drop sign s1;
          prefix = (if take 2 s2 \<in> {''0x'', ''0X''} \<and> length s2 > 2 \<and> is_hex_digit (s2 ! 2)
                    then 2 else 0);
          digits = takeWhile is_hex_digit (drop prefix s2);
          v = foldl (\<lambda>a c. a * 16 + hex_value c) 0 digits
      in if digits = [] then (0, 0)
         else (if v \<ge> 2 ^ 64 then - 1 else if negative then - of_nat v else of_nat v,
               ws + sign + prefix + length digits))"

section \<open>The path of a mapping\<close>

definition DELETED_MAPPING_SUFFIX :: string where
  "DELETED_MAPPING_SUFFIX = '' (deleted)''"

definition EXECUTABLE_FILE :: string where
  "EXECUTABLE_FILE = ''/proc/self/exe''"

definition MAPS_COLUMNS_BEFORE_PATH :: nat where
  "MAPS_COLUMNS_BEFORE_PATH = 4"

fun skip_columns :: "nat \<Rightarrow> string \<Rightarrow> nat \<Rightarrow> nat option" where
  "skip_columns 0 line pos = Some pos"
| "skip_columns (Suc columns) line pos =
     (case find_first_not_of line CHR '' '' pos of
        None \<Rightarrow> None
      | Some p \<Rightarrow> (case find_char line CHR '' '' p of
                    None \<Rightarrow> None
                  | Some q \<Rightarrow> skip_columns columns line q))"

text \<open>The path column after the fixed columns.\<close>

definition path_column :: "string \<Rightarrow> nat \<Rightarrow> string option" where
  "path_column line pos =
     (case skip_columns MAPS_COLUMNS_BEFORE_PATH line pos of
        None \<Rightarrow> None
      | Some p \<Rightarrow> (case find_first_not_of line CHR '' '' p of
                    None \<Rightarrow> None
                  | Some q \<Rightarrow> if line ! q \<noteq> CHR ''/'' then None else Some (drop q line)))"

text \<open>One round of the loop: None goes on to the next line, otherwise the answer.\<close>

definition maps_line_answer :: "u64 \<Rightarrow> string \<Rightarrow> string option option" where
  "maps_line_answer target line =
     (let text = c_str line;
          (start, n) = strtoull16 text
      in if n = 0 \<or> byte_at text n \<noteq> Some CHR ''-'' then None
         else let (range_end, m) = strtoull16 (drop (n + 1) text)
              in if m = 0 \<or> target < start \<or> target \<ge> range_end then None
                 else Some (path_column line (n + 1 + m)))"

fun mapped_object_path :: "string list \<Rightarrow> addr \<Rightarrow> string option" where
  "mapped_object_path [] base = None"
| "mapped_object_path (line # lines) base =
     (case maps_line_answer base line of
        None \<Rightarrow> mapped_object_path lines base
      | Some answer \<Rightarrow> answer)"

section \<open>The registered files\<close>

record object_file =
  of_state :: nat
  has_symtab :: bool
  has_dwarf :: bool
  has_own_symtab :: bool

text \<open>
  The resolver's state about files. The last three fields record the calls made outside: how many
  libbacktrace states were created, which files were handed to libbacktrace for which object, and
  how often the warning about an executable without names was printed.
\<close>

record files =
  objects :: "addr \<Rightarrow> object_file option"
  object_load_failed :: "addr set"
  argv0_text :: "string option"
  states_created :: nat
  registrations :: "(addr \<times> string) list"
  nameless_warnings :: nat

definition no_files :: files where
  "no_files = \<lparr>objects = Map.empty, object_load_failed = {}, argv0_text = None, states_created = 0,
     registrations = [], nameless_warnings = 0\<rparr>"

definition get_argv0 :: "world \<Rightarrow> string" where
  "get_argv0 w = c_str (cmdline_file w)"

text \<open>\<open>argv0()\<close>: a function-local static, read from the file at its first use.\<close>

definition argv0 :: "world \<Rightarrow> files \<Rightarrow> string \<times> files" where
  "argv0 w fs =
     (case argv0_text fs of
        Some text \<Rightarrow> (text, fs)
      | None \<Rightarrow> (get_argv0 w, fs\<lparr>argv0_text := Some (get_argv0 w)\<rparr>))"

definition deleted_mapping :: "string \<Rightarrow> bool" where
  "deleted_mapping path \<longleftrightarrow>
     length path \<ge> length DELETED_MAPPING_SUFFIX \<and>
     drop (length path - length DELETED_MAPPING_SUFFIX) path = DELETED_MAPPING_SUFFIX"

text \<open>What is left when the object is not the executable itself.\<close>

definition library_path :: "world \<Rightarrow> dl_info \<Rightarrow> string" where
  "library_path w symbol_info =
     (case mapped_object_path (maps_file w) (dli_fbase symbol_info) of
        Some mapped \<Rightarrow> if deleted_mapping mapped then [] else mapped
      | None \<Rightarrow>
          (case dli_fname symbol_info of
             Some fname \<Rightarrow> if byte_at fname 0 = Some CHR ''/'' then fname else []
           | None \<Rightarrow> []))"

text \<open>\<open>argv0()\<close> is only evaluated when the object has a file name.\<close>

definition object_file_path :: "world \<Rightarrow> files \<Rightarrow> dl_info \<Rightarrow> string \<times> files" where
  "object_file_path w fs symbol_info =
     (case dli_fname symbol_info of
        Some fname \<Rightarrow>
          (let (text, fs') = argv0 w fs
           in (if fname = text then EXECUTABLE_FILE else library_path w symbol_info, fs'))
      | None \<Rightarrow> (library_path w symbol_info, fs))"

definition load_failed :: "files \<Rightarrow> addr \<Rightarrow> files" where
  "load_failed fs base = fs\<lparr>object_load_failed := insert base (object_load_failed fs)\<rparr>"

text \<open>The registration of a file at first sight of its object.\<close>

definition register_object ::
    "world \<Rightarrow> files \<Rightarrow> addr \<Rightarrow> addr \<Rightarrow> string \<Rightarrow> object_file option \<times> files" where
  "register_object w fs base bias path =
     (if path = [] then (None, load_failed fs base)
      else if \<not> create_state w then (None, load_failed fs base)
      else
        let bt = states_created fs;
            fs = fs\<lparr>states_created := Suc bt, registrations := registrations fs @ [(base, path)]\<rparr>
        in case add_file w path bias of
             None \<Rightarrow> (None, load_failed fs base)
           | Some (symtab, dwarf, own_symtab) \<Rightarrow>
               let object = \<lparr>of_state = bt, has_symtab = symtab, has_dwarf = dwarf,
                             has_own_symtab = own_symtab\<rparr>;
                   fs = (if path = EXECUTABLE_FILE \<and> \<not> dwarf \<and> \<not> own_symtab
                         then fs\<lparr>nameless_warnings := Suc (nameless_warnings fs)\<rparr> else fs)
               in (Some object, fs\<lparr>objects := (objects fs)(base \<mapsto> object)\<rparr>))"

definition ensure_object_loaded ::
    "world \<Rightarrow> files \<Rightarrow> dl_info \<Rightarrow> addr \<Rightarrow> object_file option \<times> files" where
  "ensure_object_loaded w fs info bias =
     (case objects fs (dli_fbase info) of
        Some object \<Rightarrow> (Some object, fs)
      | None \<Rightarrow>
          if dli_fbase info \<in> object_load_failed fs then (None, fs)
          else let (path, fs') = object_file_path w fs info
               in register_object w fs' (dli_fbase info) bias path)"

section \<open>Invariant: one attempt per object\<close>

text \<open>
  An object is either registered, or known to fail, or unseen; a file was handed to libbacktrace at
  most once for it, and every registered object has a state of its own.
\<close>

definition files_ok :: "files \<Rightarrow> bool" where
  "files_ok fs \<longleftrightarrow>
     (\<forall>base \<in> object_load_failed fs. objects fs base = None) \<and>
     distinct (map fst (registrations fs)) \<and>
     (\<forall>(base, path) \<in> set (registrations fs).
        objects fs base \<noteq> None \<or> base \<in> object_load_failed fs) \<and>
     (\<forall>base object. objects fs base = Some object \<longrightarrow> of_state object < states_created fs) \<and>
     (\<forall>b b' o1 o2. objects fs b = Some o1 \<longrightarrow> objects fs b' = Some o2 \<longrightarrow>
        of_state o1 = of_state o2 \<longrightarrow> b = b')"

text \<open>What every operation of the resolver guarantees about the files.\<close>

definition files_grow :: "files \<Rightarrow> files \<Rightarrow> bool" where
  "files_grow fs fs' \<longleftrightarrow>
     objects fs \<subseteq>\<^sub>m objects fs' \<and> object_load_failed fs \<subseteq> object_load_failed fs' \<and>
     (files_ok fs \<longrightarrow> files_ok fs')"

lemma files_grow_refl [simp, intro]: "files_grow fs fs"
  by (simp add: files_grow_def)

lemma files_grow_trans: "files_grow a b \<Longrightarrow> files_grow b c \<Longrightarrow> files_grow a c"
  by (auto simp: files_grow_def intro: map_le_trans)

lemma files_ok_no_files: "files_ok no_files"
  by (simp add: files_ok_def no_files_def)

lemma files_grow_argv0: "files_grow fs (snd (argv0 w fs))"
  by (simp add: files_grow_def files_ok_def argv0_def split: option.split)

lemma objects_argv0 [simp]:
  "objects (snd (argv0 w fs)) = objects fs"
  "object_load_failed (snd (argv0 w fs)) = object_load_failed fs"
  "registrations (snd (argv0 w fs)) = registrations fs"
  "states_created (snd (argv0 w fs)) = states_created fs"
  by (simp_all add: argv0_def split: option.split)

lemma objects_object_file_path [simp]:
  "objects (snd (object_file_path w fs info)) = objects fs"
  "object_load_failed (snd (object_file_path w fs info)) = object_load_failed fs"
  "registrations (snd (object_file_path w fs info)) = registrations fs"
  "states_created (snd (object_file_path w fs info)) = states_created fs"
  by (simp_all add: object_file_path_def case_prod_beta Let_def split: option.split)

lemma files_ok_object_file_path: "files_ok (snd (object_file_path w fs info)) \<longleftrightarrow> files_ok fs"
  by (simp add: files_ok_def)

lemma unregistered:
  "files_ok fs \<Longrightarrow> objects fs base = None \<Longrightarrow> base \<notin> object_load_failed fs \<Longrightarrow>
   base \<notin> fst ` set (registrations fs)"
  by (fastforce simp: files_ok_def)

lemma load_failed_grow:
  assumes "objects fs base = None"
  shows "files_grow fs (load_failed fs base)"
  using assms by (auto simp: files_grow_def files_ok_def load_failed_def)

lemma load_failed_fields [simp]:
  "objects (load_failed fs base) = objects fs"
  "object_load_failed (load_failed fs base) = insert base (object_load_failed fs)"
  "registrations (load_failed fs base) = registrations fs"
  "states_created (load_failed fs base) = states_created fs"
  by (simp_all add: load_failed_def)

text \<open>A registration that failed, and one that succeeded, with the new state's number.\<close>

lemma files_ok_attempted:
  assumes "files_ok fs" "objects fs base = None" "base \<notin> object_load_failed fs"
  shows "files_ok (load_failed
           (fs\<lparr>states_created := Suc (states_created fs),
               registrations := registrations fs @ [(base, path)]\<rparr>) base)"
proof -
  have "base \<notin> fst ` set (registrations fs)" using unregistered assms by blast
  with assms show ?thesis
    unfolding files_ok_def by (auto simp: less_SucI)
qed

lemma files_okI:
  assumes "\<And>b. b \<in> object_load_failed fs \<Longrightarrow> objects fs b = None"
    and "distinct (map fst (registrations fs))"
    and "\<And>b p. (b, p) \<in> set (registrations fs) \<Longrightarrow> objects fs b \<noteq> None \<or> b \<in> object_load_failed fs"
    and "\<And>b o1. objects fs b = Some o1 \<Longrightarrow> of_state o1 < states_created fs"
    and "\<And>b b' o1 o2. objects fs b = Some o1 \<Longrightarrow> objects fs b' = Some o2 \<Longrightarrow>
           of_state o1 = of_state o2 \<Longrightarrow> b = b'"
  shows "files_ok fs"
  unfolding files_ok_def using assms by (intro conjI ballI) (fastforce, auto)

lemma files_ok_registered:
  assumes ok: "files_ok fs" and "objects fs base = None" "base \<notin> object_load_failed fs"
    and st: "of_state object = states_created fs"
  shows "files_ok (fs\<lparr>states_created := Suc (states_created fs),
               registrations := registrations fs @ [(base, path)],
               nameless_warnings := n,
               objects := (objects fs)(base \<mapsto> object)\<rparr>)" (is "files_ok ?fs")
proof (rule files_okI)
  have new: "base \<notin> fst ` set (registrations fs)" using unregistered assms by blast
  have old: "of_state o' < states_created fs" if "objects fs b = Some o'" for b o'
    using ok that by (simp add: files_ok_def)
  show "objects ?fs b = None" if "b \<in> object_load_failed ?fs" for b
    using that ok assms(3) by (auto simp: files_ok_def)
  show "distinct (map fst (registrations ?fs))"
    using ok new by (simp add: files_ok_def)
  show "objects ?fs b \<noteq> None \<or> b \<in> object_load_failed ?fs" if "(b, p) \<in> set (registrations ?fs)" for b p
    using that ok by (auto simp: files_ok_def)
  show "of_state o1 < states_created ?fs" if "objects ?fs b = Some o1" for b o1
    using that old [of b o1] st by (auto split: if_splits)
  show "b = b'" if "objects ?fs b = Some o1" "objects ?fs b' = Some o2" "of_state o1 = of_state o2"
    for b b' o1 o2
  proof (cases "b = base \<or> b' = base")
    case True
    then show ?thesis
      using that old [of b o1] old [of b' o2] st by (auto split: if_splits)
  next
    case False
    then have "objects fs b = Some o1" "objects fs b' = Some o2" using that by simp_all
    with ok that(3) show ?thesis unfolding files_ok_def by blast
  qed
qed

lemma register_object_cases:
  obtains "register_object w fs base bias path = (None, load_failed fs base)"
  | "register_object w fs base bias path =
       (None, load_failed (fs\<lparr>states_created := Suc (states_created fs),
                 registrations := registrations fs @ [(base, path)]\<rparr>) base)"
  | object n where "of_state object = states_created fs"
      "register_object w fs base bias path =
         (Some object, fs\<lparr>states_created := Suc (states_created fs),
                 registrations := registrations fs @ [(base, path)],
                 nameless_warnings := n, objects := (objects fs)(base \<mapsto> object)\<rparr>)"
proof (cases "path = [] \<or> \<not> create_state w")
  case True
  then show ?thesis using that(1) by (auto simp: register_object_def)
next
  case False
  show ?thesis
  proof (cases "add_file w path bias")
    case None
    then show ?thesis using that(2) False by (simp add: register_object_def)
  next
    case (Some f)
    obtain symtab dwarf own where f: "f = (symtab, dwarf, own)" by (cases f)
    let ?o = "\<lparr>of_state = states_created fs, has_symtab = symtab, has_dwarf = dwarf,
                has_own_symtab = own\<rparr>"
    have "of_state ?o = states_created fs" by simp
    moreover have "register_object w fs base bias path =
        (Some ?o, fs\<lparr>states_created := Suc (states_created fs),
                 registrations := registrations fs @ [(base, path)],
                 nameless_warnings := (if path = EXECUTABLE_FILE \<and> \<not> dwarf \<and> \<not> own
                    then Suc (nameless_warnings fs) else nameless_warnings fs),
                 objects := (objects fs)(base \<mapsto> ?o)\<rparr>)"
      using False Some f by (simp add: register_object_def Let_def)
    ultimately show ?thesis by (rule that(3))
  qed
qed

lemma register_object_ok:
  assumes "files_ok fs" "objects fs base = None" "base \<notin> object_load_failed fs"
  shows "files_ok (snd (register_object w fs base bias path))"
  by (rule register_object_cases [of w fs base bias path])
    (use assms load_failed_grow [of fs base] in
      \<open>auto simp: files_grow_def intro: files_ok_attempted files_ok_registered\<close>)

lemma register_object_grow:
  assumes "objects fs base = None"
  shows "objects fs \<subseteq>\<^sub>m objects (snd (register_object w fs base bias path)) \<and>
         object_load_failed fs \<subseteq> object_load_failed (snd (register_object w fs base bias path))"
  using assms by (auto simp: register_object_def Let_def map_le_def split: option.split)

lemma ensure_object_loaded_grow: "files_grow fs (snd (ensure_object_loaded w fs info bias))"
proof (cases "objects fs (dli_fbase info) = None \<and> dli_fbase info \<notin> object_load_failed fs")
  case True
  let ?f = "snd (object_file_path w fs info)"
  let ?p = "fst (object_file_path w fs info)"
  have e: "ensure_object_loaded w fs info bias = register_object w ?f (dli_fbase info) bias ?p"
    using True by (simp add: ensure_object_loaded_def case_prod_beta)
  show ?thesis
    unfolding files_grow_def e
    using register_object_grow [of ?f "dli_fbase info" w bias ?p]
      register_object_ok [of ?f "dli_fbase info" w bias ?p] True
    by (simp add: files_ok_object_file_path)
next
  case False
  then show ?thesis by (auto simp: ensure_object_loaded_def split: option.split)
qed

text \<open>After one call the object is decided, and from then on every call repeats the answer.\<close>

lemma ensure_object_loaded_decides:
  "let (answer, fs') = ensure_object_loaded w fs info bias in
   (case answer of
      Some object \<Rightarrow> objects fs' (dli_fbase info) = Some object
    | None \<Rightarrow> objects fs' (dli_fbase info) = None \<and> dli_fbase info \<in> object_load_failed fs')"
  by (auto simp: ensure_object_loaded_def register_object_def Let_def case_prod_beta
      split: option.split)

lemma ensure_object_loaded_decided:
  "(\<exists>object. objects fs (dli_fbase info) = Some object) \<or>
   (objects fs (dli_fbase info) = None \<and> dli_fbase info \<in> object_load_failed fs) \<Longrightarrow>
   ensure_object_loaded w fs info bias = (objects fs (dli_fbase info), fs)"
  by (auto simp: ensure_object_loaded_def)

section \<open>Mappings as the kernel prints them\<close>

record mapping =
  m_start :: u64
  m_end :: u64
  m_columns :: "string list"
  m_gap :: nat
  m_path :: string

text \<open>The address range in at least eight digits, the fixed columns, and the path if there is one.\<close>

definition range_text :: "mapping \<Rightarrow> string" where
  "range_text m = pad_left CHR ''0'' 8 (hex (unat (m_start m))) @ ''-''
                    @ pad_left CHR ''0'' 8 (hex (unat (m_end m)))"

definition render_mapping :: "mapping \<Rightarrow> string" where
  "render_mapping m =
     range_text m @ concat (map ((#) CHR '' '') (m_columns m))
       @ replicate (m_gap m) CHR '' '' @ m_path m"

definition mapping_ok :: "mapping \<Rightarrow> bool" where
  "mapping_ok m \<longleftrightarrow>
     length (m_columns m) = MAPS_COLUMNS_BEFORE_PATH \<and>
     (\<forall>c \<in> set (m_columns m). c \<noteq> [] \<and> CHR '' '' \<notin> set c \<and> NUL \<notin> set c) \<and>
     NUL \<notin> set (m_path m) \<and>
     (m_path m \<noteq> [] \<longrightarrow> 0 < m_gap m \<and> hd (m_path m) \<noteq> CHR '' '')"

definition mapping_path :: "mapping \<Rightarrow> string option" where
  "mapping_path m = (if m_path m \<noteq> [] \<and> hd (m_path m) = CHR ''/'' then Some (m_path m) else None)"

definition mapping_covers :: "addr \<Rightarrow> mapping \<Rightarrow> bool" where
  "mapping_covers base m \<longleftrightarrow> m_start m \<le> base \<and> base < m_end m"

lemma digit_char_hex: "d < 16 \<Longrightarrow>
  is_hex_digit (digit_char d) \<and> hex_value (digit_char d) = d \<and>
  \<not> is_space (digit_char d) \<and> digit_char d \<noteq> CHR ''+'' \<and> digit_char d \<noteq> CHR ''-'' \<and>
  digit_char d \<noteq> CHR ''x'' \<and> digit_char d \<noteq> CHR ''X''"
proof -
  have "list_all (\<lambda>d. is_hex_digit (digit_char d) \<and> hex_value (digit_char d) = d \<and>
      \<not> is_space (digit_char d) \<and> digit_char d \<noteq> CHR ''+'' \<and> digit_char d \<noteq> CHR ''-'' \<and>
      digit_char d \<noteq> CHR ''x'' \<and> digit_char d \<noteq> CHR ''X'') [0..<16]" by code_simp
  then show "d < 16 \<Longrightarrow> ?thesis" by (simp add: list_all_iff)
qed

definition plain_digit :: "char \<Rightarrow> bool" where
  "plain_digit c \<longleftrightarrow> (\<exists>d < 16. c = digit_char d)"

lemma plain_digitD:
  "plain_digit c \<Longrightarrow> is_hex_digit c \<and> \<not> is_space c \<and> c \<notin> {CHR ''+'', CHR ''-'', CHR ''x'', CHR ''X''}"
  using digit_char_hex by (auto simp: plain_digit_def)

lemma hex_plain: "c \<in> set (pad_left CHR ''0'' w (hex n)) \<Longrightarrow> plain_digit c"
proof -
  have "plain_digit CHR ''0''" by (auto simp: plain_digit_def digit_char_def intro!: exI [of _ 0])
  moreover have "c \<in> set (hex n) \<Longrightarrow> plain_digit c"
    using set_numeral_in [of 16 n] by (auto simp: hex_def plain_digit_def)
  ultimately show "c \<in> set (pad_left CHR ''0'' w (hex n)) \<Longrightarrow> ?thesis"
    using set_pad_left by fastforce
qed

lemma hex_value_plain: "plain_digit c \<Longrightarrow> hex_value c = digit_value c"
  using digit_char_hex digit_value_char by (auto simp: plain_digit_def)

lemma foldl_hex:
  "\<forall>c \<in> set s. plain_digit c \<Longrightarrow> foldl (\<lambda>a c. a * 16 + hex_value c) n s =
     foldl (\<lambda>a c. a * 16 + digit_value c) n s"
  by (induction s arbitrary: n) (simp_all add: hex_value_plain)

lemma value_pad_hex: "foldl (\<lambda>a c. a * 16 + hex_value c) 0 (pad_left CHR ''0'' w (hex n)) = n"
proof -
  have z: "foldl (\<lambda>a c. a * 16 + digit_value c) 0 (replicate k CHR ''0'') = 0" for k
    by (induction k) (simp_all add: digit_value_def)
  have "foldl (\<lambda>a c. a * 16 + hex_value c) 0 (pad_left CHR ''0'' w (hex n)) =
      foldl (\<lambda>a c. a * 16 + digit_value c) 0 (pad_left CHR ''0'' w (hex n))"
    by (rule foldl_hex) (simp add: hex_plain)
  also have "\<dots> = n"
    using value_numeral_in [of 16 n] by (simp add: pad_left_def z hex_def value_in_def)
  finally show ?thesis .
qed

lemma strtoull16_hex:
  assumes "rest = [] \<or> \<not> is_hex_digit (hd rest)"
  shows "strtoull16 (pad_left CHR ''0'' 8 (hex (unat v)) @ rest) =
           (v, length (pad_left CHR ''0'' 8 (hex (unat v))))"
proof -
  let ?d = "pad_left CHR ''0'' 8 (hex (unat v))"
  have len: "8 \<le> length ?d" by (simp add: pad_left_def)
  then obtain c c' r where d: "?d = c # c' # r"
    by (cases ?d; cases "tl ?d") auto
  have plain: "\<forall>x \<in> set ?d. plain_digit x" by (simp add: hex_plain)
  then have cc: "plain_digit c" "plain_digit c'" by (simp_all add: d)
  note cD = plain_digitD [OF cc(1)] and c'D = plain_digitD [OF cc(2)]
  have digits: "takeWhile is_hex_digit (?d @ rest) = ?d"
    using plain assms plain_digitD by (cases rest) (auto simp: takeWhile_append)
  have space: "takeWhile is_space (?d @ rest) = []" using cD by (simp add: d)
  have prefix: "(take 2 (?d @ rest) \<in> {''0x'', ''0X''} \<and> 2 < length (?d @ rest) \<and>
      is_hex_digit ((?d @ rest) ! 2)) = False" using c'D by (simp add: d)
  have minus: "(?d @ rest \<noteq> [] \<and> hd (?d @ rest) = CHR ''-'') = False"
    and sign: "(?d @ rest \<noteq> [] \<and> hd (?d @ rest) \<in> {CHR ''+'', CHR ''-''}) = False"
    using cD by (simp_all add: d)
  have ne: "(?d = []) = False" by (simp add: d)
  have small: "(2 ^ 64 \<le> unat v) = False" using unsigned_less [of v, where 'a = nat] by simp
  show ?thesis
    unfolding strtoull16_def Let_def
    by (simp only: space list.size drop_0 prefix minus sign digits ne small value_pad_hex if_False
        add_0_left of_nat_unat ucast_id)
qed

lemma maps_range:
  assumes "NUL \<notin> set rest" "rest = [] \<or> hd rest = CHR '' ''"
  shows "maps_line_answer target (range_text m @ rest) =
           (if m_start m \<le> target \<and> target < m_end m
            then Some (path_column (range_text m @ rest) (length (range_text m))) else None)"
proof -
  let ?s = "pad_left CHR ''0'' 8 (hex (unat (m_start m)))"
  let ?e = "pad_left CHR ''0'' 8 (hex (unat (m_end m)))"
  have "plain_digit c \<Longrightarrow> c \<noteq> NUL" for c
    using digit_char_printable by (auto simp: plain_digit_def)
  then have "NUL \<notin> set (range_text m @ rest)"
    using assms(1) hex_plain by (fastforce simp: range_text_def NUL_def)
  then have c_text: "c_str (range_text m @ rest) = ?s @ CHR ''-'' # ?e @ rest"
    by (simp add: c_str_id) (simp add: range_text_def)
  have "\<not> is_hex_digit CHR ''-''" "\<not> is_hex_digit CHR '' ''" by code_simp+
  then have e: "strtoull16 (?e @ rest) = (m_end m, length ?e)"
    and s: "strtoull16 (?s @ CHR ''-'' # ?e @ rest) = (m_start m, length ?s)"
    using assms(2) by (auto intro!: strtoull16_hex)
  have b: "byte_at (?s @ CHR ''-'' # ?e @ rest) (length ?s) = Some CHR ''-''"
    by (simp add: byte_at_def)
  have ne: "length ?s \<noteq> 0" "length ?e \<noteq> 0" by (simp_all add: pad_left_def hex_def)
  show ?thesis
    unfolding maps_line_answer_def Let_def c_text
    using ne by (auto simp: s e b range_text_def not_less)
qed

lemma find_column:
  assumes "col \<noteq> []" "CHR '' '' \<notin> set col" "rest = [] \<or> hd rest = CHR '' ''"
    and line_def: "line = pre @ CHR '' '' # col @ rest"
  shows "find_first_not_of line CHR '' '' (length pre) = Some (Suc (length pre))"
    and "find_char line CHR '' '' (Suc (length pre)) =
           (if rest = [] then None else Some (length pre + Suc (length col)))"
proof -
  have d: "drop (length pre) line = CHR '' '' # col @ rest"
    and d': "drop (Suc (length pre)) line = col @ rest"
    by (simp_all add: line_def)
  have "takeWhile (\<lambda>x. x = CHR '' '') (col @ rest) = []"
    using assms(1,2) by (cases col) auto
  then show "find_first_not_of line CHR '' '' (length pre) = Some (Suc (length pre))"
    using assms(1) by (simp add: find_first_not_of_def d line_def)
  have "takeWhile (\<lambda>x. x \<noteq> CHR '' '') (col @ rest) = col"
    using assms(2,3) by (cases rest) (auto simp: takeWhile_append)
  then show "find_char line CHR '' '' (Suc (length pre)) =
           (if rest = [] then None else Some (length pre + Suc (length col)))"
    by (simp add: find_char_def d' line_def)
qed

lemma skip_columns_all:
  "\<forall>c \<in> set cols. c \<noteq> [] \<and> CHR '' '' \<notin> set c \<Longrightarrow> cols \<noteq> [] \<Longrightarrow> rest = [] \<or> hd rest = CHR '' '' \<Longrightarrow>
   skip_columns (length cols) (pre @ concat (map ((#) CHR '' '') cols) @ rest) (length pre) =
     (if rest = [] then None
      else Some (length (pre @ concat (map ((#) CHR '' '') cols))))"
proof (induction cols arbitrary: pre)
  case (Cons c cols)
  let ?rest = "concat (map ((#) CHR '' '') cols) @ rest"
  have rest: "?rest = [] \<or> hd ?rest = CHR '' ''"
    using Cons.prems(3) by (cases cols) auto
  have c: "c \<noteq> []" "CHR '' '' \<notin> set c" using Cons.prems(1) by auto
  note step = find_column [OF c rest refl, of pre]
  show ?case
  proof (cases "cols = []")
    case True
    then show ?thesis using step by simp
  next
    case False
    then have "?rest \<noteq> []" by (cases cols) auto
    moreover have "skip_columns (length cols) ((pre @ CHR '' '' # c) @ ?rest)
        (length (pre @ CHR '' '' # c)) =
      (if rest = [] then None
       else Some (length ((pre @ CHR '' '' # c) @ concat (map ((#) CHR '' '') cols))))"
      using Cons.prems False by (intro Cons.IH) auto
    ultimately show ?thesis using step False by (cases "rest = []") simp_all
  qed
qed simp

lemma path_column_rendered:
  assumes "mapping_ok m"
  shows "path_column (render_mapping m) (length (range_text m)) = mapping_path m"
proof -
  let ?cols = "concat (map ((#) CHR '' '') (m_columns m))"
  let ?gap = "replicate (m_gap m) CHR '' ''"
  let ?pre = "range_text m @ ?cols"
  note ok = assms [unfolded mapping_ok_def]
  have rest: "?gap @ m_path m = [] \<or> hd (?gap @ m_path m) = CHR '' ''"
    using ok by (cases "m_gap m") auto
  have cols: "m_columns m \<noteq> []" using ok by (auto simp: MAPS_COLUMNS_BEFORE_PATH_def)
  have skip: "skip_columns MAPS_COLUMNS_BEFORE_PATH (render_mapping m) (length (range_text m)) =
      (if ?gap @ m_path m = [] then None else Some (length ?pre))"
    using skip_columns_all [OF _ cols rest, of "range_text m"] ok
    by (simp add: render_mapping_def)
  have "takeWhile (\<lambda>x. x = CHR '' '') (?gap @ m_path m) = ?gap"
    using ok by (cases "m_path m") (auto simp: takeWhile_append)
  then have "find_first_not_of (render_mapping m) CHR '' '' (length ?pre) =
      (if m_path m = [] then None else Some (length ?pre + m_gap m))"
    by (simp add: find_first_not_of_def render_mapping_def)
  moreover have "render_mapping m ! (length ?pre + m_gap m) = hd (m_path m)" if "m_path m \<noteq> []"
    using that by (simp add: render_mapping_def nth_append hd_conv_nth)
  moreover have "drop (length ?pre + m_gap m) (render_mapping m) = m_path m"
    by (simp add: render_mapping_def)
  ultimately show ?thesis
    using ok by (auto simp: path_column_def skip mapping_path_def)
qed

lemma maps_line_rendered:
  assumes "mapping_ok m"
  shows "maps_line_answer base (render_mapping m) =
           (if mapping_covers base m then Some (mapping_path m) else None)"
proof -
  let ?rest = "concat (map ((#) CHR '' '') (m_columns m)) @ replicate (m_gap m) CHR '' '' @ m_path m"
  note ok = assms [unfolded mapping_ok_def]
  have "NUL \<noteq> CHR '' ''" by (simp add: NUL_def)
  then have "NUL \<notin> set ?rest" using ok by auto
  moreover have "?rest = [] \<or> hd ?rest = CHR '' ''"
    using ok by (cases "m_columns m") (auto simp: MAPS_COLUMNS_BEFORE_PATH_def)
  ultimately show ?thesis
    using maps_range [of ?rest base m] path_column_rendered [OF assms]
    by (simp add: render_mapping_def mapping_covers_def)
qed

lemma mapped_object_path_rendered:
  "\<forall>m \<in> set ms. mapping_ok m \<Longrightarrow>
   mapped_object_path (map render_mapping ms) base =
     (case find (mapping_covers base) ms of None \<Rightarrow> None | Some m \<Rightarrow> mapping_path m)"
  by (induction ms) (simp_all add: maps_line_rendered)

section \<open>Properties\<close>

text \<open>
  C25. The path of a mapped object is read back from \<open>/proc/self/maps\<close>: for mappings as the kernel
  prints them, with any columns and any spaces in their paths, the answer is the path of the
  first mapping that contains the address, and none when that mapping has no file.
\<close>

theorem mapped_object_path_correct:
  assumes "\<forall>m \<in> set ms. mapping_ok m"
  shows "mapped_object_path (map render_mapping ms) base =
           (case find (mapping_covers base) ms of None \<Rightarrow> None | Some m \<Rightarrow> mapping_path m)"
  using assms by (rule mapped_object_path_rendered)

theorem mapped_object_path_correct_witness:
  "let ms = [\<lparr>m_start = 0x400000, m_end = 0x401000,
              m_columns = [''r-xp'', ''00000000'', ''08:02'', ''17''], m_gap = 1, m_path = []\<rparr>,
             \<lparr>m_start = 0x7f0000, m_end = 0x7f8000,
              m_columns = [''r-xp'', ''00000000'', ''08:02'', ''42''], m_gap = 19,
              m_path = ''/opt/my lib.so''\<rparr>]
   in mapped_object_path (map render_mapping ms) 0x7f1234 = Some ''/opt/my lib.so''"
proof -
  let ?ms = "[\<lparr>m_start = 0x400000, m_end = 0x401000,
              m_columns = [''r-xp'', ''00000000'', ''08:02'', ''17''], m_gap = 1, m_path = []\<rparr>,
             \<lparr>m_start = 0x7f0000, m_end = 0x7f8000,
              m_columns = [''r-xp'', ''00000000'', ''08:02'', ''42''], m_gap = 19,
              m_path = ''/opt/my lib.so''\<rparr>]"
  have "\<forall>m \<in> set ?ms. mapping_ok m" by code_simp
  from mapped_object_path_correct [OF this, where base = "0x7f1234"] show ?thesis
    by (simp add: mapping_covers_def mapping_path_def)
qed

lemma mapped_object_path_absolute:
  "mapped_object_path lines base = Some path \<Longrightarrow> path \<noteq> [] \<and> hd path = CHR ''/''"
proof (induction lines)
  case (Cons line lines)
  have "path_column l pos = Some p \<Longrightarrow> p \<noteq> [] \<and> hd p = CHR ''/''" for l pos p
    by (auto simp: path_column_def find_first_not_of_def Let_def hd_drop_conv_nth
        split: option.splits if_splits)
  with Cons show ?case
    by (auto simp: maps_line_answer_def Let_def split: option.splits if_splits prod.splits)
qed simp

text \<open>
  C26. The file read for an object is never looked up relative to the current directory, and never a
  file put in place of one that was deleted: the path is absolute or there is none, and there is
  none for an object, other than the executable, whose mapping is marked as deleted.
\<close>

theorem object_path_is_safe:
  "let path = fst (object_file_path w fs info) in
     (path = [] \<or> hd path = CHR ''/'') \<and>
     (\<forall>mapped. dli_fname info \<noteq> Some (fst (argv0 w fs)) \<and>
        mapped_object_path (maps_file w) (dli_fbase info) = Some mapped \<and> deleted_mapping mapped \<longrightarrow>
        path = [])"
proof -
  have "library_path w info = [] \<or> hd (library_path w info) = CHR ''/''"
    by (auto simp: library_path_def byte_at_def hd_conv_nth dest: mapped_object_path_absolute
        split: option.split if_splits)
  moreover have "hd EXECUTABLE_FILE = CHR ''/''" by (simp add: EXECUTABLE_FILE_def)
  ultimately show ?thesis
    by (auto simp: Let_def object_file_path_def library_path_def case_prod_beta split: option.split)
qed

definition sample_world :: world where
  "sample_world = \<lparr>cmdline_file = ''./demo'', maps_file = [], create_state = True,
     add_file = (\<lambda>_ _. None), dladdr1 = (\<lambda>_. None), backtrace_pcinfo = (\<lambda>_ _. []),
     backtrace_syminfo = (\<lambda>_ _. []), cxa_demangle = (\<lambda>_. (- 2, None)), on_clang = False,
     log_addr_on = False\<rparr>"

definition deleted_library :: mapping where
  "deleted_library = \<lparr>m_start = 0x7f0000, m_end = 0x7f8000,
     m_columns = [''r-xp'', ''00000000'', ''08:02'', ''42''], m_gap = 1,
     m_path = ''/tmp/a.so (deleted)''\<rparr>"

theorem object_path_is_safe_witness:
  "let w = sample_world\<lparr>maps_file := [render_mapping deleted_library]\<rparr>;
       info = \<lparr>dli_fname = Some ''./a.so'', dli_fbase = 0x7f0000, dli_sname = None\<rparr>
   in mapped_object_path (maps_file w) (dli_fbase info) = Some ''/tmp/a.so (deleted)'' \<and>
      fst (object_file_path w no_files info) = []"
proof -
  let ?w = "sample_world\<lparr>maps_file := [render_mapping deleted_library]\<rparr>"
  let ?info = "\<lparr>dli_fname = Some ''./a.so'', dli_fbase = 0x7f0000, dli_sname = None\<rparr>"
  have "mapping_ok deleted_library" by code_simp
  then have m: "mapped_object_path (maps_file ?w) (dli_fbase ?info) = Some ''/tmp/a.so (deleted)''"
    using mapped_object_path_rendered [of "[deleted_library]" "0x7f0000"]
    by (simp add: mapping_covers_def mapping_path_def deleted_library_def)
  have d: "deleted_mapping ''/tmp/a.so (deleted)''" by code_simp
  have f: "dli_fname ?info \<noteq> Some (fst (argv0 ?w no_files))"
    by (simp add: argv0_def no_files_def get_argv0_def sample_world_def c_str_def NUL_def)
  from object_path_is_safe [of ?w no_files ?info, unfolded Let_def] m d f show ?thesis
    by (simp only: Let_def) blast
qed

type_synonym load_call = "world \<times> dl_info \<times> addr"

fun load_calls :: "files \<Rightarrow> load_call list \<Rightarrow> object_file option list \<times> files" where
  "load_calls fs [] = ([], fs)"
| "load_calls fs ((w, info, bias) # calls) =
     (let (answer, fs') = ensure_object_loaded w fs info bias;
          (answers, fs'') = load_calls fs' calls
      in (answer # answers, fs''))"

lemma load_calls_grow: "files_grow fs (snd (load_calls fs calls))"
proof (induction calls arbitrary: fs)
  case (Cons c calls)
  obtain w info bias where c: "c = (w, info, bias)" by (cases c)
  show ?case
    using files_grow_trans [OF ensure_object_loaded_grow [of fs w info bias] Cons.IH]
    by (simp add: c case_prod_beta Let_def)
qed simp

lemma load_calls_answers:
  "files_ok fs \<Longrightarrow>
   fst (load_calls fs calls) = map (\<lambda>(w, info, bias). objects (snd (load_calls fs calls)) (dli_fbase info)) calls"
proof (induction calls arbitrary: fs)
  case (Cons c calls)
  obtain w info bias where c: "c = (w, info, bias)" by (cases c)
  let ?e = "ensure_object_loaded w fs info bias"
  let ?fs' = "snd (load_calls (snd ?e) calls)"
  have ok: "files_ok (snd ?e)"
    using Cons.prems ensure_object_loaded_grow [of fs w info bias] by (simp add: files_grow_def)
  have grow: "files_grow (snd ?e) ?fs'" by (rule load_calls_grow)
  with ok have ok': "files_ok ?fs'" by (simp add: files_grow_def)
  have "fst ?e = objects ?fs' (dli_fbase info)"
  proof (cases "fst ?e")
    case None
    then have "dli_fbase info \<in> object_load_failed (snd ?e)"
      using ensure_object_loaded_decides [of w fs info bias] by (simp add: case_prod_beta)
    then have "dli_fbase info \<in> object_load_failed ?fs'"
      using grow by (auto simp: files_grow_def)
    with ok' None show ?thesis by (simp add: files_ok_def)
  next
    case (Some object)
    then have "objects (snd ?e) (dli_fbase info) = Some object"
      using ensure_object_loaded_decides [of w fs info bias] by (simp add: case_prod_beta)
    with grow Some show ?thesis by (auto simp: files_grow_def map_le_def dom_def)
  qed
  with Cons.IH [OF ok] show ?case by (simp add: c case_prod_beta Let_def)
qed simp

text \<open>
  C27. One attempt per object: over any sequence of lookups, whatever the files and the loader answer
  from one call to the next, no file is handed to libbacktrace twice for an object, each
  registered object has a libbacktrace state of its own, and every answer, first or repeated, is
  what the registry holds in the end.
\<close>

theorem one_registration_per_object:
  "let (answers, fs) = load_calls no_files calls in
     distinct (map fst (registrations fs)) \<and>
     inj_on (\<lambda>b. of_state (the (objects fs b))) (dom (objects fs)) \<and>
     answers = map (\<lambda>(w, info, bias). objects fs (dli_fbase info)) calls"
proof -
  let ?fs = "snd (load_calls no_files calls)"
  have ok: "files_ok ?fs"
    using load_calls_grow [of no_files calls] files_ok_no_files by (simp add: files_grow_def)
  then have "inj_on (\<lambda>b. of_state (the (objects ?fs b))) (dom (objects ?fs))"
    by (auto intro!: inj_onI simp: files_ok_def)
  moreover have "distinct (map fst (registrations ?fs))" using ok by (simp add: files_ok_def)
  ultimately show ?thesis
    using load_calls_answers [OF files_ok_no_files, of calls] by (simp add: case_prod_beta)
qed

end
