(* ===== verification/BaseName.thy ===== *)
theory BaseName
  imports Prelude
begin

text \<open>
  Base names of demangled functions (\<open>matching_bracket\<close> and \<open>function_base_name\<close> of
  \<open>include/frameReconcile.h\<close>), by which records that share a physical frame are told apart. A name
  is its list of bytes; \<open>npos\<close> is None.
\<close>

section \<open>The code\<close>

function match_from :: "string \<Rightarrow> nat \<Rightarrow> int \<Rightarrow> char \<Rightarrow> char \<Rightarrow> nat option" where
  "match_from name i depth open_char close_char =
     (if i < length name
      then (if name ! i = open_char then match_from name (Suc i) (depth + 1) open_char close_char
            else if name ! i = close_char
                 then (if depth - 1 = 0 then Some i
                       else match_from name (Suc i) (depth - 1) open_char close_char)
                 else match_from name (Suc i) depth open_char close_char)
      else None)"
  by pat_completeness auto
termination
  by (relation "measure (\<lambda>(name, i, depth, oc, cc). length name - i)") auto

declare match_from.simps [simp del]

definition matching_bracket :: "string \<Rightarrow> nat \<Rightarrow> char \<Rightarrow> char \<Rightarrow> nat option" where
  "matching_bracket name open_at open_char close_char =
     match_from name open_at 0 open_char close_char"

definition OPERATOR_KEYWORD :: string where
  "OPERATOR_KEYWORD = ''operator''"

definition CALL_OPERATOR :: string where
  "CALL_OPERATOR = ''()''"

text \<open>\<open>name.compare (i, text.size(), text) == 0\<close>\<close>

definition text_at :: "string \<Rightarrow> nat \<Rightarrow> string \<Rightarrow> bool" where
  "text_at name i sought \<longleftrightarrow> take (length sought) (drop i name) = sought"

definition operator_at :: "string \<Rightarrow> nat \<Rightarrow> bool" where
  "operator_at name i \<longleftrightarrow>
     text_at name i OPERATOR_KEYWORD \<and>
     (i = 0 \<or> name ! (i - 1) = CHR '':'' \<or> name ! (i - 1) = CHR '' '')"

definition operator_end :: "string \<Rightarrow> nat \<Rightarrow> nat" where
  "operator_end name i =
     (let j = i + length OPERATOR_KEYWORD;
          j = (if text_at name j CALL_OPERATOR then j + length CALL_OPERATOR else j)
      in j + length (takeWhile (\<lambda>c. c \<noteq> CHR ''('') (drop j name)))"

lemma match_from_ge: "match_from name i depth oc cc = Some k \<Longrightarrow> i \<le> k \<and> k < length name"
proof (induction name i depth oc cc rule: match_from.induct)
  case (1 name i depth oc cc)
  from "1.prems" have "(if i < length name
      then (if name ! i = oc then match_from name (Suc i) (depth + 1) oc cc
            else if name ! i = cc
                 then (if depth - 1 = 0 then Some i else match_from name (Suc i) (depth - 1) oc cc)
                 else match_from name (Suc i) depth oc cc)
      else None) = Some k"
    by (subst (asm) match_from.simps)
  then show ?case using "1.IH" by (auto split: if_splits)
qed

lemma matching_bracket_ge:
  "matching_bracket name i oc cc = Some k \<Longrightarrow> i \<le> k \<and> k < length name"
  by (simp add: matching_bracket_def match_from_ge)

text \<open>The first loop: where the parameter list starts.\<close>

function find_cut :: "string \<Rightarrow> nat \<Rightarrow> int \<Rightarrow> nat option" where
  "find_cut name i depth =
     (if i < length name
      then
        (if name ! i = CHR ''{'' then
           (case matching_bracket name i CHR ''{'' CHR ''}'' of
              None \<Rightarrow> None
            | Some close \<Rightarrow> find_cut name (Suc close) depth)
         else if operator_at name i then Some (operator_end name i)
         else if name ! i = CHR ''<'' then find_cut name (Suc i) (depth + 1)
         else if name ! i = CHR ''>'' then find_cut name (Suc i) (depth - 1)
         else if name ! i = CHR ''('' \<and> depth = 0 then
           (case matching_bracket name i CHR ''('' CHR '')'' of
              None \<Rightarrow> Some i
            | Some close \<Rightarrow>
                if text_at name (close + 1) ''::'' then find_cut name (close + 2) depth else Some i)
         else find_cut name (Suc i) depth)
      else None)"
  by pat_completeness auto
termination
  by (relation "measure (\<lambda>(name, i, depth). length name - i)")
    (auto dest!: matching_bracket_ge)

declare find_cut.simps [simp del]

text \<open>The second loop: where the last scope component ends.\<close>

function find_scope :: "string \<Rightarrow> nat \<Rightarrow> int \<Rightarrow> nat \<Rightarrow> nat" where
  "find_scope name i depth last_scope =
     (if i + 1 < length name
      then
        (if name ! i = CHR ''{'' then
           (case matching_bracket name i CHR ''{'' CHR ''}'' of
              None \<Rightarrow> last_scope
            | Some close \<Rightarrow> find_scope name (Suc close) depth last_scope)
         else if name ! i = CHR ''<'' then find_scope name (Suc i) (depth + 1) last_scope
         else if name ! i = CHR ''>'' then find_scope name (Suc i) (depth - 1) last_scope
         else if name ! i = CHR '':'' \<and> name ! (i + 1) = CHR '':'' \<and> depth = 0
              then find_scope name (Suc i) depth (i + 2)
         else find_scope name (Suc i) depth last_scope)
      else last_scope)"
  by pat_completeness auto
termination
  by (relation "measure (\<lambda>(name, i, depth, last). length name - i)")
    (auto dest!: matching_bracket_ge)

declare find_scope.simps [simp del]

definition function_base_name :: "string \<Rightarrow> string" where
  "function_base_name name =
     (let name' = (case find_cut name 0 0 of None \<Rightarrow> name | Some p \<Rightarrow> take p name)
      in drop (find_scope name' 0 0 0) name')"

section \<open>Names of scopes and functions without brackets\<close>

text \<open>
  An identifier: no bracket, colon or space, and not starting with the operator keyword.
\<close>

definition plain_ident :: "string \<Rightarrow> bool" where
  "plain_ident s \<longleftrightarrow>
     s \<noteq> [] \<and> (\<forall>c \<in> set s. c \<notin> set ''{}<>(): '') \<and>
     take (length OPERATOR_KEYWORD) s \<noteq> OPERATOR_KEYWORD"

definition qualify :: "string list \<Rightarrow> string \<Rightarrow> string" where
  "qualify scopes f = concat (map (\<lambda>s. s @ ''::'') scopes) @ f"

lemma qualify_Nil [simp]: "qualify [] f = f"
  by (simp add: qualify_def)

lemma qualify_Cons [simp]: "qualify (s # scopes) f = s @ ''::'' @ qualify scopes f"
  by (simp add: qualify_def)

text \<open>Steps of the loops over plain characters, as steps past a prefix.\<close>

definition plain_char :: "char \<Rightarrow> bool" where
  "plain_char c \<longleftrightarrow> c \<notin> set ''{}<>():''"

lemma find_cut_plain:
  assumes "\<forall>c \<in> set s. plain_char c \<or> c = CHR '':''"
    and "\<forall>k < length s. \<not> operator_at (pre @ s @ rest) (length pre + k)"
  shows "find_cut (pre @ s @ rest) (length pre) d = find_cut (pre @ s @ rest) (length pre + length s) d"
  using assms
proof (induction s arbitrary: pre)
  case (Cons c s)
  have "find_cut ((pre @ [c]) @ s @ rest) (length (pre @ [c])) d =
      find_cut ((pre @ [c]) @ s @ rest) (length (pre @ [c]) + length s) d"
  proof (rule Cons.IH)
    show "\<forall>c \<in> set s. plain_char c \<or> c = CHR '':''" using Cons.prems(1) by simp
    show "\<forall>k < length s. \<not> operator_at ((pre @ [c]) @ s @ rest) (length (pre @ [c]) + k)"
      using Cons.prems(2) by (auto dest: spec [of _ "Suc _"])
  qed
  moreover have "\<not> operator_at (pre @ c # s @ rest) (length pre)"
    using Cons.prems(2) by (auto dest: spec [of _ 0])
  moreover have "plain_char c \<or> c = CHR '':''" using Cons.prems(1) by simp
  ultimately show ?case
    by (subst find_cut.simps) (auto simp: plain_char_def nth_append)
qed simp

lemma find_scope_plain:
  assumes "\<forall>c \<in> set s. plain_char c" "rest \<noteq> []"
  shows "find_scope (pre @ s @ rest) (length pre) d l = find_scope (pre @ s @ rest) (length pre + length s) d l"
  using assms
proof (induction s arbitrary: pre)
  case (Cons c s)
  have "find_scope ((pre @ [c]) @ s @ rest) (length (pre @ [c])) d l =
      find_scope ((pre @ [c]) @ s @ rest) (length (pre @ [c]) + length s) d l"
    using Cons by (intro Cons.IH) auto
  moreover have "plain_char c" using Cons.prems(1) by simp
  moreover have "length pre + 1 < length (pre @ c # s @ rest)"
    using Cons.prems(2) by (cases s; cases rest) auto
  ultimately show ?case
    by (subst find_scope.simps) (auto simp: plain_char_def nth_append)
qed simp

lemma find_scope_end:
  "\<forall>c \<in> set s. plain_char c \<Longrightarrow> find_scope (pre @ s) (length pre) d l = l"
proof (induction s arbitrary: pre)
  case Nil
  then show ?case by (subst find_scope.simps) simp
next
  case (Cons c s)
  have "find_scope ((pre @ [c]) @ s) (length (pre @ [c])) d l = l"
    using Cons by (intro Cons.IH) auto
  moreover have "plain_char c" using Cons.prems by simp
  ultimately show ?case
    by (subst find_scope.simps) (auto simp: plain_char_def nth_append)
qed

lemma identifier_plain: "plain_ident s \<Longrightarrow> c \<in> set s \<Longrightarrow> plain_char c"
  by (auto simp: plain_ident_def plain_char_def)

lemma identifier_nonempty: "plain_ident s \<Longrightarrow> s \<noteq> []"
  by (simp add: plain_ident_def)

lemma find_scope_qualified:
  assumes "\<forall>s \<in> set scopes. plain_ident s" "plain_ident f"
  shows "find_scope (pre @ qualify scopes f) (length pre) 0 (length pre) =
           length (pre @ qualify scopes f) - length f"
  using assms(1)
proof (induction scopes arbitrary: pre)
  case Nil
  show ?case
    using find_scope_end [of f pre 0 "length pre"] identifier_plain [OF assms(2)] by simp
next
  case (Cons s scopes)
  let ?q = "qualify scopes f"
  let ?name = "pre @ s @ ''::'' @ ?q"
  have q: "?q \<noteq> []" using identifier_nonempty [OF assms(2)] by (simp add: qualify_def)
  have "plain_ident s" using Cons.prems by simp
  then have "find_scope ?name (length pre) 0 (length pre) =
      find_scope ?name (length pre + length s) 0 (length pre)"
    by (intro find_scope_plain) (auto intro: identifier_plain)
  also have "\<dots> = find_scope ?name (Suc (length pre + length s)) 0 (length pre + length s + 2)"
    by (subst find_scope.simps) (simp add: nth_append)
  also have "\<dots> = find_scope ?name (length pre + length s + 2) 0 (length pre + length s + 2)"
  proof -
    have "?q ! 0 \<noteq> CHR '':''"
    proof (cases scopes)
      case Nil
      then show ?thesis using assms(2) identifier_plain [OF assms(2), of "f ! 0"]
        by (auto simp: plain_ident_def plain_char_def)
    next
      case (Cons t ts)
      then have "plain_ident t" using Cons.prems by simp
      then show ?thesis using Cons identifier_plain [of t "t ! 0"]
        by (auto simp: plain_ident_def plain_char_def nth_append)
    qed
    then show ?thesis
      using q by (subst find_scope.simps) (simp add: nth_append)
  qed
  also have "\<dots> = length (pre @ s @ ''::'' @ ?q) - length f"
    using Cons.IH [of "pre @ s @ ''::''"] Cons.prems by simp
  finally show ?case by simp
qed

text \<open>Inside a qualified name of identifiers no position starts an operator.\<close>

lemma text_at_append: "text_at (pre @ s) (length pre) t \<longleftrightarrow> take (length t) s = t"
  by (simp add: text_at_def)

lemma no_operator_in_identifier:
  assumes "plain_ident s" "k < length s"
    and "rest = [] \<or> hd rest \<notin> set OPERATOR_KEYWORD"
  shows "\<not> operator_at (pre @ s @ rest) (length pre + k)"
proof (cases k)
  case 0
  have "take (length OPERATOR_KEYWORD) (s @ rest) \<noteq> OPERATOR_KEYWORD"
  proof
    assume eq: "take (length OPERATOR_KEYWORD) (s @ rest) = OPERATOR_KEYWORD"
    show False
    proof (cases "length OPERATOR_KEYWORD \<le> length s")
      case True
      with eq assms(1) show False by (simp add: plain_ident_def)
    next
      case False
      then have "rest \<noteq> []" using eq by (auto dest: arg_cong [of _ _ length])
      moreover have "hd rest \<in> set (take (length OPERATOR_KEYWORD) (s @ rest))"
        using False \<open>rest \<noteq> []\<close> by (cases rest) (auto simp: take_Cons')
      ultimately have "hd rest \<in> set OPERATOR_KEYWORD" by (simp only: eq)
      with assms(3) \<open>rest \<noteq> []\<close> show False by simp
    qed
  qed
  with 0 show ?thesis by (simp add: operator_at_def text_at_append)
next
  case (Suc j)
  then have "(pre @ s @ rest) ! (length pre + k - 1) = s ! j"
    using assms(2) by (simp add: nth_append)
  moreover have "s ! j \<in> set s" using Suc assms(2) by simp
  ultimately have "(pre @ s @ rest) ! (length pre + k - 1) \<notin> {CHR '':'', CHR '' ''}"
    using assms(1) by (auto simp: plain_ident_def)
  with Suc show ?thesis by (auto simp: operator_at_def)
qed

lemma no_operator_at_colon: "\<not> operator_at (pre @ CHR '':'' # rest) (length pre)"
  by (simp add: operator_at_def text_at_append OPERATOR_KEYWORD_def)

lemma find_cut_qualified:
  assumes "\<forall>s \<in> set scopes. plain_ident s" "plain_ident f"
    and "rest = [] \<or> hd rest = CHR ''(''"
  shows "find_cut (pre @ qualify scopes f @ rest) (length pre) 0 =
           find_cut (pre @ qualify scopes f @ rest) (length (pre @ qualify scopes f)) 0"
  using assms(1)
proof (induction scopes arbitrary: pre)
  case Nil
  have "rest = [] \<or> hd rest \<notin> set OPERATOR_KEYWORD"
    using assms(3) by (auto simp: OPERATOR_KEYWORD_def)
  then show ?case
    using find_cut_plain [of f pre rest 0] no_operator_in_identifier [OF assms(2), of _ rest pre]
      identifier_plain [OF assms(2)] by auto
next
  case (Cons s scopes)
  let ?tail = "qualify scopes f @ rest"
  let ?name = "pre @ s @ ''::'' @ ?tail"
  have s: "plain_ident s" using Cons.prems by simp
  have "find_cut ?name (length pre) 0 = find_cut ?name (length pre + length s) 0"
    using no_operator_in_identifier [OF s, of _ "''::'' @ ?tail" pre] identifier_plain [OF s]
    by (intro find_cut_plain) (auto simp: OPERATOR_KEYWORD_def)
  also have "\<dots> = find_cut ?name (length pre + length s + 2) 0"
    using find_cut_plain [of "''::''" "pre @ s" ?tail 0] no_operator_at_colon [of "pre @ s" "'':'' @ ?tail"]
      no_operator_at_colon [of "pre @ s @ '':''" ?tail]
    by (auto simp: less_Suc_eq)
  also have "\<dots> = find_cut ?name (length (pre @ s @ ''::'' @ qualify scopes f)) 0"
    using Cons.IH [of "pre @ s @ ''::''"] Cons.prems by simp
  finally show ?case by simp
qed

section \<open>Properties\<close>

text \<open>
  C39. The base name of a plain function is its last component: for any nesting of plain scopes, and
  any parameter list that is not itself a scope component (its closing bracket, if it has one, is
  not followed by a scope separator), the qualified, demangled name and the bare DWARF name have
  the same base name, the function's own.
\<close>

theorem base_name_of_qualified:
  assumes "\<forall>s \<in> set scopes. plain_ident s" "plain_ident f"
    and "params = [] \<or> (\<exists>args. params = CHR ''('' # args)"
    and "\<forall>close. matching_bracket (qualify scopes f @ params) (length (qualify scopes f))
                   CHR ''('' CHR '')'' = Some close \<longrightarrow>
                 \<not> text_at (qualify scopes f @ params) (close + 1) ''::''"
  shows "function_base_name (qualify scopes f @ params) = f \<and> function_base_name f = f"
proof -
  have base: "function_base_name (qualify ss f @ ps) = f"
    if ss: "\<forall>s \<in> set ss. plain_ident s" and ps: "ps = [] \<or> (\<exists>args. ps = CHR ''('' # args)"
      and close: "\<forall>close. matching_bracket (qualify ss f @ ps) (length (qualify ss f))
             CHR ''('' CHR '')'' = Some close \<longrightarrow> \<not> text_at (qualify ss f @ ps) (close + 1) ''::''"
    for ss ps
  proof -
    let ?q = "qualify ss f"
    have "find_cut (?q @ ps) 0 0 = find_cut (?q @ ps) (length ?q) 0"
      using find_cut_qualified [OF ss assms(2), of ps "[]"] ps by auto
    also have "\<dots> = (if ps = [] then None else Some (length ?q))"
    proof (cases "ps = []")
      case True
      then show ?thesis by (subst find_cut.simps) simp
    next
      case False
      then obtain args where args: "ps = CHR ''('' # args" using ps by blast
      have "\<not> operator_at (?q @ ps) (length ?q)"
        by (simp add: args operator_at_def text_at_append OPERATOR_KEYWORD_def)
      then show ?thesis
        using args close by (subst find_cut.simps) (auto split: option.split)
    qed
    finally have "(case find_cut (?q @ ps) 0 0 of None \<Rightarrow> ?q @ ps | Some p \<Rightarrow> take p (?q @ ps)) = ?q"
      by auto
    moreover have "drop (find_scope ?q 0 0 0) ?q = f"
      using find_scope_qualified [OF ss assms(2), of "[]"] by (simp add: qualify_def)
    ultimately show ?thesis by (simp add: function_base_name_def Let_def)
  qed
  have "function_base_name (qualify [] f @ []) = f"
    by (rule base) (auto simp: matching_bracket_def match_from.simps)
  then show ?thesis using base [OF assms(1,3,4)] by simp
qed

theorem base_name_of_qualified_witness:
  "function_base_name (qualify [''ns'', ''A''] ''foo'' @ ''(int) const'') = ''foo'' \<and>
   function_base_name ''foo'' = ''foo''"
proof (rule base_name_of_qualified)
  show "\<forall>s \<in> set [''ns'', ''A'']. plain_ident s" "plain_ident ''foo''"
    by (simp_all add: plain_ident_def OPERATOR_KEYWORD_def)
  show "''(int) const'' = [] \<or> (\<exists>args. ''(int) const'' = CHR ''('' # args)" by simp
  have "matching_bracket (qualify [''ns'', ''A''] ''foo'' @ ''(int) const'')
      (length (qualify [''ns'', ''A''] ''foo'')) CHR ''('' CHR '')'' = Some 14" by code_simp
  then show "\<forall>close. matching_bracket (qualify [''ns'', ''A''] ''foo'' @ ''(int) const'')
      (length (qualify [''ns'', ''A''] ''foo'')) CHR ''('' CHR '')'' = Some close \<longrightarrow>
      \<not> text_at (qualify [''ns'', ''A''] ''foo'' @ ''(int) const'') (close + 1) ''::''"
    by (simp add: text_at_def)
qed

text \<open>
  The difficult shapes, on the documented examples: lambdas and unnamed types as scope components,
  the parameter list of an enclosing function, operators whose symbol contains brackets, an
  unbalanced brace. A template keeps its arguments, and a demangled template function its return
  type as well.
\<close>

theorem base_name_examples:
  "function_base_name ''host(int)::{lambda(int)#1}::operator()(int) const'' = ''operator()'' \<and>
   function_base_name ''host(std::vector<int>)::{unnamed type#1}::method()'' = ''method'' \<and>
   function_base_name ''ns::(anonymous namespace)::helper(char const*)'' = ''helper'' \<and>
   function_base_name ''A::operator<(A const&) const'' = ''operator<'' \<and>
   function_base_name ''std::vector<int, std::allocator<int> >::at(unsigned long)'' = ''at'' \<and>
   function_base_name ''cooperator(int)'' = ''cooperator'' \<and>
   function_base_name ''{lambda'' = ''{lambda'' \<and>
   function_base_name ''foo<int>(int)'' = ''foo<int>'' \<and>
   function_base_name ''void foo<int>(int)'' = ''void foo<int>''"
  by (intro conjI; code_simp)

end
