(* ===== verification/StdSymbolFilter.thy ===== *)
theory StdSymbolFilter
  imports Prelude "HOL-Library.Monad_Syntax"
begin

text \<open>
  The filter of standard-library symbols (\<open>include/stdSymbolFilter.h\<close>), a parser over a
  NUL-terminated buffer. Every byte is read through \<open>byte_at\<close>, so an access past the terminator
  would be the value None; the language the filter accepts is stated as a grammar.
\<close>

section \<open>The code\<close>

text \<open>\<open>strncmp (text + p, prefix, N - 1) == 0\<close>: byte by byte, stopping at a difference.\<close>

fun starts_with :: "string \<Rightarrow> nat \<Rightarrow> string \<Rightarrow> bool option" where
  "starts_with s p [] = Some True"
| "starts_with s p (c # prefix) =
     (case byte_at s p of
        None \<Rightarrow> None
      | Some d \<Rightarrow> if d = c then starts_with s (Suc p) prefix else Some False)"

definition is_cv_qualifier :: "char \<Rightarrow> bool" where
  "is_cv_qualifier c \<longleftrightarrow> c = CHR ''K'' \<or> c = CHR ''V'' \<or> c = CHR ''r''"

definition is_ref_qualifier :: "char \<Rightarrow> bool" where
  "is_ref_qualifier c \<longleftrightarrow> c = CHR ''R'' \<or> c = CHR ''O''"

function skip_cv_qualifiers :: "string \<Rightarrow> nat \<Rightarrow> nat option" where
  "skip_cv_qualifiers s p =
     (case byte_at s p of
        None \<Rightarrow> None
      | Some c \<Rightarrow> if is_cv_qualifier c then skip_cv_qualifiers s (Suc p) else Some p)"
  by pat_completeness auto
termination
  by (relation "measure (\<lambda>(s, p). Suc (length s) - p)") (auto simp: byte_at_def split: if_splits)

declare skip_cv_qualifiers.simps [simp del]

definition skip_char :: "string \<Rightarrow> (char \<Rightarrow> bool) \<Rightarrow> nat \<Rightarrow> nat option" where
  "skip_char s test p = do { c \<leftarrow> byte_at s p; Some (if test c then Suc p else p) }"

definition skip_nested_name :: "string \<Rightarrow> nat \<Rightarrow> nat option" where
  "skip_nested_name s p = do {
     c \<leftarrow> byte_at s p;
     if c = CHR ''N'' then do {
       q \<leftarrow> skip_cv_qualifiers s (Suc p);
       skip_char s is_ref_qualifier q
     } else Some p }"

definition is_std_substitution :: "char \<Rightarrow> bool" where
  "is_std_substitution next \<longleftrightarrow>
     next = CHR ''t'' \<or> next = CHR ''a'' \<or> next = CHR ''b'' \<or> next = CHR ''s'' \<or>
     next = CHR ''i'' \<or> next = CHR ''o'' \<or> next = CHR ''d''"

definition std_component_at :: "string \<Rightarrow> nat \<Rightarrow> bool option" where
  "std_component_at s p = do {
     c \<leftarrow> byte_at s p;
     substitution \<leftarrow> (if c = CHR ''S''
                      then do { next \<leftarrow> byte_at s (Suc p); Some (is_std_substitution next) }
                      else Some False);
     if substitution then Some True
     else do {
       gnu \<leftarrow> starts_with s p ''9__gnu_cxx'';
       if gnu then Some True
       else do {
         abi \<leftarrow> starts_with s p ''10__cxxabiv1'';
         if abi then Some True else starts_with s p ''11__gnu_debug'' } } }"

definition is_std_library_symbol :: "string \<Rightarrow> bool option" where
  "is_std_library_symbol mangled_name = do {
     cxa \<leftarrow> starts_with mangled_name 0 ''__cxa_'';
     if cxa then Some True
     else do {
       c0 \<leftarrow> byte_at mangled_name 0;
       if c0 \<noteq> CHR ''_'' then Some False
       else do {
         c1 \<leftarrow> byte_at mangled_name 1;
         if c1 \<noteq> CHR ''Z'' then Some False
         else do {
           p \<leftarrow> skip_char mangled_name (\<lambda>c. c = CHR ''Z'') 2;
           p \<leftarrow> skip_nested_name mangled_name p;
           std_component_at mangled_name p } } } }"

section \<open>The language of the filter\<close>

definition std_prefixes :: "string list" where
  "std_prefixes =
     [''St'', ''Sa'', ''Sb'', ''Ss'', ''Si'', ''So'', ''Sd'', ''9__gnu_cxx'', ''10__cxxabiv1'',
      ''11__gnu_debug'']"

definition has_prefix :: "string \<Rightarrow> string \<Rightarrow> bool" where
  "has_prefix pre s \<longleftrightarrow> (\<exists>rest. s = pre @ rest)"

text \<open>
  \<open>_Z [Z] [N [KVr]* [RO]] <standard component>\<close>, or a \<open>__cxa_\<close> function.
\<close>

definition nested_opening :: "string \<Rightarrow> bool" where
  "nested_opening n \<longleftrightarrow>
     n = [] \<or>
     (\<exists>cv ref. n = ''N'' @ cv @ ref \<and> (\<forall>c \<in> set cv. is_cv_qualifier c) \<and>
               (ref = [] \<or> (\<exists>c. ref = [c] \<and> is_ref_qualifier c)))"

definition std_symbol :: "string \<Rightarrow> bool" where
  "std_symbol s \<longleftrightarrow>
     has_prefix ''__cxa_'' s \<or>
     (\<exists>z n pre rest. s = ''_Z'' @ z @ n @ pre @ rest \<and> (z = [] \<or> z = ''Z'') \<and>
        nested_opening n \<and> pre \<in> set std_prefixes)"

section \<open>Reading stays inside the buffer\<close>

lemma byte_at_nth [simp]: "i < length s \<Longrightarrow> byte_at s i = Some (s ! i)"
  by (simp add: byte_at_def)

lemma byte_at_end [simp]: "byte_at s (length s) = Some NUL"
  by (simp add: byte_at_def)

lemma byte_at_append [simp]: "byte_at (pre @ s) (length pre) = byte_at s 0"
  by (cases s) (auto simp: byte_at_def nth_append)

lemma byte_at_hd: "byte_at s 0 = Some (case s of [] \<Rightarrow> NUL | c # _ \<Rightarrow> c)"
  by (cases s) (auto simp: byte_at_def)

lemma starts_with_append:
  "NUL \<notin> set prefix \<Longrightarrow>
   starts_with (pre @ s) (length pre) prefix = Some (take (length prefix) s = prefix)"
proof (induction prefix arbitrary: pre s)
  case (Cons c prefix)
  show ?case
  proof (cases s)
    case Nil
    then show ?thesis using Cons.prems by auto
  next
    case (Cons d s')
    have "starts_with ((pre @ [d]) @ s') (length (pre @ [d])) prefix =
            Some (take (length prefix) s' = prefix)"
      using Cons.IH [of "pre @ [d]" s'] Cons.prems by simp
    then show ?thesis using Cons by (auto simp: byte_at_def)
  qed
qed simp

lemma take_eq_prefix: "take (length pre) s = pre \<longleftrightarrow> has_prefix pre s"
  by (metis append_eq_conv_conj append_take_drop_id has_prefix_def)

lemma starts_with_has_prefix:
  "NUL \<notin> set prefix \<Longrightarrow> starts_with (pre @ s) (length pre) prefix = Some (has_prefix prefix s)"
  by (simp add: starts_with_append take_eq_prefix)

declare starts_with.simps [simp del]

lemma skip_cv_append:
  "skip_cv_qualifiers (pre @ s) (length pre) =
     Some (length pre + length (takeWhile is_cv_qualifier s))"
proof (induction s arbitrary: pre)
  case Nil
  then show ?case by (simp add: skip_cv_qualifiers.simps is_cv_qualifier_def NUL_def)
next
  case (Cons c s)
  have "skip_cv_qualifiers ((pre @ [c]) @ s) (length (pre @ [c])) =
          Some (length (pre @ [c]) + length (takeWhile is_cv_qualifier s))"
    by (rule Cons)
  then show ?case by (simp add: skip_cv_qualifiers.simps [of "pre @ c # s"] byte_at_hd)
qed

text \<open>The same steps on the rest of the string instead of a position in it.\<close>

definition after_char :: "(char \<Rightarrow> bool) \<Rightarrow> string \<Rightarrow> string" where
  "after_char test s = (case s of [] \<Rightarrow> [] | c # r \<Rightarrow> if test c then r else s)"

lemma after_char_split: "\<exists>m. s = m @ after_char t s \<and> (m = [] \<or> (\<exists>c. m = [c] \<and> t c))"
  by (cases s) (auto simp: after_char_def)

definition after_nested :: "string \<Rightarrow> string" where
  "after_nested s =
     (case s of [] \<Rightarrow> []
      | c # r \<Rightarrow> if c = CHR ''N'' then after_char is_ref_qualifier (dropWhile is_cv_qualifier r)
                 else s)"

lemma skip_char_append:
  "\<not> test NUL \<Longrightarrow>
   \<exists>mid. skip_char (pre @ s) test (length pre) = Some (length (pre @ mid)) \<and>
         s = mid @ after_char test s"
  by (cases s) (auto simp: skip_char_def after_char_def byte_at_hd NUL_def
      intro: exI [of _ "[]"] exI [of _ "[_]"])

lemma skip_nested_append:
  "\<exists>mid. skip_nested_name (pre @ s) (length pre) = Some (length (pre @ mid)) \<and>
         s = mid @ after_nested s"
proof (cases s)
  case Nil
  then show ?thesis by (simp add: skip_nested_name_def after_nested_def byte_at_hd NUL_def)
next
  case (Cons c r)
  show ?thesis
  proof (cases "c = CHR ''N''")
    case False
    with Cons show ?thesis
      by (intro exI [of _ "[]"]) (simp add: skip_nested_name_def after_nested_def byte_at_hd)
  next
    case True
    let ?cv = "takeWhile is_cv_qualifier r" and ?rest = "dropWhile is_cv_qualifier r"
    let ?pre = "pre @ c # ?cv"
    have s: "pre @ s = ?pre @ ?rest" using Cons by simp
    have cv: "skip_cv_qualifiers (pre @ s) (Suc (length pre)) = Some (length ?pre)"
      using skip_cv_append [of "pre @ [c]" r] Cons by simp
    obtain mid where mid: "skip_char (?pre @ ?rest) is_ref_qualifier (length ?pre) =
        Some (length (?pre @ mid))" "?rest = mid @ after_char is_ref_qualifier ?rest"
      using skip_char_append [of is_ref_qualifier ?pre ?rest]
      by (auto simp: is_ref_qualifier_def NUL_def)
    have "skip_nested_name (pre @ s) (length pre) =
            skip_char (pre @ s) is_ref_qualifier (length ?pre)"
      using True Cons cv by (simp add: skip_nested_name_def byte_at_hd)
    with mid(1) s have "skip_nested_name (pre @ s) (length pre) =
            Some (length (pre @ c # ?cv @ mid))" by simp
    moreover have "s = (c # ?cv @ mid) @ after_nested s"
      using Cons True mid(2) by (simp add: after_nested_def flip: append_assoc)
        (metis append_assoc takeWhile_dropWhile_id)
    ultimately show ?thesis by blast
  qed
qed

lemma std_component_append:
  "std_component_at (pre @ s) (length pre) = Some (\<exists>p \<in> set std_prefixes. has_prefix p s)"
proof -
  have pre: "starts_with (pre @ s) (length pre) p = Some (has_prefix p s)" if "NUL \<notin> set p" for p
    using that by (rule starts_with_has_prefix)
  define c0 where "c0 = (case s of [] \<Rightarrow> NUL | c # _ \<Rightarrow> c)"
  define c1 where "c1 = (case tl s of [] \<Rightarrow> NUL | c # _ \<Rightarrow> c)"
  have b0: "byte_at s 0 = Some c0"
    by (simp add: byte_at_hd c0_def)
  have b1: "byte_at (pre @ s) (Suc (length pre)) = Some c1" if "c0 = CHR ''S''"
  proof -
    from that have "s \<noteq> []" by (auto simp: c0_def NUL_def)
    then show ?thesis using byte_at_append [of "pre @ [hd s]" "tl s"] by (simp add: byte_at_hd c1_def)
  qed
  have n: "NUL \<notin> set ''9__gnu_cxx''" "NUL \<notin> set ''10__cxxabiv1''" "NUL \<notin> set ''11__gnu_debug''"
    by (simp_all add: NUL_def)
  have "std_component_at (pre @ s) (length pre) =
      Some (c0 = CHR ''S'' \<and> is_std_substitution c1 \<or> has_prefix ''9__gnu_cxx'' s \<or>
            has_prefix ''10__cxxabiv1'' s \<or> has_prefix ''11__gnu_debug'' s)"
    by (cases "c0 = CHR ''S''") (simp_all add: std_component_at_def b0 b1 pre [OF n(1)] pre [OF n(2)] pre [OF n(3)])
  moreover have "c0 = CHR ''S'' \<and> is_std_substitution c1 \<longleftrightarrow>
      (\<exists>c r. s = CHR ''S'' # c # r \<and> is_std_substitution c)"
    by (cases s; cases "tl s") (auto simp: c0_def c1_def NUL_def is_std_substitution_def)
  moreover have "(\<exists>c r. s = CHR ''S'' # c # r \<and> is_std_substitution c) \<longleftrightarrow>
      (\<exists>p \<in> {''St'', ''Sa'', ''Sb'', ''Ss'', ''Si'', ''So'', ''Sd''}. has_prefix p s)"
    by (auto simp: has_prefix_def is_std_substitution_def)
  ultimately show ?thesis by (auto simp: std_prefixes_def)
qed

definition after_Z :: "string \<Rightarrow> string" where
  "after_Z s = after_nested (after_char (\<lambda>c. c = CHR ''Z'') s)"

lemma is_std_library_symbol_eq:
  "is_std_library_symbol s =
     Some (has_prefix ''__cxa_'' s \<or>
           (\<exists>r. s = ''_Z'' @ r \<and> (\<exists>p \<in> set std_prefixes. has_prefix p (after_Z r))))"
proof -
  have "NUL \<notin> set ''__cxa_''" by (simp add: NUL_def)
  from starts_with_has_prefix [OF this, of "[]" s]
  have cxa: "starts_with s 0 ''__cxa_'' = Some (has_prefix ''__cxa_'' s)"
    by (simp only: append_Nil list.size(3))
  show ?thesis
  proof (cases "\<exists>r. s = ''_Z'' @ r")
    case True
    then obtain r where r: "s = ''_Z'' @ r" by blast
    then have no: "\<not> has_prefix ''__cxa_'' s" by (simp add: has_prefix_def)
    obtain z where z: "skip_char (''_Z'' @ r) (\<lambda>c. c = CHR ''Z'') 2 = Some (length (''_Z'' @ z))"
        "r = z @ after_char (\<lambda>c. c = CHR ''Z'') r"
      using skip_char_append [of "\<lambda>c. c = CHR ''Z''" "''_Z''" r]
      by (auto simp: NUL_def numeral_2_eq_2)
    let ?r = "after_char (\<lambda>c. c = CHR ''Z'') r"
    obtain n where n: "skip_nested_name ((''_Z'' @ z) @ ?r) (length (''_Z'' @ z)) =
        Some (length ((''_Z'' @ z) @ n))" "?r = n @ after_nested ?r"
      using skip_nested_append [of "''_Z'' @ z" ?r] by blast
    have whole: "s = (''_Z'' @ z) @ ?r" "s = (''_Z'' @ z @ n) @ after_nested ?r"
      using r z(2) n(2) by auto
    have "is_std_library_symbol s = std_component_at s (length (''_Z'' @ z @ n))"
      using cxa no r z(1) n(1) whole(1)
      by (simp add: is_std_library_symbol_def byte_at_def)
    then have "is_std_library_symbol s =
        Some (\<exists>p \<in> set std_prefixes. has_prefix p (after_Z r))"
      using std_component_append [of "''_Z'' @ z @ n" "after_nested ?r"] whole(2)
      by (simp add: after_Z_def)
    with r no show ?thesis by simp
  next
    case False
    then have "\<not> has_prefix ''__cxa_'' s \<Longrightarrow> is_std_library_symbol s = Some False"
      using cxa
      by (cases s; cases "tl s")
        (auto simp: is_std_library_symbol_def byte_at_def NUL_def)
    with False cxa show ?thesis
      by (cases "has_prefix ''__cxa_'' s") (auto simp: is_std_library_symbol_def)
  qed
qed

lemma std_prefix_hd:
  "p \<in> set std_prefixes \<Longrightarrow> has_prefix p s \<Longrightarrow>
   \<exists>c r. s = c # r \<and> c \<in> {CHR ''S'', CHR ''9'', CHR ''1''}"
  by (auto simp: std_prefixes_def has_prefix_def)

lemma ref_not_cv: "is_ref_qualifier c \<Longrightarrow> \<not> is_cv_qualifier c"
  by (auto simp: is_cv_qualifier_def is_ref_qualifier_def)

lemma nested_opening_split:
  assumes "p \<in> set std_prefixes"
  shows "has_prefix p (after_nested s) \<longleftrightarrow> (\<exists>n rest. s = n @ p @ rest \<and> nested_opening n)"
proof
  assume l: "has_prefix p (after_nested s)"
  then obtain rest where rest: "after_nested s = p @ rest" by (auto simp: has_prefix_def)
  show "\<exists>n rest. s = n @ p @ rest \<and> nested_opening n"
  proof (cases "\<exists>r. s = CHR ''N'' # r")
    case False
    then have "after_nested s = s" by (auto simp: after_nested_def split: list.splits)
    with rest have "s = [] @ p @ rest \<and> nested_opening []" by (simp add: nested_opening_def)
    then show ?thesis by blast
  next
    case True
    then obtain r where r: "s = CHR ''N'' # r" by blast
    let ?cv = "takeWhile is_cv_qualifier r"
    have "after_nested s = after_char is_ref_qualifier (dropWhile is_cv_qualifier r)"
      using r by (simp add: after_nested_def)
    then obtain ref where ref: "dropWhile is_cv_qualifier r = ref @ after_nested s"
        "ref = [] \<or> (\<exists>c. ref = [c] \<and> is_ref_qualifier c)"
      using after_char_split [of "dropWhile is_cv_qualifier r" is_ref_qualifier] by auto
    have "r = ?cv @ ref @ p @ rest"
      using ref(1) rest by (metis takeWhile_dropWhile_id)
    moreover have "\<forall>c \<in> set ?cv. is_cv_qualifier c" by (auto dest: set_takeWhileD)
    ultimately show ?thesis
      using r ref(2) unfolding nested_opening_def
      by (intro exI [of _ "''N'' @ ?cv @ ref"] exI [of _ rest]) auto
  qed
next
  assume "\<exists>n rest. s = n @ p @ rest \<and> nested_opening n"
  then obtain n rest where s: "s = n @ p @ rest" and n: "nested_opening n" by blast
  obtain c t where c: "p @ rest = c # t" "c \<in> {CHR ''S'', CHR ''9'', CHR ''1''}"
    using std_prefix_hd [OF assms, of "p @ rest"] by (auto simp: has_prefix_def)
  have notq: "\<not> is_cv_qualifier c" "\<not> is_ref_qualifier c"
    using c(2) by (auto simp: is_cv_qualifier_def is_ref_qualifier_def)
  have "after_nested s = p @ rest"
  proof (cases "n = []")
    case True
    then show ?thesis using s c by (auto simp: after_nested_def)
  next
    case False
    then obtain cv ref where nn: "n = ''N'' @ cv @ ref" "\<forall>c \<in> set cv. is_cv_qualifier c"
        "ref = [] \<or> (\<exists>c. ref = [c] \<and> is_ref_qualifier c)"
      using n by (auto simp: nested_opening_def)
    have "dropWhile is_cv_qualifier (cv @ ref @ c # t) = dropWhile is_cv_qualifier (ref @ c # t)"
      using nn(2) by (simp add: dropWhile_append2)
    also have "\<dots> = ref @ c # t"
      using nn(3) notq ref_not_cv by auto
    finally have "dropWhile is_cv_qualifier (cv @ ref @ c # t) = ref @ c # t" .
    then show ?thesis
      using s c(1) nn(1,3) notq by (auto simp: after_nested_def after_char_def)
  qed
  then show "has_prefix p (after_nested s)" by (auto simp: has_prefix_def)
qed

section \<open>Properties\<close>

text \<open>
  C37. The filter reads no byte past the terminating NUL of any name, and accepts exactly the
  \<open>__cxa_\<close> functions and the mangled names whose first component, after an optional enclosing
  function and optional cv- and ref-qualifiers of a nested name, is one of the standard ones.
\<close>

theorem std_filter_correct: "is_std_library_symbol s = Some (std_symbol s)"
proof -
  have "(\<exists>p \<in> set std_prefixes. has_prefix p (after_Z r)) \<longleftrightarrow>
        (\<exists>z n pre rest. r = z @ n @ pre @ rest \<and> (z = [] \<or> z = ''Z'') \<and> nested_opening n \<and>
           pre \<in> set std_prefixes)" (is "?L \<longleftrightarrow> ?R") for r
  proof
    have "after_char (\<lambda>c. c = CHR ''Z'') r = r \<or> r = ''Z'' @ after_char (\<lambda>c. c = CHR ''Z'') r"
      by (auto simp: after_char_def split: list.splits)
    then show "?L \<Longrightarrow> ?R"
      unfolding after_Z_def by (metis append_Nil nested_opening_split)
  next
    assume ?R
    then obtain z n pre rest where r: "r = z @ n @ pre @ rest" "z = [] \<or> z = ''Z''"
        "nested_opening n" "pre \<in> set std_prefixes" by blast
    have "\<exists>c t. n @ pre @ rest = c # t \<and> c \<noteq> CHR ''Z''"
      using r(3,4) by (auto simp: nested_opening_def std_prefixes_def)
    then have "after_char (\<lambda>c. c = CHR ''Z'') r = n @ pre @ rest"
      using r(1,2) by (auto simp: after_char_def)
    with r(3,4) show ?L
      unfolding after_Z_def by (metis nested_opening_split)
  qed
  then have "(\<exists>r. s = ''_Z'' @ r \<and> (\<exists>p \<in> set std_prefixes. has_prefix p (after_Z r))) \<longleftrightarrow>
      (\<exists>z n pre rest. s = ''_Z'' @ z @ n @ pre @ rest \<and> (z = [] \<or> z = ''Z'') \<and>
         nested_opening n \<and> pre \<in> set std_prefixes)"
    by (simp only:) blast
  then show ?thesis
    by (simp only: is_std_library_symbol_eq std_symbol_def)
qed

end
