(* ===== verification/SymbolLookup.thy ===== *)
theory SymbolLookup
  imports ObjectFiles BaseName StdSymbolFilter
begin

text \<open>
  What the resolver makes of libbacktrace's answers (\<open>src/callStack.cpp\<close>): the collectors behind the
  callbacks, \<open>look_up\<close>, the choice of a function's name, the location of a call site with its
  fallbacks, the location of an exception event's site, and the inline chain at an address. Each
  operation takes the files registered so far and returns them with what it registered.
\<close>

section \<open>Names\<close>

definition MANGLED_NAME_PREFIX :: string where
  "MANGLED_NAME_PREFIX = ''_Z''"

definition CLONE_SUFFIX_SEPARATOR :: char where
  "CLONE_SUFFIX_SEPARATOR = CHR ''.''"

definition NO_OBJECT_FOR_CALLEE :: string where
  "NO_OBJECT_FOR_CALLEE = ''<address to object not found>''"

definition NO_OBJECT_FOR_CALLER :: string where
  "NO_OBJECT_FOR_CALLER = ''<caller address to object not found>''"

definition UNREADABLE_CALLEE_OBJECT :: string where
  "UNREADABLE_CALLEE_OBJECT = ''<could not open object file>''"

definition UNREADABLE_CALLER_OBJECT :: string where
  "UNREADABLE_CALLER_OBJECT = ''<could not open caller object file>''"

definition UNNAMED_FUNCTION :: string where
  "UNNAMED_FUNCTION = ''<unknown function>''"

definition demangle_cxa :: "world \<Rightarrow> string \<Rightarrow> string" where
  "demangle_cxa w mangled =
     (let (status, realname) = cxa_demangle w mangled
      in if status \<noteq> 0 then mangled
         else case realname of Some name \<Rightarrow> name | None \<Rightarrow> [])"

section \<open>Collecting libbacktrace's answers\<close>

record dwarf_entry =
  de_function :: string
  de_file :: string
  de_line :: u32

record pcinfo_collector =
  pi_entries :: "dwarf_entry list"
  pi_failed :: bool

definition text_or_empty :: "string option \<Rightarrow> string" where
  "text_or_empty p = (case p of Some s \<Rightarrow> s | None \<Rightarrow> [])"

text \<open>The collector after one callback, and whether the walk stops.\<close>

definition collect_pcinfo :: "pcinfo_collector \<Rightarrow> pc_callback \<Rightarrow> pcinfo_collector \<times> bool" where
  "collect_pcinfo out c =
     (if pc_oom c then (out\<lparr>pi_failed := True\<rparr>, True)
      else (out\<lparr>pi_entries := pi_entries out @
                  [\<lparr>de_function = text_or_empty (pc_function c), de_file = text_or_empty (pc_file c),
                    de_line = (if pc_line c > 0 then of_int (pc_line c) else 0)\<rparr>]\<rparr>, False))"

fun run_pcinfo :: "pcinfo_collector \<Rightarrow> pc_callback list \<Rightarrow> pcinfo_collector" where
  "run_pcinfo out [] = out"
| "run_pcinfo out (c # cs) =
     (let (out', stop) = collect_pcinfo out c in if stop then out' else run_pcinfo out' cs)"

record syminfo_collector =
  si_name :: string
  si_value :: addr
  si_failed :: bool

definition collect_syminfo :: "syminfo_collector \<Rightarrow> sym_callback \<Rightarrow> syminfo_collector" where
  "collect_syminfo out c =
     (case sym_name c of
        None \<Rightarrow> out
      | Some name \<Rightarrow> if sym_oom c then out\<lparr>si_failed := True\<rparr>
                     else out\<lparr>si_name := name, si_value := sym_value c\<rparr>)"

section \<open>Lookups\<close>

record lookup_answer =
  entries :: "dwarf_entry list"
  symbol :: string
  symbol_value :: addr

definition empty_entry :: "dwarf_entry \<Rightarrow> bool" where
  "empty_entry e \<longleftrightarrow> de_function e = [] \<and> de_file e = [] \<and> de_line e = 0"

definition dwarf_entries :: "world \<Rightarrow> object_file \<Rightarrow> addr \<Rightarrow> dwarf_entry list" where
  "dwarf_entries w object address =
     (if has_dwarf object
      then let pcinfo = run_pcinfo \<lparr>pi_entries = [], pi_failed = False\<rparr>
                          (backtrace_pcinfo w (of_state object) address);
               es = (if \<not> pi_failed pcinfo then pi_entries pcinfo else [])
           in if length es = 1 \<and> empty_entry (hd es) then [] else es
      else [])"

definition look_up :: "world \<Rightarrow> object_file \<Rightarrow> addr \<Rightarrow> lookup_answer" where
  "look_up w object address =
     (let answer = \<lparr>entries = dwarf_entries w object address, symbol = [], symbol_value = 0\<rparr>
      in if has_symtab object
         then let syminfo = foldl collect_syminfo \<lparr>si_name = [], si_value = 0, si_failed = False\<rparr>
                              (backtrace_syminfo w (of_state object) address)
              in if \<not> si_failed syminfo
                 then answer\<lparr>symbol := si_name syminfo, symbol_value := si_value syminfo\<rparr>
                 else answer
         else answer)"

datatype name_of = innermost_function | outermost_function

definition dwarf_name :: "lookup_answer \<Rightarrow> name_of \<Rightarrow> string" where
  "dwarf_name answer name_of =
     (if entries answer = [] then []
      else de_function (if name_of = outermost_function then last (entries answer)
                        else hd (entries answer)))"

definition is_mangled :: "string \<Rightarrow> bool" where
  "is_mangled name \<longleftrightarrow> name \<noteq> [] \<and> take (length MANGLED_NAME_PREFIX) name = MANGLED_NAME_PREFIX"

definition function_name_of :: "lookup_answer \<Rightarrow> name_of \<Rightarrow> string" where
  "function_name_of answer name_of =
     (let dwarf = dwarf_name answer name_of
      in if is_mangled dwarf then dwarf
         else if symbol answer = [] then dwarf
         else if dwarf \<noteq> [] \<and> take (length dwarf) (symbol answer) = dwarf \<and>
                 (length (symbol answer) = length dwarf \<or>
                  symbol answer ! length dwarf = CLONE_SUFFIX_SEPARATOR)
         then dwarf
         else symbol answer)"

definition innermost_base_name :: "world \<Rightarrow> lookup_answer \<Rightarrow> string" where
  "innermost_base_name w answer =
     (let dwarf = (if entries answer = [] then [] else de_function (hd (entries answer)));
          name = (if dwarf = [] then function_name_of answer innermost_function else dwarf)
      in if name = [] then [] else function_base_name (demangle_cxa w (c_str name)))"

text \<open>\<open>resolve_function_name\<close>: None is \<open>std::nullopt\<close>, a callee that is not logged.\<close>

definition is_std :: "string \<Rightarrow> bool" where
  "is_std name \<longleftrightarrow> is_std_library_symbol name = Some True"

definition name_in_object :: "world \<Rightarrow> dl_info \<Rightarrow> object_file \<Rightarrow> addr \<Rightarrow> name_of \<Rightarrow> string option" where
  "name_in_object w info object address name_of =
     (let name = function_name_of (look_up w object address) name_of
      in if name = [] then map_option (demangle_cxa w) (dli_sname info)
         else if on_clang w \<and> is_std (c_str name) then None
         else let demangled = demangle_cxa w (c_str name)
              in if demangled = [] then None else Some demangled)"

definition resolve_function_name ::
    "world \<Rightarrow> files \<Rightarrow> addr \<Rightarrow> address_info \<Rightarrow> name_of \<Rightarrow> string option \<times> files" where
  "resolve_function_name w fs address address_info name_of =
     (if \<not> ai_valid address_info then (Some NO_OBJECT_FOR_CALLEE, fs)
      else let info = ai_info address_info
           in if on_clang w \<and> (case dli_sname info of Some n \<Rightarrow> is_std n | None \<Rightarrow> False) then (None, fs)
              else case ensure_object_loaded w fs info (load_bias address_info) of
                     (None, fs') \<Rightarrow> (Some UNREADABLE_CALLEE_OBJECT, fs')
                   | (Some object, fs') \<Rightarrow> (name_in_object w info object address name_of, fs'))"

section \<open>Locations\<close>

record cached_location =
  loc_file :: string
  loc_line :: "u32 option"
  loc_function_base :: string

definition positioned :: "dwarf_entry \<Rightarrow> bool" where
  "positioned e \<longleftrightarrow> de_file e \<noteq> [] \<and> de_line e \<noteq> 0"

text \<open>The position or the text printed in its place, the innermost function's base name apart.\<close>

definition location_in_object :: "world \<Rightarrow> dl_info \<Rightarrow> lookup_answer \<Rightarrow> string \<times> u32 option" where
  "location_in_object w info answer =
     (if entries answer \<noteq> [] \<and> positioned (hd (entries answer))
      then (de_file (hd (entries answer)), Some (de_line (hd (entries answer))))
      else let function = function_name_of answer innermost_function
           in if function \<noteq> [] then (demangle_cxa w (c_str function), None)
              else case dli_sname info of
                     Some sname \<Rightarrow> (demangle_cxa w sname, None)
                   | None \<Rightarrow> (UNNAMED_FUNCTION, None))"

definition resolve_filename_and_line ::
    "world \<Rightarrow> files \<Rightarrow> addr \<Rightarrow> address_info \<Rightarrow> cached_location \<times> files" where
  "resolve_filename_and_line w fs address address_info =
     (if \<not> ai_valid address_info
      then (\<lparr>loc_file = NO_OBJECT_FOR_CALLER, loc_line = None, loc_function_base = []\<rparr>, fs)
      else let info = ai_info address_info;
               sbase = (case dli_sname info of
                          Some sname \<Rightarrow> function_base_name (demangle_cxa w sname)
                        | None \<Rightarrow> [])
           in case ensure_object_loaded w fs info (load_bias address_info) of
                (None, fs') \<Rightarrow>
                  (\<lparr>loc_file = UNREADABLE_CALLER_OBJECT, loc_line = None,
                    loc_function_base = sbase\<rparr>, fs')
              | (Some object, fs') \<Rightarrow>
                  let answer = look_up w object address;
                      base = innermost_base_name w answer;
                      (file, line) = location_in_object w info answer
                  in (\<lparr>loc_file = file, loc_line = line,
                       loc_function_base = (if base \<noteq> [] then base else sbase)\<rparr>, fs'))"

section \<open>Sites of exception events\<close>

record line_row =
  row_file :: string
  row_line :: u32

lemma line_row_eta [simp]: "\<lparr>row_file = row_file r, row_line = row_line r\<rparr> = r"
  by simp

definition same_row :: "line_row \<Rightarrow> line_row \<Rightarrow> bool" where
  "same_row row other \<longleftrightarrow>
     row_line row \<noteq> 0 \<and> row_line row = row_line other \<and> row_file row \<noteq> [] \<and>
     row_file row = row_file other"

definition line_row_at :: "lookup_answer \<Rightarrow> line_row" where
  "line_row_at answer =
     (if entries answer \<noteq> []
      then \<lparr>row_file = de_file (hd (entries answer)), row_line = de_line (hd (entries answer))\<rparr>
      else \<lparr>row_file = [], row_line = 0\<rparr>)"

definition outermost_line_row_at :: "lookup_answer \<Rightarrow> line_row" where
  "outermost_line_row_at answer =
     (let row = line_row_at answer
      in if row_line row = 0 then row
         else foldl (\<lambda>row e. if positioned e
                             then \<lparr>row_file = de_file e, row_line = de_line e\<rparr> else row)
                row (entries answer))"

definition corrected_location ::
    "world \<Rightarrow> object_file \<Rightarrow> addr \<Rightarrow> lookup_answer \<Rightarrow> cached_location \<Rightarrow> cached_location" where
  "corrected_location w object address at_site_lookup location =
     (let symbol_start = symbol_value at_site_lookup;
          at_site = line_row_at at_site_lookup
      in if \<not> same_row at_site (line_row_at (look_up w object symbol_start))
            \<or> \<not> same_row at_site (line_row_at (look_up w object (symbol_start - 1)))
         then location
         else let after_call = outermost_line_row_at (look_up w object (address + 1))
              in if row_line after_call = 0 \<or> same_row after_call at_site
                 then location\<lparr>loc_line := None\<rparr>
                 else location\<lparr>loc_file := row_file after_call,
                               loc_line := Some (row_line after_call)\<rparr>)"

definition resolve_event_site_location ::
    "world \<Rightarrow> files \<Rightarrow> addr \<Rightarrow> address_info \<Rightarrow> cached_location \<times> files" where
  "resolve_event_site_location w fs address address_info =
     (let (location, fs') = resolve_filename_and_line w fs address address_info
      in if loc_line location = None \<or> \<not> ai_valid address_info then (location, fs')
         else case ensure_object_loaded w fs' (ai_info address_info) (load_bias address_info) of
                (None, fs'') \<Rightarrow> (location, fs'')
              | (Some object, fs'') \<Rightarrow>
                  if \<not> has_symtab object then (location, fs'')
                  else let at_site_lookup = look_up w object address
                       in if symbol at_site_lookup = [] \<or> symbol_value at_site_lookup = 0
                          then (location, fs'')
                          else (corrected_location w object address at_site_lookup location, fs''))"

section \<open>Inline chains\<close>

definition chain_of :: "world \<Rightarrow> lookup_answer \<Rightarrow> string list" where
  "chain_of w answer =
     (if entries answer = [] \<or> \<not> positioned (hd (entries answer)) then []
      else let innermost = innermost_base_name w answer
           in if innermost = [] then []
              else innermost # map (\<lambda>e. function_base_name (demangle_cxa w (c_str (de_function e))))
                     (filter (\<lambda>e. de_function e \<noteq> []) (tl (entries answer))))"

definition read_inline_chain ::
    "world \<Rightarrow> files \<Rightarrow> addr \<Rightarrow> address_info \<Rightarrow> string list \<times> files" where
  "read_inline_chain w fs address address_info =
     (if \<not> ai_valid address_info then ([], fs)
      else case ensure_object_loaded w fs (ai_info address_info) (load_bias address_info) of
             (None, fs') \<Rightarrow> ([], fs')
           | (Some object, fs') \<Rightarrow> (chain_of w (look_up w object address), fs'))"

section \<open>The files only grow\<close>

lemma ensure_object_loaded_snd:
  "ensure_object_loaded w fs info bias = (r, fs') \<Longrightarrow> files_grow fs fs'"
  by (metis ensure_object_loaded_grow snd_conv)

lemma resolve_function_name_grow: "files_grow fs (snd (resolve_function_name w fs a i n))"
  by (auto simp: resolve_function_name_def Let_def split: prod.split option.split
      intro: ensure_object_loaded_snd)

lemma resolve_filename_and_line_grow: "files_grow fs (snd (resolve_filename_and_line w fs a i))"
  by (auto simp: resolve_filename_and_line_def Let_def case_prod_beta split: option.split
      intro: ensure_object_loaded_grow)

lemma resolve_event_site_location_grow:
  "files_grow fs (snd (resolve_event_site_location w fs a i))"
proof -
  let ?fs = "snd (resolve_filename_and_line w fs a i)"
  have "files_grow ?fs (snd (ensure_object_loaded w ?fs (ai_info i) (load_bias i)))"
    by (rule ensure_object_loaded_grow)
  with resolve_filename_and_line_grow [of fs w a i] show ?thesis
    by (auto simp: resolve_event_site_location_def Let_def case_prod_beta split: option.split
        intro: files_grow_trans)
qed

lemma read_inline_chain_grow: "files_grow fs (snd (read_inline_chain w fs a i))"
  by (auto simp: read_inline_chain_def case_prod_beta split: option.split
      intro: ensure_object_loaded_grow)

section \<open>Properties\<close>

text \<open>
  C30. How a function is named: by DWARF's linkage name when it has one, by DWARF's name when the
  symbol table has none, repeats it or only adds a clone suffix to it, and by the symbol table
  otherwise. There is no name exactly when neither source has one.
\<close>

theorem function_name_choice:
  "let dwarf = dwarf_name answer n; name = function_name_of answer n in
     name \<in> {dwarf, symbol answer} \<and>
     (name = [] \<longleftrightarrow> dwarf = [] \<and> symbol answer = []) \<and>
     (name \<noteq> dwarf \<longleftrightarrow>
        \<not> is_mangled dwarf \<and> symbol answer \<noteq> [] \<and> symbol answer \<noteq> dwarf \<and>
        \<not> (dwarf \<noteq> [] \<and> (\<exists>suffix. symbol answer = dwarf @ CLONE_SUFFIX_SEPARATOR # suffix)))"
proof -
  let ?d = "dwarf_name answer n" and ?s = "symbol answer"
  have prefix: "take (length ?d) ?s = ?d \<and> (length ?s = length ?d \<or> ?s ! length ?d = CLONE_SUFFIX_SEPARATOR)
      \<longleftrightarrow> ?s = ?d \<or> (\<exists>suffix. ?s = ?d @ CLONE_SUFFIX_SEPARATOR # suffix)"
    if "?s \<noteq> []"
  proof
    assume l: "take (length ?d) ?s = ?d \<and>
      (length ?s = length ?d \<or> ?s ! length ?d = CLONE_SUFFIX_SEPARATOR)"
    then have s: "?s = ?d @ drop (length ?d) ?s" by (metis append_take_drop_id)
    show "?s = ?d \<or> (\<exists>suffix. ?s = ?d @ CLONE_SUFFIX_SEPARATOR # suffix)"
    proof (cases "drop (length ?d) ?s")
      case Nil
      then show ?thesis using s by simp
    next
      case (Cons c r)
      then have "?s ! length ?d = c" using s by (metis nth_append_length)
      moreover have "length ?s \<noteq> length ?d" using Cons by auto
      ultimately show ?thesis using s Cons l by metis
    qed
  next
    assume "?s = ?d \<or> (\<exists>suffix. ?s = ?d @ CLONE_SUFFIX_SEPARATOR # suffix)"
    then show "take (length ?d) ?s = ?d \<and>
      (length ?s = length ?d \<or> ?s ! length ?d = CLONE_SUFFIX_SEPARATOR)" by auto
  qed
  have "is_mangled ?d \<Longrightarrow> ?d \<noteq> []" by (auto simp: is_mangled_def)
  then show ?thesis
    using prefix by (auto simp: function_name_of_def Let_def)
qed

definition leaked_row :: "world \<Rightarrow> object_file \<Rightarrow> addr \<Rightarrow> bool" where
  "leaked_row w object address \<longleftrightarrow>
     (let at_site = line_row_at (look_up w object address);
          start = symbol_value (look_up w object address)
      in same_row at_site (line_row_at (look_up w object start)) \<and>
         same_row at_site (line_row_at (look_up w object (start - 1))))"

text \<open>
  C31. The site of an exception event is not read from a line row that leaked into its symbol from the
  code before it: when the row at the site already covers the bytes around the symbol's start,
  another row is reported, or no line; otherwise the site is reported like any call site.
\<close>

theorem event_site_not_leaked:
  assumes "ai_valid i"
    and "ensure_object_loaded w fs (ai_info i) (load_bias i) = (Some object, fs')"
    and "has_symtab object" "symbol (look_up w object a) \<noteq> []"
    and "symbol_value (look_up w object a) \<noteq> 0"
  shows "let site = fst (resolve_event_site_location w fs a i) in
         if leaked_row w object a
         then \<forall>line. loc_line site = Some line \<longrightarrow>
                \<not> same_row \<lparr>row_file = loc_file site, row_line = line\<rparr>
                    (line_row_at (look_up w object a))
         else site = fst (resolve_filename_and_line w fs a i)"
proof -
  let ?plain = "fst (resolve_filename_and_line w fs a i)"
  let ?site = "fst (resolve_event_site_location w fs a i)"
  let ?answer = "look_up w object a"
  have "objects fs' (dli_fbase (ai_info i)) = Some object"
    using ensure_object_loaded_decides [of w fs "ai_info i" "load_bias i"] assms(2) by simp
  then have again: "ensure_object_loaded w fs' (ai_info i) (load_bias i) = (Some object, fs')"
    using ensure_object_loaded_decided [of fs' "ai_info i" w "load_bias i"] by simp
  have fs': "snd (resolve_filename_and_line w fs a i) = fs'"
    using assms(1,2) by (simp add: resolve_filename_and_line_def Let_def case_prod_beta)
  have site: "?site = (if loc_line ?plain = None then ?plain
                       else corrected_location w object a ?answer ?plain)"
    using assms again fs' by (simp add: resolve_event_site_location_def case_prod_beta Let_def)
  have line: "loc_line ?plain = snd (location_in_object w (ai_info i) ?answer)"
    using assms(1,2) by (simp add: resolve_filename_and_line_def Let_def case_prod_beta)
  show ?thesis
  proof (cases "leaked_row w object a")
    case False
    then show ?thesis
      using site by (auto simp: leaked_row_def corrected_location_def Let_def)
  next
    case True
    then have "same_row (line_row_at ?answer) (line_row_at (look_up w object (symbol_value ?answer)))"
      by (simp add: leaked_row_def Let_def)
    then have "entries ?answer \<noteq> [] \<and> positioned (hd (entries ?answer))"
      by (auto simp: same_row_def line_row_at_def positioned_def split: if_splits)
    then have "loc_line ?plain \<noteq> None" by (simp add: line location_in_object_def)
    with True site show ?thesis
      by (auto simp: leaked_row_def corrected_location_def Let_def)
  qed
qed

definition landing_pad_world :: world where
  "landing_pad_world = sample_world\<lparr>
     add_file := (\<lambda>_ _. Some (True, True, True)),
     backtrace_pcinfo := (\<lambda>_ a. [\<lparr>pc_file = Some (if a = 101 then ''mine.cpp'' else ''other.cpp''),
        pc_line = 9, pc_function = Some ''handler'', pc_oom = False\<rparr>]),
     backtrace_syminfo := (\<lambda>_ a. [\<lparr>sym_name = Some ''handler.cold'', sym_value = 96, sym_oom = False\<rparr>])\<rparr>"

definition landing_pad_info :: address_info where
  "landing_pad_info =
     \<lparr>ai_info = \<lparr>dli_fname = Some ''./demo'', dli_fbase = 4096, dli_sname = None\<rparr>,
      load_bias = 0, ai_valid = True\<rparr>"

definition landing_pad_object :: object_file where
  "landing_pad_object = \<lparr>of_state = 0, has_symtab = True, has_dwarf = True, has_own_symtab = True\<rparr>"

theorem event_site_not_leaked_witness:
  "let site = fst (resolve_event_site_location landing_pad_world no_files 100 landing_pad_info) in
   leaked_row landing_pad_world landing_pad_object 100 \<and>
   (\<forall>line. loc_line site = Some line \<longrightarrow>
      \<not> same_row \<lparr>row_file = loc_file site, row_line = line\<rparr>
          (line_row_at (look_up landing_pad_world landing_pad_object 100))) \<and>
   loc_file site = ''mine.cpp''"
proof -
  have leaked: "leaked_row landing_pad_world landing_pad_object 100" by code_simp
  have found: "loc_file (fst (resolve_event_site_location landing_pad_world no_files 100
      landing_pad_info)) = ''mine.cpp''" by code_simp
  have object: "fst (ensure_object_loaded landing_pad_world no_files (ai_info landing_pad_info)
      (load_bias landing_pad_info)) = Some landing_pad_object" by code_simp
  obtain fs' where loaded: "ensure_object_loaded landing_pad_world no_files
      (ai_info landing_pad_info) (load_bias landing_pad_info) = (Some landing_pad_object, fs')"
    using object by (metis prod.collapse)
  have valid: "ai_valid landing_pad_info" by (simp add: landing_pad_info_def)
  have symtab: "has_symtab landing_pad_object" by (simp add: landing_pad_object_def)
  have sym: "symbol (look_up landing_pad_world landing_pad_object 100) \<noteq> []" by code_simp
  have val: "symbol_value (look_up landing_pad_world landing_pad_object 100) \<noteq> 0" by code_simp
  from event_site_not_leaked [OF valid loaded symtab sym val] leaked found show ?thesis
    by (simp add: Let_def)
qed

end
