(* ===== verification/FrontCache.thy ===== *)
theory FrontCache
  imports Prelude
begin

text \<open>
  Direct-mapped caches in front of a shared map. The interface \<open>direct_mapped_cache\<close> states what a
  client of such a cache relies on, and its client, the lookup through the cache, is proved
  correct against it once. \<open>FrontCache\<close> of \<open>include/frontCache.h\<close> is modelled and interpreted here;
  the level cache of \<open>src/trace.cpp\<close> is a second instance (theory LevelRules).
\<close>

section \<open>The interface\<close>

text \<open>
  A cache agrees with the shared map when everything it remembers for a usable key is in the map.
  \<open>lookup_through\<close> is the lookup a client makes: the cache first, then the map, refilling the
  cache on a hit in the map.
\<close>

definition cache_agrees ::
    "('c \<Rightarrow> addr \<Rightarrow> 'v option) \<Rightarrow> (addr \<Rightarrow> bool) \<Rightarrow> 'c \<Rightarrow> (addr \<Rightarrow> 'v option) \<Rightarrow> bool" where
  "cache_agrees get usable c m \<longleftrightarrow> (\<forall>k v. usable k \<longrightarrow> get c k = Some v \<longrightarrow> m k = Some v)"

definition lookup_through ::
    "('c \<Rightarrow> addr \<Rightarrow> 'v option) \<Rightarrow> ('c \<Rightarrow> addr \<Rightarrow> 'v \<Rightarrow> 'c) \<Rightarrow> 'c \<Rightarrow> (addr \<Rightarrow> 'v option) \<Rightarrow> addr
       \<Rightarrow> 'v option \<times> 'c" where
  "lookup_through get put c m k =
     (case get c k of
        Some v \<Rightarrow> (Some v, c)
      | None \<Rightarrow> (case m k of
                   Some v \<Rightarrow> (Some v, put c k v)
                 | None \<Rightarrow> (None, c)))"

locale direct_mapped_cache =
  fixes get :: "'c \<Rightarrow> addr \<Rightarrow> 'v option"
    and put :: "'c \<Rightarrow> addr \<Rightarrow> 'v \<Rightarrow> 'c"
    and valid :: "'c \<Rightarrow> bool"
    and usable :: "addr \<Rightarrow> bool"
    and empty_cache :: "'c"
  assumes find_store_same: "valid c \<Longrightarrow> get (put c k v) k = Some v"
    and find_store_other: "valid c \<Longrightarrow> usable k' \<Longrightarrow> k' \<noteq> k \<Longrightarrow> get (put c k v) k' = Some v' \<Longrightarrow>
      get c k' = Some v'"
    and valid_store: "valid c \<Longrightarrow> valid (put c k v)"
    and valid_empty: "valid empty_cache"
    and find_empty: "usable k \<Longrightarrow> get empty_cache k = None"
begin

lemma agrees_empty: "cache_agrees get usable empty_cache m"
  by (simp add: cache_agrees_def find_empty)

lemma agrees_mono: "cache_agrees get usable c m \<Longrightarrow> m \<subseteq>\<^sub>m m' \<Longrightarrow> cache_agrees get usable c m'"
  unfolding cache_agrees_def map_le_def by (metis domI)

lemma agrees_store:
  "valid c \<Longrightarrow> cache_agrees get usable c m \<Longrightarrow> m k = Some v \<Longrightarrow>
   cache_agrees get usable (put c k v) m"
  unfolding cache_agrees_def by (metis find_store_other find_store_same option.inject)

lemma lookup_through_correct:
  assumes "valid c" "usable k" "cache_agrees get usable c m"
  shows "fst (lookup_through get put c m k) = m k"
    and "valid (snd (lookup_through get put c m k))"
    and "cache_agrees get usable (snd (lookup_through get put c m k)) m"
proof -
  show "fst (lookup_through get put c m k) = m k"
    using assms by (simp add: lookup_through_def cache_agrees_def split: option.split)
  show "valid (snd (lookup_through get put c m k))"
    using assms(1) by (simp add: lookup_through_def valid_store split: option.split)
  show "cache_agrees get usable (snd (lookup_through get put c m k)) m"
    using assms(3) agrees_store [OF assms(1,3)] by (simp add: lookup_through_def split: option.split)
qed

end

section \<open>FrontCache\<close>

text \<open>
  An entry is a key and a pointer into the shared map's node, null until the slot is filled; the
  node is never modified, so the pointer stands for its value. The template parameter \<open>SLOTS\<close> is
  the length of the array, a power of two.
\<close>

record 'v front_entry =
  entry_key :: addr
  entry_value :: "'v option"

type_synonym 'v front_cache = "'v front_entry list"

fun bits_of :: "nat \<Rightarrow> nat" where
  "bits_of power_of_two = (if power_of_two \<le> 1 then 0 else 1 + bits_of (power_of_two div 2))"

declare bits_of.simps [simp del]

definition GOLDEN_RATIO_64 :: u64 where
  "GOLDEN_RATIO_64 = 0x9E3779B97F4A7C15"

definition slot_of :: "nat \<Rightarrow> addr \<Rightarrow> nat" where
  "slot_of SLOTS key =
     (let mixed = key * GOLDEN_RATIO_64 in unat (drop_bit (64 - bits_of SLOTS) mixed))"

definition front_find :: "'v front_cache \<Rightarrow> addr \<Rightarrow> 'v option" where
  "front_find c key =
     (let entry = c ! slot_of (length c) key
      in if entry_key entry = key then entry_value entry else None)"

definition front_store :: "'v front_cache \<Rightarrow> addr \<Rightarrow> 'v \<Rightarrow> 'v front_cache" where
  "front_store c key value =
     c[slot_of (length c) key := \<lparr>entry_key = key, entry_value = Some value\<rparr>]"

text \<open>Thread-local storage starts as zero bytes: every key and every pointer null.\<close>

definition front_zero :: "nat \<Rightarrow> 'v front_cache" where
  "front_zero SLOTS = replicate SLOTS \<lparr>entry_key = 0, entry_value = None\<rparr>"

definition front_valid :: "'v front_cache \<Rightarrow> bool" where
  "front_valid c \<longleftrightarrow> (\<exists>k. 1 \<le> k \<and> k \<le> 64 \<and> length c = 2 ^ k)"

lemma bits_of_power [simp]: "bits_of (2 ^ k) = k"
proof (induction k)
  case 0
  then show ?case by (simp add: bits_of.simps)
next
  case (Suc k)
  have "(1::nat) < 2 ^ Suc k" by (rule one_less_power) auto
  then have "\<not> (2::nat) ^ Suc k \<le> 1" by linarith
  then have "bits_of (2 ^ Suc k) = 1 + bits_of (2 ^ Suc k div 2)"
    by (subst bits_of.simps) (simp only: if_False)
  with Suc show ?case by simp
qed

lemma slot_of_bound:
  assumes "k \<le> 64"
  shows "slot_of (2 ^ k) key < 2 ^ k"
proof -
  have "unat (drop_bit (64 - k) w) < 2 ^ k" for w :: u64
  proof -
    have "unat w < 2 ^ (64 - k) * 2 ^ k"
      using unsigned_less [of w] assms by (simp flip: power_add)
    then have "unat w div 2 ^ (64 - k) < 2 ^ k"
      by (simp add: less_mult_imp_div_less mult.commute)
    moreover have "take_bit 64 (unat w) = unat w"
      using unsigned_less [of w, where 'a = nat] by (simp add: take_bit_nat_eq_self)
    then have "unat (drop_bit (64 - k) w) = unat w div 2 ^ (64 - k)"
      by (simp add: unsigned_drop_bit_eq flip: drop_bit_eq_div)
    ultimately show ?thesis by simp
  qed
  then show ?thesis by (simp add: slot_of_def)
qed

lemma slot_in_range: "front_valid c \<Longrightarrow> slot_of (length c) key < length c"
  by (auto simp: front_valid_def slot_of_bound)

lemma front_valid_store [simp]: "front_valid c \<Longrightarrow> front_valid (front_store c k v)"
  by (simp add: front_valid_def front_store_def)

definition FRONT_CACHE_SLOTS :: nat where
  "FRONT_CACHE_SLOTS = 1024"

lemma front_valid_zero: "front_valid (front_zero FRONT_CACHE_SLOTS)"
  by (auto simp: front_valid_def front_zero_def FRONT_CACHE_SLOTS_def intro!: exI [of _ 10])

interpretation fc: direct_mapped_cache front_find front_store front_valid "\<lambda>_. True"
    "front_zero FRONT_CACHE_SLOTS"
proof
  fix c :: "'a front_cache" and k k' v v'
  assume c: "front_valid c"
  note r = slot_in_range [OF c]
  show "front_find (front_store c k v) k = Some v"
    using r by (simp add: front_find_def front_store_def)
  show "front_valid (front_store c k v)"
    using c by simp
  assume "k' \<noteq> k" "front_find (front_store c k v) k' = Some v'"
  then show "front_find c k' = Some v'"
    using r by (auto simp: front_find_def front_store_def Let_def nth_list_update split: if_splits)
next
  show "front_valid (front_zero FRONT_CACHE_SLOTS)" by (rule front_valid_zero)
  show "front_find (front_zero FRONT_CACHE_SLOTS) k = None" for k
    using slot_in_range [OF front_valid_zero, of k] by (simp add: front_find_def front_zero_def)
qed

section \<open>Properties\<close>

text \<open>
  A front cache is in bounds and answers only for the key asked: the slot lies in the array, the
  value stored last for a key is found, and for any other key a hit is what was found before the
  store (its slot may have been taken, which is a miss).
\<close>

theorem front_cache_store_find:
  assumes "front_valid c"
  shows "slot_of (length c) key < length c \<and>
         front_find (front_store c key value) key = Some value \<and>
         (other \<noteq> key \<longrightarrow>
          front_find (front_store c key value) other \<in> {None, front_find c other})"
proof -
  have "front_find (front_store c key value) other \<in> {None, front_find c other}"
    if "other \<noteq> key"
    using fc.find_store_other [OF assms TrueI that]
    by (cases "front_find (front_store c key value) other") auto
  then show ?thesis
    using slot_in_range [OF assms] fc.find_store_same [OF assms] by blast
qed

theorem front_cache_store_find_witness:
  "front_valid (front_zero FRONT_CACHE_SLOTS :: nat front_cache) \<and>
   slot_of (length (front_zero FRONT_CACHE_SLOTS :: nat front_cache)) 4198400
     < length (front_zero FRONT_CACHE_SLOTS :: nat front_cache) \<and>
   front_find (front_store (front_zero FRONT_CACHE_SLOTS) 4198400 (7::nat)) 4198400 = Some 7"
  using front_valid_zero [where 'a = nat]
    front_cache_store_find [OF front_valid_zero, of 4198400 "7::nat" 0] by blast

fun front_lookups ::
    "'v front_cache \<Rightarrow> ((addr \<Rightarrow> 'v option) \<times> addr) list \<Rightarrow> 'v option list \<times> 'v front_cache" where
  "front_lookups c [] = ([], c)"
| "front_lookups c ((m, k) # rest) =
     (let (r, c') = lookup_through front_find front_store c m k;
          (rs, c'') = front_lookups c' rest
      in (r # rs, c''))"

fun maps_grow :: "(addr \<Rightarrow> 'v option) list \<Rightarrow> bool" where
  "maps_grow [] = True"
| "maps_grow [m] = True"
| "maps_grow (m # m' # ms) = (m \<subseteq>\<^sub>m m' \<and> maps_grow (m' # ms))"

lemma front_lookups_from:
  "front_valid c \<Longrightarrow> maps_grow (map fst qs) \<Longrightarrow>
   (qs \<noteq> [] \<Longrightarrow> cache_agrees front_find (\<lambda>_. True) c (fst (hd qs))) \<Longrightarrow>
   fst (front_lookups c qs) = map (\<lambda>(m, k). m k) qs"
proof (induction qs arbitrary: c)
  case (Cons q qs)
  obtain m k where q [simp]: "q = (m, k)" by force
  let ?l = "lookup_through front_find front_store c m k"
  note l = fc.lookup_through_correct [OF Cons.prems(1) TrueI, of m k]
  have agrees: "cache_agrees front_find (\<lambda>_. True) c m" using Cons.prems(3) by simp
  have "fst (front_lookups (snd ?l) qs) = map (\<lambda>(m, k). m k) qs"
  proof (rule Cons.IH)
    show "front_valid (snd ?l)" by (rule l(2) [OF agrees])
    show "maps_grow (map fst qs)" using Cons.prems(2) by (cases qs) auto
    show "cache_agrees front_find (\<lambda>_. True) (snd ?l) (fst (hd qs))" if "qs \<noteq> []"
      using Cons.prems(2) that fc.agrees_mono [OF l(3) [OF agrees]] by (cases qs) auto
  qed
  then show ?case using l(1) [OF agrees] by (simp add: case_prod_beta Let_def)
qed simp

text \<open>
  Looking addresses up through a thread's front cache is looking them up in the shared map: for
  any sequence of lookups, while other threads only add entries, every answer is the map's and
  nothing the cache remembers ever disagrees with the map.
\<close>

theorem front_lookups_transparent:
  assumes "maps_grow (map fst queries)"
  shows "fst (front_lookups (front_zero FRONT_CACHE_SLOTS) queries) = map (\<lambda>(m, k). m k) queries"
  using assms front_lookups_from [OF front_valid_zero] fc.agrees_empty by blast

theorem front_lookups_transparent_witness:
  "maps_grow (map fst [(Map.empty, 64), ([64 \<mapsto> True], 64), ([64 \<mapsto> True], 64 :: addr)]) \<and>
   fst (front_lookups (front_zero FRONT_CACHE_SLOTS)
         [(Map.empty, 64), ([64 \<mapsto> True], 64), ([64 \<mapsto> True], 64)]) = [None, Some True, Some True]"
proof -
  have h: "maps_grow (map fst [(Map.empty, 64), ([64 \<mapsto> True], 64), ([64 \<mapsto> True], 64 :: addr)])"
    by simp
  show ?thesis using h front_lookups_transparent [OF h] by simp
qed

end
