(* ===== verification/PrettyTime.thy ===== *)
theory PrettyTime
  imports Prelude
begin

text \<open>
  The timestamp of a line (\<open>include/prettyTime.h\<close>): \<open>to_ms\<close>, \<open>pretty_time_into\<close> with its per-thread
  cache of the rendered second, and \<open>pretty_time\<close>. A time point is its count of nanoseconds since
  the epoch (the period of libstdc++'s \<open>system_clock\<close>); what \<open>localtime_r\<close> and \<open>strftime\<close> make of a
  second is the parameter \<open>render\<close>.
\<close>

definition PRETTY_TIME_LENGTH :: nat where
  [width_defs]: "PRETTY_TIME_LENGTH = 23"

definition PRETTY_TIME_BUF_SIZE :: nat where
  [width_defs]: "PRETTY_TIME_BUF_SIZE = 64"

text \<open>Division and remainder of C++ truncate towards zero; so does \<open>duration_cast\<close>.\<close>

definition trunc_div :: "int \<Rightarrow> int \<Rightarrow> int" where
  "trunc_div a b = sgn a * sgn b * (\<bar>a\<bar> div \<bar>b\<bar>)"

definition trunc_rem :: "int \<Rightarrow> int \<Rightarrow> int" where
  "trunc_rem a b = a - trunc_div a b * b"

definition to_ms :: "int \<Rightarrow> int" where
  "to_ms tp = trunc_div tp 1000000"

definition to_time_t :: "int \<Rightarrow> int" where
  "to_time_t tp = trunc_div tp 1000000000"

text \<open>\<open>%03ld\<close>: the sign counts towards the width.\<close>

definition printf_03ld :: "int \<Rightarrow> string" where
  "printf_03ld i =
     (if i < 0 then ''-'' @ pad_left CHR ''0'' 2 (dec (nat (- i)))
      else pad_left CHR ''0'' 3 (dec (nat i)))"

text \<open>The thread's cache. \<open>cached_prefix\<close> holds the first \<open>cached_size\<close> bytes of the array.\<close>

record time_cache =
  cached_second :: int
  cached_size :: nat
  cached_prefix :: string

definition zero_time_cache :: time_cache where
  "zero_time_cache = \<lparr>cached_second = 0, cached_size = 0, cached_prefix = []\<rparr>"

text \<open>\<open>strftime\<close> returns 0 when the text and its NUL do not fit the buffer.\<close>

definition strftime_into :: "nat \<Rightarrow> string \<Rightarrow> string" where
  "strftime_into cap text = (if length text < cap then text else [])"

text \<open>
  The refresh of the cache when the second has changed, and the text rendered from it. \<open>render\<close> is what
  \<open>localtime_r\<close> and \<open>strftime\<close> make of a second, in a time zone that is taken not to change.
\<close>

definition refresh_time_cache :: "(int \<Rightarrow> string) \<Rightarrow> time_cache \<Rightarrow> int \<Rightarrow> time_cache" where
  "refresh_time_cache render cache tp =
     (let current_time = to_time_t tp
      in if current_time \<noteq> cached_second cache \<or> cached_size cache = 0
         then (let prefix = strftime_into PRETTY_TIME_BUF_SIZE (render current_time)
               in \<lparr>cached_second = current_time, cached_size = length prefix,
                   cached_prefix = prefix\<rparr>)
         else cache)"

definition render_timestamp :: "time_cache \<Rightarrow> nat \<Rightarrow> int \<Rightarrow> string" where
  "render_timestamp cache cap tp =
     (let size = (if cached_size cache < cap - 1 then cached_size cache else cap - 1);
          out = take size (cached_prefix cache);
          ms_text = ''.'' @ printf_03ld (trunc_rem (to_ms tp) 1000);
          ms_size = snprintf_ret ms_text
      in if ms_size > 0
         then (let wanted = nat ms_size
               in out @ take (if wanted < cap - size then wanted else cap - size - 1) ms_text)
         else out)"

definition pretty_time_into ::
    "(int \<Rightarrow> string) \<Rightarrow> time_cache \<Rightarrow> nat \<Rightarrow> int \<Rightarrow> string \<times> time_cache" where
  "pretty_time_into render cache cap tp =
     (if cap = 0 then ([], cache)
      else let cache' = refresh_time_cache render cache tp
           in (render_timestamp cache' cap tp, cache'))"

definition pretty_time :: "(int \<Rightarrow> string) \<Rightarrow> time_cache \<Rightarrow> int \<Rightarrow> string \<times> time_cache" where
  "pretty_time render cache tp = pretty_time_into render cache PRETTY_TIME_BUF_SIZE tp"

section \<open>Reference: the same text without a cache\<close>

definition pretty_time_ref :: "(int \<Rightarrow> string) \<Rightarrow> nat \<Rightarrow> int \<Rightarrow> string" where
  "pretty_time_ref render cap tp =
     take (cap - 1)
       (strftime_into PRETTY_TIME_BUF_SIZE (render (to_time_t tp))
          @ ''.'' @ printf_03ld (trunc_rem (to_ms tp) 1000))"

text \<open>
  The cache invariant: a non-empty cache holds what its second renders to.
\<close>

definition time_cache_ok :: "(int \<Rightarrow> string) \<Rightarrow> time_cache \<Rightarrow> bool" where
  "time_cache_ok render c \<longleftrightarrow>
     cached_size c = length (cached_prefix c) \<and>
     (cached_size c = 0 \<or>
      cached_prefix c = strftime_into PRETTY_TIME_BUF_SIZE (render (cached_second c)))"

lemma zero_time_cache_ok [simp]: "time_cache_ok render zero_time_cache"
  by (simp add: time_cache_ok_def zero_time_cache_def)

lemma trunc_rem_bounds: "0 \<le> a \<Longrightarrow> 0 < b \<Longrightarrow> 0 \<le> trunc_rem a b \<and> trunc_rem a b < b"
proof -
  assume a: "0 \<le> a" "0 < b"
  then have "trunc_div a b = a div b" by (cases "a = 0") (simp_all add: trunc_div_def)
  then have "trunc_rem a b = a mod b" by (simp add: trunc_rem_def minus_div_mult_eq_mod)
  with a show ?thesis by simp
qed

lemma abs_trunc_rem_less: "0 < b \<Longrightarrow> \<bar>trunc_rem a b\<bar> < b"
proof (cases "0 \<le> a")
  case True
  then show "0 < b \<Longrightarrow> ?thesis" using trunc_rem_bounds [of a b] by auto
next
  case False
  assume b: "0 < b"
  have "trunc_rem a b = - trunc_rem (- a) b" by (simp add: trunc_rem_def trunc_div_def)
  with False b trunc_rem_bounds [of "- a" b] show ?thesis by auto
qed

lemma length_printf_03ld: "\<bar>i\<bar> < 1000 \<Longrightarrow> 3 \<le> length (printf_03ld i) \<and> length (printf_03ld i) \<le> 4"
proof -
  assume "\<bar>i\<bar> < 1000"
  then have "length (dec (nat i)) \<le> 3" "length (dec (nat (- i))) \<le> 3"
    by (intro length_dec_le; simp)+
  then show ?thesis by (auto simp: printf_03ld_def pad_left_def)
qed

lemma length_printf_03ld_nonneg [len_simps]: "0 \<le> i \<Longrightarrow> i < 1000 \<Longrightarrow> length (printf_03ld i) = 3"
proof -
  assume i: "0 \<le> i" "i < 1000"
  then have "length (dec (nat i)) \<le> 3" by (intro length_dec_le) auto
  with i show ?thesis by (simp add: printf_03ld_def length_pad_left)
qed

lemma refresh_time_cache_ok:
  assumes "time_cache_ok render c"
  shows "time_cache_ok render (refresh_time_cache render c tp)"
    and "cached_prefix (refresh_time_cache render c tp) =
           strftime_into PRETTY_TIME_BUF_SIZE (render (to_time_t tp))"
    and "cached_size (refresh_time_cache render c tp) =
           length (strftime_into PRETTY_TIME_BUF_SIZE (render (to_time_t tp)))"
  using assms by (auto simp: time_cache_ok_def refresh_time_cache_def Let_def)

lemma render_timestamp_take:
  assumes "cached_size c = length (cached_prefix c)" "0 < cap"
  shows "render_timestamp c cap tp =
           take (cap - 1) (cached_prefix c @ ''.'' @ printf_03ld (trunc_rem (to_ms tp) 1000))"
proof -
  define ms where "ms = CHR ''.'' # printf_03ld (trunc_rem (to_ms tp) 1000)"
  have "length ms \<le> 5" "0 < length ms"
    using length_printf_03ld [OF abs_trunc_rem_less [of 1000 "to_ms tp"]] by (auto simp: ms_def)
  then have ret: "snprintf_ret ms = int (length ms)" "0 < length ms"
    by (simp_all add: snprintf_ret_def INT_MAX_def)
  then have "render_timestamp c cap tp = take (cap - 1) (cached_prefix c @ ms)"
    using assms by (simp add: render_timestamp_def Let_def ms_def [symmetric])
  then show ?thesis by (simp add: ms_def)
qed

lemma pretty_time_into_ref:
  assumes "time_cache_ok render c" "0 < cap"
  shows "fst (pretty_time_into render c cap tp) = pretty_time_ref render cap tp"
    and "time_cache_ok render (snd (pretty_time_into render c cap tp))"
  using assms refresh_time_cache_ok [OF assms(1)]
  by (simp_all add: pretty_time_into_def Let_def render_timestamp_take pretty_time_ref_def)

lemma length_pretty_time_ref: "length (pretty_time_ref render cap tp) \<le> cap - 1"
  by (simp add: pretty_time_ref_def)

section \<open>Properties\<close>

text \<open>A thread's successive calls, the cache passed from one to the next.\<close>

fun pretty_time_calls ::
    "(int \<Rightarrow> string) \<Rightarrow> time_cache \<Rightarrow> (nat \<times> int) list \<Rightarrow> string list" where
  "pretty_time_calls render c [] = []"
| "pretty_time_calls render c ((cap, tp) # calls) =
     (let (text, c') = pretty_time_into render c cap tp
      in text # pretty_time_calls render c' calls)"

text \<open>
  C38. The per-second cache is invisible: whatever times a thread asks for, in whatever order and into
  buffers of whatever capacity, every answer is the text computed afresh.
\<close>

theorem pretty_time_cache_transparent:
  "pretty_time_calls render zero_time_cache calls =
     map (\<lambda>(cap, tp). if cap = 0 then [] else pretty_time_ref render cap tp) calls"
proof -
  have "time_cache_ok render c \<Longrightarrow> pretty_time_calls render c calls =
     map (\<lambda>(cap, tp). if cap = 0 then [] else pretty_time_ref render cap tp) calls" for c
  proof (induction calls arbitrary: c)
    case (Cons call calls)
    obtain cap tp where [simp]: "call = (cap, tp)" by force
    show ?case
    proof (cases "cap = 0")
      case True
      then have "pretty_time_into render c cap tp = ([], c)" by (simp add: pretty_time_into_def)
      with True Cons show ?thesis by simp
    next
      case False
      then show ?thesis
        using Cons pretty_time_into_ref [of render c cap tp]
        by (simp add: case_prod_beta Let_def)
    qed
  qed simp
  then show ?thesis by simp
qed

text \<open>
  The timestamp fits and has its advertised length: at most \<open>cap - 1\<close> bytes are written, and for
  a time not before the epoch whose second renders to the 19 bytes of the date format, in a
  buffer with room for it, exactly \<open>PRETTY_TIME_LENGTH\<close>.
\<close>

theorem pretty_time_length:
  assumes "time_cache_ok render c" "0 < cap" "0 \<le> tp"
    and "length (render (to_time_t tp)) = 19"
  shows "length (fst (pretty_time_into render c cap tp)) < cap \<and>
         (PRETTY_TIME_LENGTH < cap \<longrightarrow>
          length (fst (pretty_time_into render c cap tp)) = PRETTY_TIME_LENGTH)"
proof -
  have "0 \<le> to_ms tp" using assms(3) by (simp add: to_ms_def trunc_div_def sgn_if)
  then have "length (printf_03ld (trunc_rem (to_ms tp) 1000)) = 3"
    using trunc_rem_bounds [of "to_ms tp" 1000] by (intro length_printf_03ld_nonneg) auto
  then show ?thesis
    using assms(2,4)
    by (simp add: pretty_time_into_ref(1) [OF assms(1,2)] pretty_time_ref_def strftime_into_def
        width_defs)
qed

theorem pretty_time_length_witness:
  "let render = (\<lambda>_. ''14-11-2023 22:13:20'') in
   length (fst (pretty_time_into render zero_time_cache 64 1700000000123000000)) < 64 \<and>
   (PRETTY_TIME_LENGTH < 64 \<longrightarrow>
    length (fst (pretty_time_into render zero_time_cache 64 1700000000123000000))
      = PRETTY_TIME_LENGTH)"
  unfolding Let_def by (rule pretty_time_length) simp_all

text \<open>
  Before the epoch the millisecond part is not in [0, 999], whatever the comment on the narrowing
  cast says: one second and 500 ms before 1970 the remainder is -500, and the text is one byte
  longer than \<open>PRETTY_TIME_LENGTH\<close>.
\<close>

theorem pretty_time_before_epoch:
  "trunc_rem (to_ms (- 1500000000)) 1000 = - 500 \<and>
   (length (render (- 1)) = 19 \<longrightarrow>
    length (fst (pretty_time_into render zero_time_cache PRETTY_TIME_BUF_SIZE (- 1500000000)))
      = PRETTY_TIME_LENGTH + 1)"
proof -
  have r: "trunc_rem (to_ms (- 1500000000)) 1000 = - 500" "to_time_t (- 1500000000) = - 1"
    by (simp_all add: to_ms_def to_time_t_def trunc_rem_def trunc_div_def)
  have "length (printf_03ld (- 500)) = 4"
    by (simp add: printf_03ld_def pad_left_def dec_def numeral_in.simps)
  with r show ?thesis
    by (simp add: pretty_time_into_ref(1) pretty_time_ref_def strftime_into_def width_defs)
qed

theorem pretty_time_before_epoch_witness:
  "trunc_rem (to_ms (- 1500000000)) 1000 = - 500 \<and>
   length (fst (pretty_time_into (\<lambda>_. ''31-12-1969 23:59:59'') zero_time_cache
     PRETTY_TIME_BUF_SIZE (- 1500000000))) = PRETTY_TIME_LENGTH + 1"
  using pretty_time_before_epoch [of "\<lambda>_. ''31-12-1969 23:59:59''"] by simp

end
