(* ===== verification/LineFormat.thy ===== *)
theory LineFormat
  imports Prelude PrettyTime
begin

text \<open>
  Call lines (\<open>include/types.h\<close>, \<open>include/format.h\<close>): the frame a line is rendered from, the
  clamped writes into a caller's buffer, \<open>format_into\<close>, its \<open>std::string\<close> wrapper and the offset of
  the tree glyph that the in-place patch uses. A pointer to a string is a \<open>string option\<close>; a result
  None is the dereference of a null pointer.
\<close>

section \<open>Frames\<close>

record resolved_frame =
  rf_timestamp :: string
  rf_callee_address :: "addr option"
  rf_callee_function_name :: string
  rf_caller_filename :: string
  rf_caller_line_number :: "u32 option"

record resolved_frame_view =
  timestamp :: string
  callee_address :: "addr option"
  callee_function_name :: "string option"
  callee_base_name :: "string option"
  caller_filename :: "string option"
  caller_line_number :: "u32 option"
  caller_function_base :: "string option"

definition empty_view :: resolved_frame_view where
  "empty_view = \<lparr>timestamp = [], callee_address = None, callee_function_name = None,
     callee_base_name = None, caller_filename = None, caller_line_number = None,
     caller_function_base = None\<rparr>"

section \<open>Layout constants\<close>

definition FORMAT_BUF_SIZE :: nat where
  [width_defs]: "FORMAT_BUF_SIZE = 2048"

definition TIMESTAMP_PREFIX_WIDTH :: nat where
  [width_defs]: "TIMESTAMP_PREFIX_WIDTH = PRETTY_TIME_LENGTH + 3"

definition ADDR_COLUMN_WIDTH :: nat where
  [width_defs]: "ADDR_COLUMN_WIDTH = 9 + SIZEOF_VOID_P * 2 + 2"

definition TREE_SEGMENT_WIDTH :: int where
  [width_defs]: "TREE_SEGMENT_WIDTH = 3"

definition FRAME_END_EXCEPTION :: char where
  "FRAME_END_EXCEPTION = CHR ''!''"

definition FRAME_END_JUMP :: char where
  "FRAME_END_JUMP = CHR ''~''"

text \<open>The offset is asked for depths of at least 1 only; there the casts to \<open>size_t\<close> are exact.\<close>

definition tree_glyph_offset :: "int \<Rightarrow> nat \<Rightarrow> nat" where
  "tree_glyph_offset depth extra_prefix =
     TIMESTAMP_PREFIX_WIDTH + extra_prefix + nat TREE_SEGMENT_WIDTH * nat (depth - 1)"

section \<open>Clamped writes\<close>

text \<open>
  The state of a line under construction: the bytes before \<open>pos\<close>, and \<open>remaining\<close>. A \<open>snprintf\<close> that
  does not fit leaves both as they were; what it wrote past \<open>pos\<close> is overwritten by the next write
  or never returned.
\<close>

type_synonym line_state = "string \<times> int"

definition put_text :: "string \<Rightarrow> line_state \<Rightarrow> line_state" where
  "put_text text st =
     (let n = snprintf_ret text
      in if n > 0 \<and> n < snd st then (fst st @ text, snd st - n) else st)"

definition put_segment :: "string \<Rightarrow> line_state \<Rightarrow> line_state" where
  "put_segment segment st = (fst st @ segment, snd st - TREE_SEGMENT_WIDTH)"

text \<open>The last write of a line is clamped to the space left.\<close>

definition put_clamped :: "string \<Rightarrow> line_state \<Rightarrow> string" where
  "put_clamped text st =
     (let n = snprintf_ret text
      in if n > 0 then fst st @ take (nat (if n < snd st then n else snd st - 1)) text else fst st)"

function tree_levels :: "int \<Rightarrow> int \<Rightarrow> line_state \<Rightarrow> line_state" where
  "tree_levels i depth st =
     (if i < depth \<and> snd st > TREE_SEGMENT_WIDTH
      then tree_levels (i + 1) depth (put_segment ''|  '' st) else st)"
  by pat_completeness auto
termination
  by (relation "measure (\<lambda>(i, depth, st). nat (depth - i))") auto

declare tree_levels.simps [simp del]

definition addr_column :: "addr \<Rightarrow> string" where
  "addr_column a = ''addr: [0x'' @ pad_left CHR ''0'' (SIZEOF_VOID_P * 2) (hex (unat a)) @ ''] ''"

definition line_prefix :: "nat \<Rightarrow> string \<Rightarrow> string \<Rightarrow> addr option \<Rightarrow> line_state" where
  "line_prefix cap ts after_timestamp address =
     (let st0 = ([], int_of_size cap);
          st1 = put_text (''['' @ ts @ ''] '') st0;
          st2 = (if after_timestamp \<noteq> [] \<and> snd st1 > 0 then put_text after_timestamp st1 else st1)
      in case address of
           None \<Rightarrow> st2
         | Some a \<Rightarrow> if snd st2 > 0 then put_text (addr_column a) st2 else st2)"

definition call_site_text :: "resolved_frame_view \<Rightarrow> string option" where
  "call_site_text frame =
     (case (callee_function_name frame, caller_filename frame) of
        (Some name, Some file) \<Rightarrow>
          Some (c_str name @ ''  (called from: '' @ c_str file @ '':'' @
                (case caller_line_number frame of
                   Some line \<Rightarrow> dec (unat line)
                 | None \<Rightarrow> ''???'') @ '')'')
      | _ \<Rightarrow> None)"

text \<open>Everything before the callee: prefix and tree indentation.\<close>

definition call_line_start :: "nat \<Rightarrow> resolved_frame_view \<Rightarrow> int \<Rightarrow> string \<Rightarrow> line_state" where
  "call_line_start cap frame depth after =
     (let st = tree_levels 1 depth (line_prefix cap (timestamp frame) after (callee_address frame))
      in if depth > 0 \<and> snd st > TREE_SEGMENT_WIDTH then put_segment ''|_ '' st else st)"

definition format_into ::
    "nat \<Rightarrow> resolved_frame_view \<Rightarrow> int \<Rightarrow> string \<Rightarrow> bool \<Rightarrow> string option" where
  "format_into cap frame current_stack_depth after_timestamp append_newline =
     (if cap = 0 then Some []
      else
        let st = call_line_start cap frame current_stack_depth after_timestamp;
            line = (if snd st > 0
                    then map_option (\<lambda>text. put_clamped text st) (call_site_text frame)
                    else Some (fst st))
        in map_option (\<lambda>out. if append_newline then out @ [newline] else out) line)"

definition format_frame :: "resolved_frame \<Rightarrow> int \<Rightarrow> string \<Rightarrow> bool \<Rightarrow> string option" where
  "format_frame frame current_stack_depth after_timestamp append_newline =
     format_into FORMAT_BUF_SIZE
       \<lparr>timestamp = c_str (rf_timestamp frame), callee_address = rf_callee_address frame,
        callee_function_name = Some (rf_callee_function_name frame), callee_base_name = None,
        caller_filename = Some (rf_caller_filename frame),
        caller_line_number = rf_caller_line_number frame, caller_function_base = None\<rparr>
       current_stack_depth after_timestamp append_newline"

section \<open>The buffer invariant\<close>

text \<open>Position and remaining space always add up to the capacity, and one byte is always left.\<close>

definition line_ok :: "nat \<Rightarrow> line_state \<Rightarrow> bool" where
  "line_ok cap st \<longleftrightarrow> int (length (fst st)) + snd st = int cap \<and> 1 \<le> snd st"

definition capacity_ok :: "nat \<Rightarrow> bool" where
  "capacity_ok cap \<longleftrightarrow> 0 < cap \<and> int cap \<le> INT_MAX"

lemma capacity_ok_buf [simp]: "capacity_ok FORMAT_BUF_SIZE"
  by (simp add: capacity_ok_def width_defs INT_MAX_def)

lemma put_text_ok: "line_ok cap st \<Longrightarrow> line_ok cap (put_text t st)"
  by (auto simp: line_ok_def put_text_def snprintf_ret_def Let_def)

lemma put_segment_ok:
  "line_ok cap st \<Longrightarrow> snd st > TREE_SEGMENT_WIDTH \<Longrightarrow> length seg = 3 \<Longrightarrow> line_ok cap (put_segment seg st)"
  by (auto simp: line_ok_def put_segment_def width_defs)

lemma tree_levels_ok: "line_ok cap st \<Longrightarrow> line_ok cap (tree_levels i depth st)"
proof (induction i depth st rule: tree_levels.induct)
  case (1 i depth st)
  then show ?case by (subst tree_levels.simps) (simp add: put_segment_ok)
qed

lemma line_prefix_ok: "capacity_ok cap \<Longrightarrow> line_ok cap (line_prefix cap ts after address)"
proof -
  assume "capacity_ok cap"
  then have "line_ok cap ([], int_of_size cap)"
    by (simp add: line_ok_def capacity_ok_def int_of_size_small)
  then show ?thesis
    by (auto simp: line_prefix_def Let_def put_text_ok split: option.split)
qed

lemma length_put_clamped:
  "line_ok cap st \<Longrightarrow> length (put_clamped text st) < cap"
  by (auto simp: put_clamped_def line_ok_def Let_def min_def snprintf_ret_def INT_MAX_def)

section \<open>What is written when everything fits\<close>

definition address_text :: "addr option \<Rightarrow> string" where
  "address_text address = (case address of None \<Rightarrow> [] | Some a \<Rightarrow> addr_column a)"

definition prefix_text :: "string \<Rightarrow> string \<Rightarrow> addr option \<Rightarrow> string" where
  "prefix_text ts after address = ''['' @ ts @ ''] '' @ after @ address_text address"

definition tree_text :: "int \<Rightarrow> string" where
  "tree_text depth = concat (replicate (nat (depth - 1)) ''|  '')"

lemma length_addr_column [len_simps]: "length (addr_column a) = ADDR_COLUMN_WIDTH"
  using length_hex_word [of a] by (simp add: addr_column_def length_pad_left width_defs)

lemma length_tree_text [len_simps]: "length (tree_text depth) = 3 * nat (depth - 1)"
  by (simp add: tree_text_def length_concat sum_list_replicate)

lemma length_address_text [len_simps]:
  "length (address_text address) = (if address = None then 0 else ADDR_COLUMN_WIDTH)"
  by (auto simp: address_text_def len_simps split: option.split)

lemma put_text_fits:
  "line_ok cap st \<Longrightarrow> int cap \<le> INT_MAX \<Longrightarrow> text \<noteq> [] \<Longrightarrow> length (fst st) + length text < cap \<Longrightarrow>
   put_text text st = (fst st @ text, snd st - int (length text))"
  by (auto simp: put_text_def snprintf_ret_def line_ok_def Let_def)

lemma line_prefix_fits:
  assumes "capacity_ok cap" "length (prefix_text ts after address) < cap"
  shows "line_prefix cap ts after address =
           (prefix_text ts after address, int cap - int (length (prefix_text ts after address)))"
proof -
  have cap: "int cap \<le> INT_MAX" using assms(1) by (simp add: capacity_ok_def)
  let ?st0 = "([], int cap) :: line_state"
  let ?ts = "''['' @ ts @ ''] ''"
  have ok0: "line_ok cap ?st0" using assms(1) by (simp add: line_ok_def capacity_ok_def)
  define st1 where "st1 = put_text ?ts ?st0"
  have st1: "st1 = (?ts, int cap - int (length ?ts))" and ok1: "line_ok cap st1"
    using put_text_fits [OF ok0 cap, of ?ts] put_text_ok [OF ok0, of ?ts] assms(2)
    by (auto simp: prefix_text_def st1_def)
  define st2 where "st2 = (if after \<noteq> [] \<and> snd st1 > 0 then put_text after st1 else st1)"
  have st2: "st2 = (?ts @ after, int cap - int (length (?ts @ after)))" and ok2: "line_ok cap st2"
    using put_text_fits [OF ok1 cap, of after] put_text_ok [OF ok1, of after] assms(2) ok1
    by (auto simp: prefix_text_def st2_def st1)
  have "line_prefix cap ts after address =
      (case address of None \<Rightarrow> st2 | Some a \<Rightarrow> if snd st2 > 0 then put_text (addr_column a) st2 else st2)"
    by (simp only: line_prefix_def Let_def st1_def st2_def int_of_size_small [OF cap])
  moreover have "put_text (addr_column a) st2 =
      (prefix_text ts after (Some a), int cap - int (length (prefix_text ts after (Some a))))"
    if "address = Some a" for a
    using put_text_fits [OF ok2 cap, of "addr_column a"] assms(2) that
    by (simp add: prefix_text_def address_text_def st2 addr_column_def)
  ultimately show ?thesis
    using st2 ok2 by (auto simp: prefix_text_def address_text_def line_ok_def split: option.split)
qed

lemma tree_levels_fits:
  assumes "line_ok cap st" "length (fst st) + 3 * nat (depth - i) < cap"
  shows "tree_levels i depth st =
           (fst st @ concat (replicate (nat (depth - i)) ''|  ''), snd st - 3 * int (nat (depth - i)))"
  using assms
proof (induction i depth st rule: tree_levels.induct)
  case (1 i depth st)
  show ?case
  proof (cases "i < depth")
    case False
    then show ?thesis by (subst tree_levels.simps) (simp add: prod_eq_iff)
  next
    case True
    then have k: "nat (depth - i) = Suc (nat (depth - (i + 1)))" by simp
    have room: "snd st > TREE_SEGMENT_WIDTH"
      using "1.prems" k by (simp add: line_ok_def width_defs)
    let ?st = "put_segment ''|  '' st"
    have "line_ok cap ?st" using "1.prems"(1) room by (simp add: put_segment_ok)
    moreover have "length (fst ?st) + 3 * nat (depth - (i + 1)) < cap"
      using "1.prems"(2) k by (simp add: put_segment_def)
    ultimately have "tree_levels (i + 1) depth ?st =
        (fst ?st @ concat (replicate (nat (depth - (i + 1))) ''|  ''),
         snd ?st - 3 * int (nat (depth - (i + 1))))"
      using "1.IH" True room by blast
    then show ?thesis
      using True room k by (subst tree_levels.simps) (simp add: put_segment_def width_defs)
  qed
qed

text \<open>The prefix and the tree of a line, the glyph \<open>|_\<close> included at depths of at least 1.\<close>

definition glyph_text :: "int \<Rightarrow> string" where
  "glyph_text depth = (if depth > 0 then tree_text depth @ ''|_ '' else [])"

lemma length_glyph_text [len_simps]: "length (glyph_text depth) = 3 * nat depth"
  by (auto simp: glyph_text_def len_simps nat_diff_distrib)

lemma call_line_start_ok: "capacity_ok cap \<Longrightarrow> line_ok cap (call_line_start cap frame depth after)"
  by (auto simp: call_line_start_def Let_def put_segment_ok tree_levels_ok line_prefix_ok)

lemma format_into_start:
  assumes "capacity_ok cap"
  shows "format_into cap frame depth after nl =
           map_option (\<lambda>text. put_clamped text (call_line_start cap frame depth after)
                               @ (if nl then [newline] else []))
             (call_site_text frame)"
  using call_line_start_ok [OF assms, of frame depth after] assms
  by (cases "call_site_text frame")
    (simp_all add: format_into_def Let_def line_ok_def capacity_ok_def)

lemma call_line_start_fits:
  assumes "capacity_ok cap"
    and "length (prefix_text (timestamp frame) after (callee_address frame)) + 3 * nat depth < cap"
  shows "fst (call_line_start cap frame depth after) =
           prefix_text (timestamp frame) after (callee_address frame) @ glyph_text depth"
proof -
  let ?p = "prefix_text (timestamp frame) after (callee_address frame)"
  let ?st = "line_prefix cap (timestamp frame) after (callee_address frame)"
  have p: "?st = (?p, int cap - int (length ?p))"
    using assms by (intro line_prefix_fits) auto
  have "tree_levels 1 depth ?st =
      (fst ?st @ concat (replicate (nat (depth - 1)) ''|  ''), snd ?st - 3 * int (nat (depth - 1)))"
    using assms(2) line_prefix_ok [OF assms(1), of "timestamp frame" after "callee_address frame"]
    by (intro tree_levels_fits [where cap = cap]) (auto simp: p)
  then show ?thesis
    using assms(2)
    by (auto simp: call_line_start_def Let_def p glyph_text_def tree_text_def put_segment_def
        width_defs)
qed

lemma put_clamped_prefix: "line_ok cap st \<Longrightarrow> \<exists>rest. put_clamped text st = fst st @ rest"
  by (auto simp: put_clamped_def Let_def)

section \<open>Properties\<close>

text \<open>
  C35. No line overflows its buffer: for every frame, depth and splice, a buffer of a capacity an \<open>int\<close>
  can hold receives at most that many bytes, fewer when no newline is asked for, and with a
  newline the line ends in it even when it was truncated.
\<close>

theorem format_into_bounds:
  assumes "capacity_ok cap" "format_into cap frame depth after nl = Some line"
  shows "length line \<le> cap \<and> (\<not> nl \<longrightarrow> length line < cap) \<and> (nl \<longrightarrow> last line = newline)"
proof -
  obtain t where "line = put_clamped t (call_line_start cap frame depth after)
      @ (if nl then [newline] else [])"
    using assms(2) by (auto simp: format_into_start [OF assms(1)])
  then show ?thesis
    using length_put_clamped [OF call_line_start_ok [OF assms(1)], of t frame depth after]
    by auto
qed

definition sample_view :: resolved_frame_view where
  "sample_view = empty_view\<lparr>timestamp := ''01-01-2025 12:00:00.000'',
     callee_function_name := Some ''foo()'', caller_filename := Some ''a.cpp'',
     caller_line_number := Some 7\<rparr>"

lemma sample_line:
  "format_into FORMAT_BUF_SIZE sample_view 2 [] True =
     Some (''[01-01-2025 12:00:00.000] |  |_ foo()  (called from: a.cpp:7)'' @ [newline])"
  by code_simp

theorem format_into_bounds_witness:
  "\<exists>line. capacity_ok FORMAT_BUF_SIZE \<and>
     format_into FORMAT_BUF_SIZE sample_view 2 [] True = Some line \<and>
     length line \<le> FORMAT_BUF_SIZE \<and> last line = newline"
  using format_into_bounds [OF capacity_ok_buf sample_line] sample_line by auto

text \<open>
  A line that fits is complete and in order: timestamp, splice, address column, one segment per
  enclosing level, the glyph, then the callee and its call site.
\<close>

theorem format_into_complete:
  assumes "capacity_ok cap" "call_site_text frame = Some site"
    and "length (prefix_text (timestamp frame) after (callee_address frame) @ glyph_text depth @ site)
           < cap"
  shows "format_into cap frame depth after nl =
           Some (prefix_text (timestamp frame) after (callee_address frame) @ glyph_text depth @ site
                   @ (if nl then [newline] else []))"
proof -
  let ?st = "call_line_start cap frame depth after"
  have st: "fst ?st = prefix_text (timestamp frame) after (callee_address frame) @ glyph_text depth"
    using assms(1,3) by (intro call_line_start_fits) (auto simp: len_simps)
  have "line_ok cap ?st" using assms(1) by (rule call_line_start_ok)
  then have "put_clamped site ?st = fst ?st @ site"
    using assms(1,3) st
    by (auto simp: put_clamped_def Let_def snprintf_ret_def line_ok_def capacity_ok_def)
  with st show ?thesis by (simp add: format_into_start [OF assms(1)] assms(2))
qed

theorem format_into_complete_witness:
  "call_site_text sample_view = Some ''foo()  (called from: a.cpp:7)'' \<and>
   format_into FORMAT_BUF_SIZE sample_view 2 [] False =
     Some (prefix_text (timestamp sample_view) [] (callee_address sample_view) @ glyph_text 2
             @ ''foo()  (called from: a.cpp:7)'' @ (if False then [newline] else []))"
proof -
  have site: "call_site_text sample_view = Some ''foo()  (called from: a.cpp:7)''" by code_simp
  have fits: "length (prefix_text (timestamp sample_view) [] (callee_address sample_view)
      @ glyph_text 2 @ ''foo()  (called from: a.cpp:7)'') < FORMAT_BUF_SIZE" by code_simp
  from site format_into_complete [OF capacity_ok_buf site fits, of False] show ?thesis by blast
qed

text \<open>
  The glyph is where the patch looks for it: for a line at depth at least 1 whose prefix and tree
  fit the buffer, the three bytes at \<open>tree_glyph_offset\<close> are the glyph \<open>|_\<close> and its space, however
  the rest of the line is truncated.
\<close>

theorem glyph_at_offset:
  assumes "capacity_ok cap" "format_into cap frame depth after nl = Some line"
    and "length (timestamp frame) = PRETTY_TIME_LENGTH" "1 \<le> depth"
    and "extra = length after + (if callee_address frame = None then 0 else ADDR_COLUMN_WIDTH)"
    and "tree_glyph_offset depth extra + 3 < cap"
  shows "take 3 (drop (tree_glyph_offset depth extra) line) = ''|_ ''"
proof -
  let ?p = "prefix_text (timestamp frame) after (callee_address frame)"
  have lp: "length ?p = TIMESTAMP_PREFIX_WIDTH + extra"
    using assms(3,5) by (simp add: prefix_text_def len_simps TIMESTAMP_PREFIX_WIDTH_def)
  have d: "nat depth = Suc (nat (depth - 1))" using assms(4) by simp
  obtain t where line: "line = put_clamped t (call_line_start cap frame depth after)
      @ (if nl then [newline] else [])"
    using assms(2) by (auto simp: format_into_start [OF assms(1)])
  have "fst (call_line_start cap frame depth after) = ?p @ glyph_text depth"
    using assms(1,6) lp d by (intro call_line_start_fits) (auto simp: tree_glyph_offset_def width_defs)
  then obtain rest where "line = (?p @ tree_text depth) @ ''|_ '' @ rest"
    using line put_clamped_prefix [OF call_line_start_ok [OF assms(1)], of t frame depth after]
      assms(4) by (auto simp: glyph_text_def)
  moreover have "length (?p @ tree_text depth) = tree_glyph_offset depth extra"
    by (simp add: lp len_simps tree_glyph_offset_def width_defs)
  ultimately show ?thesis by (simp only: append_eq_conv_conj [THEN iffD1, OF refl]) simp
qed

theorem glyph_at_offset_witness:
  "\<exists>line. format_into FORMAT_BUF_SIZE sample_view 2 [] True = Some line \<and>
     take 3 (drop (tree_glyph_offset 2 0) line) = ''|_ ''"
proof -
  have "length (timestamp sample_view) = PRETTY_TIME_LENGTH"
    by (simp add: sample_view_def width_defs)
  then have "take 3 (drop (tree_glyph_offset 2 0)
      (''[01-01-2025 12:00:00.000] |  |_ foo()  (called from: a.cpp:7)'' @ [newline])) = ''|_ ''"
    by (intro glyph_at_offset [OF capacity_ok_buf sample_line])
      (simp_all add: sample_view_def empty_view_def tree_glyph_offset_def width_defs)
  with sample_line show ?thesis by blast
qed

text \<open>
  Beyond that depth the offset leaves the line: no line of a 2048-byte buffer, without further
  columns, contains the offset computed for a depth of 675 or more, so a mark written there lands
  in whatever follows the line in the file.
\<close>

theorem glyph_offset_outside_line:
  assumes "format_into FORMAT_BUF_SIZE frame depth [] True = Some line" "675 \<le> depth"
  shows "length line \<le> tree_glyph_offset depth 0"
proof -
  obtain t where "line = put_clamped t (call_line_start FORMAT_BUF_SIZE frame depth []) @ [newline]"
    using assms(1) by (auto simp: format_into_start)
  then have "length line \<le> FORMAT_BUF_SIZE"
    using length_put_clamped [OF call_line_start_ok [OF capacity_ok_buf], of t frame depth "[]"]
    by (simp add: Suc_le_eq)
  moreover have "674 \<le> nat (depth - 1)" using assms(2) by linarith
  ultimately show ?thesis by (simp add: tree_glyph_offset_def width_defs)
qed

theorem glyph_offset_outside_line_witness:
  "\<exists>line. format_into FORMAT_BUF_SIZE sample_view 675 [] True = Some line \<and>
     length line \<le> tree_glyph_offset 675 0"
proof -
  obtain line where l: "format_into FORMAT_BUF_SIZE sample_view 675 [] True = Some line"
    by (auto simp: format_into_start sample_view_def call_site_text_def)
  from glyph_offset_outside_line [OF l] l show ?thesis by auto
qed

end
