(* ===== verification/Resolver.thy ===== *)
theory Resolver
  imports SymbolLookup FrontCache LineFormat
begin

text \<open>
  The resolver's memory and its entry points (\<open>src/callStack.cpp\<close>): the memoization caches shared by
  all threads under \<open>s_resolver_mutex\<close>, the per-thread front caches, and the two-phase lookups, which
  drop the mutex around the loader's \<open>dladdr1\<close>. What other threads do to the shared caches while it
  is dropped is the parameter \<open>interfere\<close>. Each lookup also returns its log: taking the mutex,
  releasing it and asking the loader append to the log where the code does them, and \<open>ask_loader\<close> is
  the only way to the loader's answers. Running out of memory inside a lookup is not modelled here: it leaves the caches
  as they were and reaches the hooks as an exception (theory TraceHooks).
\<close>

section \<open>State\<close>

record cached_name =
  cn_name :: "string option"
  cn_base :: string

record caches =
  cached_files :: files
  name_cache :: "addr \<Rightarrow> cached_name option"
  frame_name_cache :: "addr \<Rightarrow> cached_name option"
  location_cache :: "addr \<Rightarrow> cached_location option"
  inline_chain_cache :: "addr \<Rightarrow> string list option"

record fronts =
  t_name_front :: "cached_name front_cache"
  t_location_front :: "cached_location front_cache"

definition empty_caches :: caches where
  "empty_caches = \<lparr>cached_files = no_files, name_cache = Map.empty, frame_name_cache = Map.empty,
     location_cache = Map.empty, inline_chain_cache = Map.empty\<rparr>"

definition empty_fronts :: fronts where
  "empty_fronts = \<lparr>t_name_front = front_zero FRONT_CACHE_SLOTS,
     t_location_front = front_zero FRONT_CACHE_SLOTS\<rparr>"

datatype lock_action = Acquire | Release | Query_loader addr

text \<open>
  The constructor and the destructor of the \<open>lock_guard\<close>, and the query of the loader, which answers
  and appends itself to the log.
\<close>

definition lock_mutex :: "lock_action list \<Rightarrow> lock_action list" where
  "lock_mutex acts = acts @ [Acquire]"

definition unlock_mutex :: "lock_action list \<Rightarrow> lock_action list" where
  "unlock_mutex acts = acts @ [Release]"

definition ask_loader :: "world \<Rightarrow> addr \<Rightarrow> lock_action list \<Rightarrow> address_info \<times> lock_action list" where
  "ask_loader w address acts = (query_address w address, acts @ [Query_loader address])"

lemmas log_defs = lock_mutex_def unlock_mutex_def ask_loader_def

definition cache_name :: "string option \<Rightarrow> cached_name" where
  "cache_name name =
     \<lparr>cn_name = name,
      cn_base = (case name of Some n \<Rightarrow> function_base_name n | None \<Rightarrow> [])\<rparr>"

definition filtered :: "cached_name \<Rightarrow> bool" where
  "filtered name \<longleftrightarrow> cn_name name = None"

definition found_filtered :: "cached_name option \<Rightarrow> bool" where
  "found_filtered name = (case name of Some x \<Rightarrow> filtered x | None \<Rightarrow> False)"

lemma found_filtered_simps [simp]:
  "\<not> found_filtered None"
  "found_filtered (Some x) \<longleftrightarrow> filtered x"
  by (simp_all add: found_filtered_def)

section \<open>resolve_no_unwind\<close>

definition names_of :: "name_of \<Rightarrow> caches \<Rightarrow> addr \<Rightarrow> cached_name option" where
  "names_of n c = (if n = innermost_function then name_cache c else frame_name_cache c)"

definition add_name :: "name_of \<Rightarrow> addr \<Rightarrow> cached_name \<Rightarrow> caches \<Rightarrow> caches" where
  "add_name n address name c =
     (if n = innermost_function then c\<lparr>name_cache := (name_cache c)(address \<mapsto> name)\<rparr>
      else c\<lparr>frame_name_cache := (frame_name_cache c)(address \<mapsto> name)\<rparr>)"

definition remember_name :: "name_of \<Rightarrow> addr \<Rightarrow> cached_name \<Rightarrow> fronts \<Rightarrow> fronts" where
  "remember_name n address name f =
     (if n = innermost_function then f\<lparr>t_name_front := front_store (t_name_front f) address name\<rparr>
      else f)"

definition remember_location :: "name_of \<Rightarrow> addr \<Rightarrow> cached_location \<Rightarrow> fronts \<Rightarrow> fronts" where
  "remember_location n address location f =
     (if n = innermost_function
      then f\<lparr>t_location_front := front_store (t_location_front f) address location\<rparr> else f)"

text \<open>The thread's own front caches, consulted without the mutex.\<close>

definition find_front ::
    "name_of \<Rightarrow> fronts \<Rightarrow> addr \<Rightarrow> addr \<Rightarrow> cached_name option \<times> cached_location option" where
  "find_front n f callee caller =
     (if n = innermost_function
      then (front_find (t_name_front f) callee, front_find (t_location_front f) caller)
      else (None, None))"

text \<open>
  The first section under the mutex: what is still missing is looked for in the shared maps. A name
  found there that is filtered ends the lookup before the call site is looked at.
\<close>

definition find_shared_name ::
    "name_of \<Rightarrow> caches \<Rightarrow> fronts \<Rightarrow> addr \<Rightarrow> cached_name option \<Rightarrow> cached_name option \<times> fronts" where
  "find_shared_name n c f callee name =
     (case name of
        Some x \<Rightarrow> (name, f)
      | None \<Rightarrow> (case names_of n c callee of
                   Some x \<Rightarrow> (Some x, remember_name n callee x f)
                 | None \<Rightarrow> (None, f)))"

definition find_shared_location ::
    "name_of \<Rightarrow> caches \<Rightarrow> fronts \<Rightarrow> addr \<Rightarrow> cached_location option \<Rightarrow> cached_location option \<times> fronts" where
  "find_shared_location n c f caller location =
     (case location of
        Some x \<Rightarrow> (location, f)
      | None \<Rightarrow> (case location_cache c caller of
                   Some x \<Rightarrow> (Some x, remember_location n caller x f)
                 | None \<Rightarrow> (None, f)))"

text \<open>Between the two sections: the loader is asked about the addresses whose entry is missing.\<close>

definition ask_missing ::
    "world \<Rightarrow> bool \<Rightarrow> addr \<Rightarrow> lock_action list \<Rightarrow> address_info \<times> lock_action list" where
  "ask_missing w missing address acts =
     (if missing then ask_loader w address acts else (invalid_address, acts))"

text \<open>
  The second section: find-or-emplace of what is missing, with what the loader answered before it.
\<close>

definition emplace_name ::
    "name_of \<Rightarrow> world \<Rightarrow> address_info \<Rightarrow> caches \<Rightarrow> fronts \<Rightarrow> addr \<Rightarrow> cached_name option
       \<Rightarrow> cached_name \<times> caches \<times> fronts" where
  "emplace_name n w callee_info c f callee name =
     (case name of
        Some x \<Rightarrow> (x, c, f)
      | None \<Rightarrow>
          (let (x, c') =
             (case names_of n c callee of
                Some x \<Rightarrow> (x, c)
              | None \<Rightarrow>
                  (let (resolved, fs) = resolve_function_name w (cached_files c) callee callee_info n;
                       x = cache_name resolved
                   in (x, add_name n callee x (c\<lparr>cached_files := fs\<rparr>))))
           in (x, c', remember_name n callee x f)))"

definition emplace_location ::
    "name_of \<Rightarrow> world \<Rightarrow> address_info \<Rightarrow> caches \<Rightarrow> fronts \<Rightarrow> addr \<Rightarrow> cached_location option
       \<Rightarrow> cached_location \<times> caches \<times> fronts" where
  "emplace_location n w caller_info c f caller location =
     (case location of
        Some x \<Rightarrow> (x, c, f)
      | None \<Rightarrow>
          (let (x, c') =
             (case location_cache c caller of
                Some x \<Rightarrow> (x, c)
              | None \<Rightarrow>
                  (let (x, fs) = resolve_filename_and_line w (cached_files c) caller caller_info
                   in (x, c\<lparr>cached_files := fs, location_cache := (location_cache c)(caller \<mapsto> x)\<rparr>)))
           in (x, c', remember_location n caller x f)))"

text \<open>The answer, written over the caller's view.\<close>

definition fill_view ::
    "world \<Rightarrow> addr \<Rightarrow> cached_name \<Rightarrow> cached_location \<Rightarrow> resolved_frame_view \<Rightarrow> resolved_frame_view" where
  "fill_view w callee name location out =
     (let out = out\<lparr>callee_function_name := cn_name name, callee_base_name := Some (cn_base name),
                    caller_filename := Some (loc_file location),
                    caller_line_number := loc_line location,
                    caller_function_base := Some (loc_function_base location)\<rparr>
      in if log_addr_on w then out\<lparr>callee_address := Some callee\<rparr> else out)"

text \<open>
  None is the answer \<open>false\<close>: the frame is filtered or has no name, and is not logged.
\<close>

definition resolve_no_unwind ::
    "name_of \<Rightarrow> world \<Rightarrow> (caches \<Rightarrow> caches) \<Rightarrow> caches \<Rightarrow> fronts \<Rightarrow> addr \<Rightarrow> addr \<Rightarrow> resolved_frame_view
       \<Rightarrow> resolved_frame_view option \<times> caches \<times> fronts \<times> lock_action list" where
  "resolve_no_unwind n w interfere c f callee caller out =
     (case find_front n f callee caller of
        (Some name, Some location) \<Rightarrow>
          if filtered name then (None, c, f, [])
          else (Some (fill_view w callee name location out), c, f, [])
      | (name, location) \<Rightarrow>
          if found_filtered name then (None, c, f, [])
          else
            let acts = lock_mutex [];
                (name1, f1) = find_shared_name n c f callee name
            in if name = None \<and> found_filtered name1
               then (None, c, f1, unlock_mutex acts)
               else
                 let (location1, f2) = find_shared_location n c f1 caller location;
                     acts = unlock_mutex acts
                 in case (name1, location1) of
                      (Some x, Some l) \<Rightarrow> (Some (fill_view w callee x l out), c, f2, acts)
                    | _ \<Rightarrow>
                        let (callee_info, acts) = ask_missing w (name1 = None) callee acts;
                            (caller_info, acts) = ask_missing w (location1 = None) caller acts;
                            acts = lock_mutex acts;
                            (x, c1, f3) = emplace_name n w callee_info (interfere c) f2 callee name1
                        in if name1 = None \<and> filtered x then (None, c1, f3, unlock_mutex acts)
                           else let (l, c2, f4) = emplace_location n w caller_info c1 f3 caller location1
                                in (Some (fill_view w callee x l out), c2, f4, unlock_mutex acts))"

section \<open>The two-phase lookups without front caches\<close>

text \<open>
  A cache of one address-keyed map in the shared state. \<open>two_phase\<close> is the shape the location and
  inline-chain lookups share: the map, then outside the mutex the loader, then find-or-emplace.
\<close>

definition two_phase ::
    "('c \<Rightarrow> addr \<Rightarrow> 'v option) \<Rightarrow> ('c \<Rightarrow> addr \<Rightarrow> 'v \<Rightarrow> 'c)
       \<Rightarrow> (addr \<Rightarrow> lock_action list \<Rightarrow> 'i \<times> lock_action list) \<Rightarrow> ('i \<Rightarrow> 'c \<Rightarrow> 'v \<times> 'c)
       \<Rightarrow> ('c \<Rightarrow> 'c) \<Rightarrow> 'c \<Rightarrow> addr \<Rightarrow> 'v \<times> 'c \<times> lock_action list" where
  "two_phase get put ask compute interfere c address =
     (let acts = lock_mutex []
      in case get c address of
           Some v \<Rightarrow> (v, c, unlock_mutex acts)
         | None \<Rightarrow>
             (let acts = unlock_mutex acts;
                  (info, acts) = ask address acts;
                  acts = lock_mutex acts;
                  c1 = interfere c
              in case get c1 address of
                   Some v \<Rightarrow> (v, c1, unlock_mutex acts)
                 | None \<Rightarrow>
                     (let (v, c2) = compute info c1 in (v, put c2 address v, unlock_mutex acts))))"

definition put_location :: "caches \<Rightarrow> addr \<Rightarrow> cached_location \<Rightarrow> caches" where
  "put_location c address x = c\<lparr>location_cache := (location_cache c)(address \<mapsto> x)\<rparr>"

definition put_chain :: "caches \<Rightarrow> addr \<Rightarrow> string list \<Rightarrow> caches" where
  "put_chain c address x = c\<lparr>inline_chain_cache := (inline_chain_cache c)(address \<mapsto> x)\<rparr>"

text \<open>What a miss computes under the mutex, from the loader's answer.\<close>

definition locate_event_site ::
    "world \<Rightarrow> addr \<Rightarrow> address_info \<Rightarrow> caches \<Rightarrow> cached_location \<times> caches" where
  "locate_event_site w address info c =
     (let (x, fs) = resolve_event_site_location w (cached_files c) address info
      in (x, c\<lparr>cached_files := fs\<rparr>))"

definition chain_in_object :: "world \<Rightarrow> addr \<Rightarrow> address_info \<Rightarrow> caches \<Rightarrow> string list \<times> caches" where
  "chain_in_object w address info c =
     (let (x, fs) = read_inline_chain w (cached_files c) address info
      in (x, c\<lparr>cached_files := fs\<rparr>))"

definition resolve_location ::
    "world \<Rightarrow> (caches \<Rightarrow> caches) \<Rightarrow> caches \<Rightarrow> addr \<Rightarrow> resolved_frame_view
       \<Rightarrow> resolved_frame_view \<times> caches \<times> lock_action list" where
  "resolve_location w interfere c address out =
     (let (x, c', acts) =
        two_phase location_cache put_location (ask_loader w) (locate_event_site w address)
          interfere c address
      in (out\<lparr>caller_filename := Some (loc_file x), caller_line_number := loc_line x,
              caller_function_base := Some (loc_function_base x)\<rparr>, c', acts))"

definition resolve_inline_chain ::
    "world \<Rightarrow> (caches \<Rightarrow> caches) \<Rightarrow> caches \<Rightarrow> addr \<Rightarrow> string list \<times> caches \<times> lock_action list" where
  "resolve_inline_chain w interfere c address =
     two_phase inline_chain_cache put_chain (ask_loader w) (chain_in_object w address)
       interfere c address"

section \<open>Entry points\<close>

text \<open>The hooks' form: the caller is a return address, stepped back into the call.\<close>

definition resolve ::
    "world \<Rightarrow> (caches \<Rightarrow> caches) \<Rightarrow> caches \<Rightarrow> fronts \<Rightarrow> addr \<Rightarrow> addr \<Rightarrow> resolved_frame_view
       \<Rightarrow> resolved_frame_view option \<times> caches \<times> fronts \<times> lock_action list" where
  "resolve w interfere c f callee caller out =
     resolve_no_unwind innermost_function w interfere c f callee (inside_call_instruction caller) out"

definition own_frame :: "string \<Rightarrow> resolved_frame_view \<Rightarrow> resolved_frame" where
  "own_frame now view =
     \<lparr>rf_timestamp = now, rf_callee_address = callee_address view,
      rf_callee_function_name = the (callee_function_name view),
      rf_caller_filename = the (caller_filename view),
      rf_caller_line_number = caller_line_number view\<rparr>"

definition resolve_physical_frame ::
    "world \<Rightarrow> string \<Rightarrow> (caches \<Rightarrow> caches) \<Rightarrow> caches \<Rightarrow> fronts \<Rightarrow> addr \<Rightarrow> addr
       \<Rightarrow> resolved_frame option \<times> caches \<times> fronts \<times> lock_action list" where
  "resolve_physical_frame w now interfere c f return_address caller =
     (let (r, c', f', acts) =
        resolve_no_unwind outermost_function w interfere c f
          (inside_call_instruction return_address) caller empty_view
      in (map_option (\<lambda>view.
            own_frame now (if callee_address view \<noteq> None
                           then view\<lparr>callee_address := Some return_address\<rparr> else view)) r,
          c', f', acts))"

text \<open>
  \<open>get_call_stack\<close>: \<open>backtrace\<close> stores the first addresses of the thread's call chain, as many as the
  size it is given says, and nothing for a size that is not positive. The buffer doubles until it is
  not filled, and its size is narrowed to an \<open>int\<close> for each call: \<open>doublings\<close> is how often it has
  been doubled.
\<close>

definition backtrace :: "addr list \<Rightarrow> int \<Rightarrow> addr list" where
  "backtrace chain room = take (nat room) chain"

definition INITIAL_FRAMES :: nat where
  "INITIAL_FRAMES = 1000"

definition stack_room :: "nat \<Rightarrow> nat" where
  "stack_room doublings = INITIAL_FRAMES * 2 ^ doublings"

function grow_stack :: "addr list \<Rightarrow> nat \<Rightarrow> addr list" where
  "grow_stack chain doublings =
     (if length (backtrace chain (int_of_size (stack_room doublings))) = stack_room doublings
      then grow_stack chain (Suc doublings)
      else backtrace chain (int_of_size (stack_room doublings)))"
  by pat_completeness auto
termination
proof (relation "measure (\<lambda>(chain, doublings). Suc (length chain) - stack_room doublings)")
  fix chain doublings
  assume "length (backtrace chain (int_of_size (stack_room doublings))) = stack_room doublings"
  then have "stack_room doublings \<le> length chain" by (simp add: backtrace_def)
  moreover have "stack_room doublings < stack_room (Suc doublings)"
    by (simp add: stack_room_def INITIAL_FRAMES_def)
  ultimately show "((chain, Suc doublings), chain, doublings)
      \<in> measure (\<lambda>(chain, doublings). Suc (length chain) - stack_room doublings)" by simp
qed simp

declare grow_stack.simps [simp del]

definition frame_caller :: "addr list \<Rightarrow> nat \<Rightarrow> addr" where
  "frame_caller stack i =
     (if i + 1 < length stack then inside_call_instruction (stack ! (i + 1)) else stack ! i)"

fun resolve_stack ::
    "world \<Rightarrow> string \<Rightarrow> (caches \<Rightarrow> caches) \<Rightarrow> caches \<Rightarrow> fronts \<Rightarrow> addr list \<Rightarrow> nat list
       \<Rightarrow> resolved_frame option list \<times> caches \<times> fronts" where
  "resolve_stack w now interfere c f stack [] = ([], c, f)"
| "resolve_stack w now interfere c f stack (i # is) =
     (let (r, c', f', acts) =
        resolve_physical_frame w now interfere c f (stack ! i) (frame_caller stack i);
          (rs, c'', f'') = resolve_stack w now interfere c' f' stack is
      in (r # rs, c'', f''))"

definition get_call_stack ::
    "world \<Rightarrow> string \<Rightarrow> (caches \<Rightarrow> caches) \<Rightarrow> caches \<Rightarrow> fronts \<Rightarrow> addr list
       \<Rightarrow> (resolved_frame option list \<times> caches \<times> fronts) outcome" where
  "get_call_stack w now interfere c f chain =
     (if length (backtrace chain (int_of_size INITIAL_FRAMES)) = 0 then Threw
      else let stack = grow_stack chain 0
           in Returned (resolve_stack w now interfere c f stack [1..<length stack]))"

end
