(* ===== verification/FrameReconcile.thy ===== *)
theory FrameReconcile
  imports Prelude
begin

text \<open>
  The rules that find the records of frames that left without their exit hook
  (\<open>include/frameReconcile.h\<close>). They are templates over the record type; here they work on every
  extension of \<open>act_record\<close>. The record stack is the vector, its top at the end. The interface
  \<open>dead_scan\<close> is the contract the hooks rely on: a scan pops records from the top only, and only
  dead ones.
\<close>

section \<open>Identities and stack bounds\<close>

record act_record =
  rec_callee :: addr
  rec_caller :: addr
  rec_level :: addr

record frame_key =
  key_callee :: addr
  key_caller :: addr
  key_level :: addr

record stack_bounds =
  lo :: addr
  hi :: addr
  known :: bool

definition unknown_bounds :: stack_bounds where
  "unknown_bounds = \<lparr>lo = 0, hi = 0, known = False\<rparr>"

definition on_thread_stack :: "stack_bounds \<Rightarrow> addr \<Rightarrow> bool" where
  "on_thread_stack bounds p \<longleftrightarrow> \<not> known bounds \<or> (p \<ge> lo bounds \<and> p < hi bounds)"

definition same_activation_site :: "'a act_record_scheme \<Rightarrow> frame_key \<Rightarrow> bool" where
  "same_activation_site record key \<longleftrightarrow>
     rec_callee record = key_callee key \<and> rec_caller record = key_caller key"

section \<open>Scanning down from the top\<close>

text \<open>The loop both scans share: count records from the top while the test holds.\<close>

function scan_top :: "('r \<Rightarrow> bool) \<Rightarrow> 'r list \<Rightarrow> nat \<Rightarrow> nat" where
  "scan_top test records dead =
     (if dead < length records \<and> test (records ! (length records - 1 - dead))
      then scan_top test records (Suc dead) else dead)"
  by pat_completeness auto
termination
  by (relation "measure (\<lambda>(test, records, dead). length records - dead)") auto

declare scan_top.simps [simp del]

definition dead_on_enter :: "frame_key \<Rightarrow> stack_bounds \<Rightarrow> 'a act_record_scheme \<Rightarrow> bool" where
  "dead_on_enter key bounds record \<longleftrightarrow>
     on_thread_stack bounds (rec_level record) \<and>
     (let deeper = rec_level record < key_level key;
          reused_slot = (rec_level record = key_level key \<and> rec_caller record \<noteq> key_caller key)
      in deeper \<or> reused_slot)"

definition dead_records_on_enter ::
    "'a act_record_scheme list \<Rightarrow> frame_key \<Rightarrow> stack_bounds \<Rightarrow> nat" where
  "dead_records_on_enter records key bounds =
     (if \<not> on_thread_stack bounds (key_level key) then 0
      else scan_top (dead_on_enter key bounds) records 0)"

definition dead_on_catch :: "addr \<Rightarrow> stack_bounds \<Rightarrow> 'a act_record_scheme \<Rightarrow> bool" where
  "dead_on_catch catch_level bounds record \<longleftrightarrow>
     on_thread_stack bounds (rec_level record) \<and> rec_level record < catch_level"

definition dead_records_on_catch ::
    "'a act_record_scheme list \<Rightarrow> addr \<Rightarrow> stack_bounds \<Rightarrow> nat" where
  "dead_records_on_catch records catch_level bounds =
     (if \<not> on_thread_stack bounds catch_level then 0
      else scan_top (dead_on_catch catch_level bounds) records 0)"

section \<open>The record of the frame that exits\<close>

text \<open>\<open>first\<close>: the topmost record with the frame's callee and caller, searched from index \<open>i\<close> down.\<close>

fun topmost_same_site :: "'a act_record_scheme list \<Rightarrow> frame_key \<Rightarrow> nat \<Rightarrow> nat option" where
  "topmost_same_site records key 0 =
     (if same_activation_site (records ! 0) key then Some 0 else None)"
| "topmost_same_site records key (Suc i) =
     (if same_activation_site (records ! Suc i) key then Some (Suc i)
      else topmost_same_site records key i)"

text \<open>The loop for a tail-called hook, from index \<open>i\<close> down: the closest record below the level.\<close>

definition closer_below ::
    "'a act_record_scheme list \<Rightarrow> frame_key \<Rightarrow> nat \<Rightarrow> nat \<Rightarrow> bool \<Rightarrow> bool" where
  "closer_below records key i best found_below \<longleftrightarrow>
     rec_level (records ! i) < key_level key \<and>
     (\<not> found_below \<or> rec_level (records ! i) > rec_level (records ! best))"

fun closest_below ::
    "'a act_record_scheme list \<Rightarrow> frame_key \<Rightarrow> nat \<Rightarrow> nat \<Rightarrow> bool \<Rightarrow> nat" where
  "closest_below records key 0 best found_below =
     (if \<not> same_activation_site (records ! 0) key then best
      else if closer_below records key 0 best found_below then 0 else best)"
| "closest_below records key (Suc i) best found_below =
     (if \<not> same_activation_site (records ! Suc i) key then best
      else if closer_below records key (Suc i) best found_below
           then closest_below records key i (Suc i) True
           else closest_below records key i best found_below)"

text \<open>The loop for a normally called hook, from index \<open>i\<close> down: the record with the level itself.\<close>

fun identical_level :: "'a act_record_scheme list \<Rightarrow> frame_key \<Rightarrow> nat \<Rightarrow> nat \<Rightarrow> nat" where
  "identical_level records key 0 best =
     (if \<not> same_activation_site (records ! 0) key then best
      else if rec_level (records ! 0) = key_level key then 0 else best)"
| "identical_level records key (Suc i) best =
     (if \<not> same_activation_site (records ! Suc i) key then best
      else if rec_level (records ! Suc i) = key_level key then Suc i
      else identical_level records key i best)"

definition exiting_record_index ::
    "'a act_record_scheme list \<Rightarrow> frame_key \<Rightarrow> bool \<Rightarrow> stack_bounds \<Rightarrow> nat" where
  "exiting_record_index records key tail_called bounds =
     (let top = length records - 1
      in if \<not> on_thread_stack bounds (key_level key)
            \<or> \<not> on_thread_stack bounds (rec_level (records ! top)) then top
         else case topmost_same_site records key top of
                None \<Rightarrow> top
              | Some first \<Rightarrow>
                  if tail_called then closest_below records key first first False
                  else identical_level records key first first)"

section \<open>Records that share a level\<close>

fun above_match_from ::
    "'a act_record_scheme list \<Rightarrow> addr \<Rightarrow> ('a act_record_scheme \<Rightarrow> bool) \<Rightarrow> nat \<Rightarrow> nat" where
  "above_match_from records level matches 0 = 0"
| "above_match_from records level matches (Suc i) =
     (if rec_level (records ! i) = level
      then (if matches (records ! i) then length records - 1 - i
            else above_match_from records level matches i)
      else 0)"

definition dead_records_above_match ::
    "'a act_record_scheme list \<Rightarrow> addr \<Rightarrow> ('a act_record_scheme \<Rightarrow> bool) \<Rightarrow> nat" where
  "dead_records_above_match records level matches =
     above_match_from records level matches (length records)"

section \<open>The contract of a scan\<close>

locale dead_scan =
  fixes dead :: "'r list \<Rightarrow> nat"
    and is_dead :: "'r \<Rightarrow> bool"
  assumes dead_le: "dead rs \<le> length rs"
    and only_dead: "r \<in> set (drop (length rs - dead rs) rs) \<Longrightarrow> is_dead r"
begin

lemma live_kept: "r \<in> set rs \<Longrightarrow> \<not> is_dead r \<Longrightarrow> r \<in> set (pop_n (dead rs) rs)"
  using only_dead [of r rs] unfolding pop_n_def
  by (metis Un_iff append_take_drop_id set_append)

lemma kept_subset: "set (pop_n (dead rs) rs) \<subseteq> set rs"
  by (rule set_pop_n)

lemma split_at_dead: "rs = pop_n (dead rs) rs @ drop (length rs - dead rs) rs"
  by (simp add: pop_n_def)

lemma sorted_kept: "sorted_wrt R rs \<Longrightarrow> sorted_wrt R (pop_n (dead rs) rs)"
  by (metis pop_n_def sorted_wrt_take)

lemma all_live_nothing_dead: "\<forall>r \<in> set rs. \<not> is_dead r \<Longrightarrow> dead rs = 0"
proof (rule ccontr)
  assume live: "\<forall>r \<in> set rs. \<not> is_dead r" and "dead rs \<noteq> 0"
  then have "length rs - dead rs < length rs" using dead_le [of rs] by simp
  then have "drop (length rs - dead rs) rs \<noteq> []" by simp
  then obtain r where "r \<in> set (drop (length rs - dead rs) rs)" by (meson list.set_sel(1))
  with live only_dead show False by (meson in_set_dropD)
qed

end

section \<open>The scans against their reference\<close>

lemma scan_top_from:
  "dead \<le> length records \<Longrightarrow>
   scan_top test records dead = dead + count_top test (take (length records - dead) records)"
proof (induction test records dead rule: scan_top.induct)
  case (1 test records dead)
  show ?case
  proof (cases "dead < length records")
    case False
    then show ?thesis using "1.prems" by (subst scan_top.simps) simp
  next
    case True
    let ?i = "length records - 1 - dead"
    have t: "take (length records - dead) records = take ?i records @ [records ! ?i]"
      using True by (metis Suc_diff_Suc diff_Suc_eq_diff_pred diff_less length_greater_0_conv
          list.size(3) not_less_zero take_Suc_conv_app_nth zero_less_Suc diff_commute)
    then show ?thesis
      using 1 True by (subst scan_top.simps) (auto simp: Suc_diff_Suc)
  qed
qed

lemma scan_top_count [simp]: "scan_top test records 0 = count_top test records"
  by (simp add: scan_top_from)

interpretation on_enter: dead_scan "\<lambda>records. dead_records_on_enter records key bounds"
    "dead_on_enter key bounds" for key bounds
  by unfold_locales (auto simp: dead_records_on_enter_def split: if_splits dest: popped_satisfy)

interpretation on_catch: dead_scan "\<lambda>records. dead_records_on_catch records catch_level bounds"
    "dead_on_catch catch_level bounds" for catch_level bounds
  by unfold_locales (auto simp: dead_records_on_catch_def split: if_splits dest: popped_satisfy)

lemma above_match_from_reference:
  "i \<le> length records \<Longrightarrow>
   above_match_from records level matches i =
     (let group = takeWhile (\<lambda>r. rec_level r = level) (rev (take i records))
      in if \<exists>r \<in> set group. matches r
         then length records - i + length (takeWhile (\<lambda>r. \<not> matches r) group) else 0)"
proof (induction i)
  case (Suc i)
  then have t: "rev (take (Suc i) records) = records ! i # rev (take i records)"
    by (simp add: take_Suc_conv_app_nth)
  show ?case
    using Suc by (auto simp: t Let_def)
qed simp

text \<open>The reference of the search by name: the records of the level at the top, above the match.\<close>

definition level_group :: "'a act_record_scheme list \<Rightarrow> addr \<Rightarrow> 'a act_record_scheme list" where
  "level_group records level = takeWhile (\<lambda>r. rec_level r = level) (rev records)"

lemma dead_records_above_match_reference:
  "dead_records_above_match records level matches =
     (if \<exists>r \<in> set (level_group records level). matches r
      then length (takeWhile (\<lambda>r. \<not> matches r) (level_group records level)) else 0)"
  by (simp add: dead_records_above_match_def above_match_from_reference level_group_def Let_def)

lemma takeWhile_takeWhile_conj:
  "takeWhile P (takeWhile Q xs) = takeWhile (\<lambda>x. Q x \<and> P x) xs"
  by (induction xs) auto

lemma dead_records_above_match_count:
  "dead_records_above_match records level matches =
     (if \<exists>r \<in> set (level_group records level). matches r
      then count_top (\<lambda>r. rec_level r = level \<and> \<not> matches r) records else 0)"
  by (simp add: dead_records_above_match_reference count_top_def level_group_def
      takeWhile_takeWhile_conj)

interpretation above_match: dead_scan "\<lambda>records. dead_records_above_match records level matches"
    "\<lambda>r. rec_level r = level \<and> \<not> matches r" for level matches
  by unfold_locales
    (auto simp: dead_records_above_match_count split: if_splits dest: popped_satisfy)

section \<open>Records of one stack are ordered by level\<close>

text \<open>
  The invariant the rules keep on a thread with one stack: levels never increase towards the top.
\<close>

definition levels_sorted :: "'a act_record_scheme list \<Rightarrow> bool" where
  "levels_sorted records \<longleftrightarrow> sorted_wrt (\<lambda>below above. rec_level above \<le> rec_level below) records"

definition all_on_stack :: "stack_bounds \<Rightarrow> 'a act_record_scheme list \<Rightarrow> bool" where
  "all_on_stack bounds records \<longleftrightarrow> (\<forall>r \<in> set records. on_thread_stack bounds (rec_level r))"

lemma levels_sorted_snoc:
  "levels_sorted (rs @ [r]) \<longleftrightarrow> levels_sorted rs \<and> (\<forall>x \<in> set rs. rec_level r \<le> rec_level x)"
  by (auto simp: levels_sorted_def sorted_wrt_append)

lemma levels_sorted_pop [simp]: "levels_sorted rs \<Longrightarrow> levels_sorted (pop_n n rs)"
  by (metis levels_sorted_def pop_n_def sorted_wrt_take)

lemma all_on_stack_snoc [simp]:
  "all_on_stack b (rs @ [r]) \<longleftrightarrow> all_on_stack b rs \<and> on_thread_stack b (rec_level r)"
  by (auto simp: all_on_stack_def)

lemma all_on_stack_pop [simp]: "all_on_stack b rs \<Longrightarrow> all_on_stack b (pop_n n rs)"
  using set_pop_n by (fastforce simp: all_on_stack_def)

lemma filter_all_if_last:
  assumes "levels_sorted (rs @ [r])" "l \<le> rec_level r"
  shows "filter (\<lambda>x. l \<le> rec_level x) rs = rs"
  using assms by (auto simp: levels_sorted_snoc filter_id_conv)

lemma catch_keeps_exactly:
  "levels_sorted rs \<Longrightarrow> all_on_stack b rs \<Longrightarrow>
   pop_n (count_top (dead_on_catch l b) rs) rs = filter (\<lambda>r. l \<le> rec_level r) rs"
proof (induction rs rule: rev_induct)
  case (snoc r rs)
  show ?case
  proof (cases "rec_level r < l")
    case True
    then show ?thesis using snoc by (simp add: levels_sorted_snoc dead_on_catch_def)
  next
    case False
    then show ?thesis
      using snoc.prems filter_all_if_last [of rs r l] by (simp add: dead_on_catch_def)
  qed
qed simp

lemma enter_keeps_above:
  "levels_sorted rs \<Longrightarrow> all_on_stack b rs \<Longrightarrow>
   \<forall>r \<in> set (pop_n (count_top (dead_on_enter key b) rs) rs). key_level key \<le> rec_level r"
proof (induction rs rule: rev_induct)
  case (snoc r rs)
  show ?case
  proof (cases "dead_on_enter key b r")
    case True
    then show ?thesis using snoc by (simp add: levels_sorted_snoc)
  next
    case False
    then have "key_level key \<le> rec_level r"
      using snoc.prems by (auto simp: dead_on_enter_def Let_def)
    then show ?thesis using False snoc.prems by (auto simp: levels_sorted_snoc)
  qed
qed simp

section \<open>Properties\<close>

text \<open>
  C17. Reconciliation at an enter. Only records from the top are popped, and none of a frame that can
  be alive: every record that is not deeper than the entering frame, and not in its stack slot
  with another caller, stays. On one stack with ordered levels nothing deeper than the entering
  frame is left below it, so pushing its record keeps the levels ordered.
\<close>

theorem enter_reconciliation:
  assumes "kept = pop_n (dead_records_on_enter records key bounds) records"
  shows "(\<exists>popped. records = kept @ popped \<and>
            (\<forall>r \<in> set popped. rec_level r < key_level key \<or>
               rec_level r = key_level key \<and> rec_caller r \<noteq> key_caller key)) \<and>
         (levels_sorted records \<and> all_on_stack bounds records \<and>
            on_thread_stack bounds (key_level key) \<and> rec_level new = key_level key \<longrightarrow>
          levels_sorted (kept @ [new]))"
proof
  let ?popped = "drop (length records - dead_records_on_enter records key bounds) records"
  have "records = kept @ ?popped" unfolding assms by (rule on_enter.split_at_dead)
  moreover have "\<forall>r \<in> set ?popped. rec_level r < key_level key \<or>
      rec_level r = key_level key \<and> rec_caller r \<noteq> key_caller key"
    using on_enter.only_dead [of _ records key bounds] by (auto simp: dead_on_enter_def Let_def)
  ultimately show "\<exists>popped. records = kept @ popped \<and>
      (\<forall>r \<in> set popped. rec_level r < key_level key \<or>
         rec_level r = key_level key \<and> rec_caller r \<noteq> key_caller key)" by blast
next
  show "levels_sorted records \<and> all_on_stack bounds records \<and>
      on_thread_stack bounds (key_level key) \<and> rec_level new = key_level key \<longrightarrow>
      levels_sorted (kept @ [new])"
    using enter_keeps_above [of records bounds key]
    by (auto simp: assms dead_records_on_enter_def levels_sorted_snoc)
qed

definition rec3 :: "addr \<Rightarrow> addr \<Rightarrow> addr \<Rightarrow> act_record" where
  "rec3 callee caller level = \<lparr>rec_callee = callee, rec_caller = caller, rec_level = level\<rparr>"

theorem enter_reconciliation_witness:
  "let records = [rec3 1 10 900, rec3 2 20 800, rec3 3 30 700];
       key = \<lparr>key_callee = 4, key_caller = 40, key_level = 800\<rparr>;
       kept = pop_n (dead_records_on_enter records key unknown_bounds) records
   in kept = [rec3 1 10 900] \<and> levels_sorted (kept @ [rec3 4 40 800])"
proof -
  let ?records = "[rec3 1 10 900, rec3 2 20 800, rec3 3 30 700]"
  let ?key = "\<lparr>key_callee = 4, key_caller = 40, key_level = 800\<rparr>"
  have kept: "pop_n (dead_records_on_enter ?records ?key unknown_bounds) ?records = [rec3 1 10 900]"
    by code_simp
  have "levels_sorted ?records \<and> all_on_stack unknown_bounds ?records \<and>
      on_thread_stack unknown_bounds (key_level ?key) \<and> rec_level (rec3 4 40 800) = key_level ?key"
    by (simp add: levels_sorted_def all_on_stack_def on_thread_stack_def unknown_bounds_def rec3_def)
  with enter_reconciliation [OF refl, of ?records ?key unknown_bounds "rec3 4 40 800"] kept
  show ?thesis by simp
qed

text \<open>
  C18. Reconciliation at a catch: on one stack with ordered levels the records kept are exactly those
  at or above the catcher's level, in their order: all frames the exception unwound are reclaimed
  and no other.
\<close>

theorem catch_reconciliation:
  assumes "levels_sorted records" "all_on_stack bounds records"
    and "on_thread_stack bounds catch_level"
  shows "pop_n (dead_records_on_catch records catch_level bounds) records =
           filter (\<lambda>r. catch_level \<le> rec_level r) records"
  using catch_keeps_exactly [OF assms(1,2)] assms(3) by (simp add: dead_records_on_catch_def)

theorem catch_reconciliation_witness:
  "let records = [rec3 1 10 900, rec3 2 20 800, rec3 3 30 700] in
   pop_n (dead_records_on_catch records 800 unknown_bounds) records =
     filter (\<lambda>r. 800 \<le> rec_level r) records"
  unfolding Let_def
  by (rule catch_reconciliation)
    (simp_all add: levels_sorted_def all_on_stack_def on_thread_stack_def unknown_bounds_def rec3_def)

end
