(* ===== verification/LevelRules.thy ===== *)
theory LevelRules
  imports FrontCache FrameReconcile
begin

text \<open>
  The level of the frame that called a hook (\<open>src/trace.cpp\<close>): the unwinder walk that measures how a
  hook site's level derives from the hook's frame, the rule it leaves, and the per-thread memory of
  rules, a map behind a direct-mapped front cache. The parameters are what the machine and the
  unwinder report: the word stored at an address, and the contexts \<open>_Unwind_Backtrace\<close> visits.
\<close>

section \<open>The walk\<close>

record unwind_context =
  ctx_ip :: addr
  ctx_cfa :: addr

record level_search =
  ls_site :: addr
  ls_cfa :: addr
  ls_matched :: bool
  ls_found :: bool

text \<open>One step: the search after it, and whether the walk stops.\<close>

definition level_search_step :: "unwind_context \<Rightarrow> level_search \<Rightarrow> level_search \<times> bool" where
  "level_search_step context search =
     (if ls_matched search
      then (search\<lparr>ls_cfa := ctx_cfa context, ls_found := True\<rparr>, True)
      else (if ctx_ip context = ls_site search then search\<lparr>ls_matched := True\<rparr> else search, False))"

text \<open>\<open>_Unwind_Backtrace\<close> calls the step on each context until it asks to stop.\<close>

fun unwind_backtrace :: "unwind_context list \<Rightarrow> level_search \<Rightarrow> level_search" where
  "unwind_backtrace [] search = search"
| "unwind_backtrace (c # cs) search =
     (let (search', stop) = level_search_step c search
      in if stop then search' else unwind_backtrace cs search')"

section \<open>Rules\<close>

text \<open>\<open>std::int32_t\<close> is a 32-bit word, read as signed when it is added to a pointer.\<close>

record level_rule =
  rule_distance :: "32 word"
  from_saved_frame_pointer :: bool

definition MIN_LEVEL_DISTANCE :: "32 word" where
  "MIN_LEVEL_DISTANCE = 24"

type_synonym memory = "addr \<Rightarrow> addr"

definition saved_frame_pointer :: "memory \<Rightarrow> addr \<Rightarrow> addr" where
  "saved_frame_pointer mem frame = mem frame"

definition apply_level_rule :: "memory \<Rightarrow> level_rule \<Rightarrow> addr \<Rightarrow> addr" where
  "apply_level_rule mem rule frame =
     (let base = (if from_saved_frame_pointer rule then saved_frame_pointer mem frame else frame)
      in base + scast (rule_distance rule))"

definition two_words :: addr where
  "two_words = of_nat (2 * SIZEOF_VOID_P)"

text \<open>The first parameter says whether the library is compiled for x86.\<close>

definition measure_level_rule ::
    "bool \<Rightarrow> stack_bounds \<Rightarrow> memory \<Rightarrow> unwind_context list \<Rightarrow> addr \<Rightarrow> addr \<Rightarrow> level_rule" where
  "measure_level_rule x86 bounds mem contexts site frame =
     (let rule = \<lparr>rule_distance = MIN_LEVEL_DISTANCE, from_saved_frame_pointer = False\<rparr>;
          search = unwind_backtrace contexts
                     \<lparr>ls_site = site, ls_cfa = 0, ls_matched = False, ls_found = False\<rparr>
      in if \<not> ls_found search \<or> ls_cfa search \<le> frame \<or> \<not> on_thread_stack bounds (ls_cfa search)
         then rule
         else if x86 \<and> ls_cfa search = saved_frame_pointer mem frame + two_words
         then rule\<lparr>rule_distance := ucast two_words, from_saved_frame_pointer := True\<rparr>
         else let measured = ls_cfa search - frame
              in if measured > 2147483647 then rule
                 else rule\<lparr>rule_distance := ucast measured\<rparr>)"

section \<open>The thread's memory of rules\<close>

record level_cache_slot =
  slot_site :: addr
  slot_rule :: level_rule

definition LEVEL_CACHE_SLOTS :: nat where
  "LEVEL_CACHE_SLOTS = 256"

definition level_slot :: "addr \<Rightarrow> nat" where
  "level_slot site = unat (drop_bit 2 site) mod LEVEL_CACHE_SLOTS"

definition empty_level_cache :: "level_cache_slot list" where
  "empty_level_cache = replicate LEVEL_CACHE_SLOTS
     \<lparr>slot_site = 0, slot_rule = \<lparr>rule_distance = 0, from_saved_frame_pointer = False\<rparr>\<rparr>"

definition level_cache_get :: "level_cache_slot list \<Rightarrow> addr \<Rightarrow> level_rule option" where
  "level_cache_get c site =
     (let slot = c ! level_slot site in if slot_site slot = site then Some (slot_rule slot) else None)"

definition level_cache_put ::
    "level_cache_slot list \<Rightarrow> addr \<Rightarrow> level_rule \<Rightarrow> level_cache_slot list" where
  "level_cache_put c site rule = c[level_slot site := \<lparr>slot_site = site, slot_rule = rule\<rparr>]"

record level_memory =
  level_rules :: "addr \<Rightarrow> level_rule option"
  level_cache :: "level_cache_slot list"

definition empty_level_memory :: level_memory where
  "empty_level_memory = \<lparr>level_rules = Map.empty, level_cache = empty_level_cache\<rparr>"

text \<open>
  What one call depends on besides the thread's memory: the machine, the unwinder, the stack's
  bounds, and whether the insertion into the map runs out of memory.
\<close>

record level_env =
  on_x86 :: bool
  env_bounds :: stack_bounds
  env_memory :: memory
  env_contexts :: "unwind_context list"
  emplace_fails :: bool

definition measured_rule :: "level_env \<Rightarrow> addr \<Rightarrow> addr \<Rightarrow> level_rule" where
  "measured_rule env site frame =
     measure_level_rule (on_x86 env) (env_bounds env) (env_memory env) (env_contexts env) site frame"

definition frame_level :: "level_env \<Rightarrow> level_memory \<Rightarrow> addr \<Rightarrow> addr \<Rightarrow> addr \<times> level_memory" where
  "frame_level env lm site frame =
     (let slot = level_cache lm ! level_slot site
      in if slot_site slot = site then (apply_level_rule (env_memory env) (slot_rule slot) frame, lm)
         else case level_rules lm site of
           Some rule \<Rightarrow>
             (apply_level_rule (env_memory env) rule frame,
              lm\<lparr>level_cache := level_cache_put (level_cache lm) site rule\<rparr>)
         | None \<Rightarrow>
             (let rule = measured_rule env site frame;
                  rules = (if emplace_fails env then level_rules lm
                           else (level_rules lm)(site \<mapsto> rule))
              in (apply_level_rule (env_memory env) rule frame,
                  lm\<lparr>level_rules := rules, level_cache := level_cache_put (level_cache lm) site rule\<rparr>)))"

definition measured_frame_level :: "level_env \<Rightarrow> addr \<Rightarrow> addr \<Rightarrow> addr" where
  "measured_frame_level env site frame =
     apply_level_rule (env_memory env) (measured_rule env site frame) frame"

section \<open>The front cache of rules as a direct-mapped cache\<close>

definition level_cache_valid :: "level_cache_slot list \<Rightarrow> bool" where
  "level_cache_valid c \<longleftrightarrow> length c = LEVEL_CACHE_SLOTS"

lemma level_slot_bound: "level_cache_valid c \<Longrightarrow> level_slot site < length c"
  by (simp add: level_cache_valid_def level_slot_def LEVEL_CACHE_SLOTS_def)

text \<open>A slot that was never filled holds the null site, which is no hook site.\<close>

interpretation levels: direct_mapped_cache level_cache_get level_cache_put level_cache_valid
    "\<lambda>site. site \<noteq> 0" empty_level_cache
proof
  fix c k k' v v'
  assume c: "level_cache_valid c"
  note r = level_slot_bound [OF c]
  show "level_cache_get (level_cache_put c k v) k = Some v"
    using r by (simp add: level_cache_get_def level_cache_put_def)
  show "level_cache_valid (level_cache_put c k v)"
    using c by (simp add: level_cache_valid_def level_cache_put_def)
  assume "k' \<noteq> k" "level_cache_get (level_cache_put c k v) k' = Some v'"
  then show "level_cache_get c k' = Some v'"
    using r by (auto simp: level_cache_get_def level_cache_put_def Let_def nth_list_update
        split: if_splits)
next
  show "level_cache_valid empty_level_cache"
    by (simp add: level_cache_valid_def empty_level_cache_def)
  then show "level_cache_get empty_level_cache k = None" if "k \<noteq> 0" for k
    using level_slot_bound [of empty_level_cache k] that
    by (simp add: level_cache_get_def empty_level_cache_def)
qed

text \<open>
  A lookup of the code is a lookup through the cache, followed by a measurement when both miss.
\<close>

lemma frame_level_through:
  "frame_level env lm site frame =
     (case lookup_through level_cache_get level_cache_put (level_cache lm) (level_rules lm) site of
        (Some rule, c) \<Rightarrow> (apply_level_rule (env_memory env) rule frame, lm\<lparr>level_cache := c\<rparr>)
      | (None, c) \<Rightarrow>
          (measured_frame_level env site frame,
           lm\<lparr>level_rules := (if emplace_fails env then level_rules lm
                             else (level_rules lm)(site \<mapsto> measured_rule env site frame)),
              level_cache := level_cache_put c site (measured_rule env site frame)\<rparr>))"
  by (simp add: frame_level_def lookup_through_def level_cache_get_def measured_frame_level_def
      Let_def split: option.split)

section \<open>The rules of a sequence of calls\<close>

record level_call =
  call_env :: level_env
  call_site :: addr
  call_frame :: addr

fun level_calls :: "level_memory \<Rightarrow> level_call list \<Rightarrow> addr list \<times> level_memory" where
  "level_calls lm [] = ([], lm)"
| "level_calls lm (c # cs) =
     (let (level, lm') = frame_level (call_env c) lm (call_site c) (call_frame c);
          (levels, lm'') = level_calls lm' cs
      in (level # levels, lm''))"

text \<open>The reference: every site keeps the rule measured at its first call.\<close>

fun first_rules :: "(addr \<Rightarrow> level_rule option) \<Rightarrow> level_call list \<Rightarrow> addr list" where
  "first_rules seen [] = []"
| "first_rules seen (c # cs) =
     (let rule = (case seen (call_site c) of
                    Some r \<Rightarrow> r
                  | None \<Rightarrow> measured_rule (call_env c) (call_site c) (call_frame c))
      in apply_level_rule (env_memory (call_env c)) rule (call_frame c)
           # first_rules (seen(call_site c \<mapsto> rule)) cs)"

definition level_memory_ok :: "level_memory \<Rightarrow> bool" where
  "level_memory_ok lm \<longleftrightarrow>
     level_cache_valid (level_cache lm) \<and>
     cache_agrees level_cache_get (\<lambda>site. site \<noteq> 0) (level_cache lm) (level_rules lm)"

lemma empty_level_memory_ok: "level_memory_ok empty_level_memory"
  by (simp add: level_memory_ok_def empty_level_memory_def levels.valid_empty levels.agrees_empty)

lemma frame_level_step:
  assumes "level_memory_ok lm" "site \<noteq> 0" "\<not> emplace_fails env"
    and rule_def: "rule = (case level_rules lm site of
                            Some r \<Rightarrow> r | None \<Rightarrow> measured_rule env site frame)"
  shows "fst (frame_level env lm site frame) = apply_level_rule (env_memory env) rule frame"
    and "level_memory_ok (snd (frame_level env lm site frame))"
    and "level_rules (snd (frame_level env lm site frame)) = (level_rules lm)(site \<mapsto> rule)"
proof -
  let ?l = "lookup_through level_cache_get level_cache_put (level_cache lm) (level_rules lm) site"
  have valid: "level_cache_valid (level_cache lm)"
    and agrees: "cache_agrees level_cache_get (\<lambda>site. site \<noteq> 0) (level_cache lm) (level_rules lm)"
    using assms(1) by (simp_all add: level_memory_ok_def)
  note l = levels.lookup_through_correct [OF valid assms(2) agrees]
  have "fst (frame_level env lm site frame) = apply_level_rule (env_memory env) rule frame \<and>
        level_memory_ok (snd (frame_level env lm site frame)) \<and>
        level_rules (snd (frame_level env lm site frame)) = (level_rules lm)(site \<mapsto> rule)"
  proof (cases "level_rules lm site")
    case (Some r)
    then show ?thesis
      using l by (cases ?l) (auto simp: frame_level_through rule_def level_memory_ok_def fun_upd_idem)
  next
    case None
    let ?m = "measured_rule env site frame"
    let ?rules = "(level_rules lm)(site \<mapsto> ?m)"
    obtain c where c: "?l = (None, c)" using l(1) None by (cases ?l) auto
    have "level_rules lm \<subseteq>\<^sub>m ?rules" using None by (auto simp: map_le_def)
    then have "cache_agrees level_cache_get (\<lambda>site. site \<noteq> 0) c ?rules"
      using l(3) c by (auto intro: levels.agrees_mono)
    then have "cache_agrees level_cache_get (\<lambda>site. site \<noteq> 0) (level_cache_put c site ?m) ?rules"
      using l(2) c by (intro levels.agrees_store) auto
    then show ?thesis
      using None c l(2) assms(3)
      by (simp add: frame_level_through rule_def level_memory_ok_def levels.valid_store
          measured_frame_level_def)
  qed
  then show "fst (frame_level env lm site frame) = apply_level_rule (env_memory env) rule frame"
    and "level_memory_ok (snd (frame_level env lm site frame))"
    and "level_rules (snd (frame_level env lm site frame)) = (level_rules lm)(site \<mapsto> rule)"
    by blast+
qed

lemma level_calls_first:
  "level_memory_ok lm \<Longrightarrow> \<forall>c \<in> set cs. call_site c \<noteq> 0 \<and> \<not> emplace_fails (call_env c) \<Longrightarrow>
   fst (level_calls lm cs) = first_rules (level_rules lm) cs"
proof (induction cs arbitrary: lm)
  case (Cons c cs)
  let ?s = "frame_level (call_env c) lm (call_site c) (call_frame c)"
  have c: "call_site c \<noteq> 0" "\<not> emplace_fails (call_env c)" using Cons.prems(2) by simp_all
  note step = frame_level_step [OF Cons.prems(1) c refl, of "call_frame c"]
  have "fst (level_calls (snd ?s) cs) = first_rules (level_rules (snd ?s)) cs"
    using step(2) Cons.prems(2) by (intro Cons.IH) auto
  then show ?case by (simp add: case_prod_beta Let_def step(1,3))
qed simp

section \<open>What a measured rule gives\<close>

text \<open>The CFA of the frame resuming at the site, as the context after it reports it.\<close>

fun cfa_after :: "addr \<Rightarrow> unwind_context list \<Rightarrow> addr option" where
  "cfa_after site (c # c' # cs) =
     (if ctx_ip c = site then Some (ctx_cfa c') else cfa_after site (c' # cs))"
| "cfa_after site _ = None"

lemma unwind_backtrace_matched:
  "ls_matched s \<Longrightarrow>
   unwind_backtrace cs s = (case cs of [] \<Rightarrow> s | c # _ \<Rightarrow> s\<lparr>ls_cfa := ctx_cfa c, ls_found := True\<rparr>)"
  by (cases cs) (simp_all add: level_search_step_def)

lemma cfa_after_Cons:
  "cfa_after site (c # cs) =
     (if ctx_ip c = site then (case cs of [] \<Rightarrow> None | c' # _ \<Rightarrow> Some (ctx_cfa c'))
      else cfa_after site cs)"
  by (cases cs) simp_all

lemma unwind_backtrace_cfa:
  "\<not> ls_matched s \<Longrightarrow> \<not> ls_found s \<Longrightarrow>
   (if ls_found (unwind_backtrace cs s) then Some (ls_cfa (unwind_backtrace cs s)) else None) =
     cfa_after (ls_site s) cs"
proof (induction cs)
  case (Cons c cs)
  then show ?case
    by (cases "ctx_ip c = ls_site s")
      (auto simp: level_search_step_def unwind_backtrace_matched cfa_after_Cons split: list.split)
qed simp

definition plausible_cfa :: "bool \<Rightarrow> stack_bounds \<Rightarrow> memory \<Rightarrow> addr \<Rightarrow> addr \<Rightarrow> bool" where
  "plausible_cfa x86 bounds mem frame cfa \<longleftrightarrow>
     cfa > frame \<and> on_thread_stack bounds cfa \<and>
     (cfa - frame \<le> 2147483647 \<or> (x86 \<and> cfa = mem frame + two_words))"

lemma scast_ucast_int32: "(w :: addr) \<le> 2147483647 \<Longrightarrow> scast (ucast w :: 32 word) = w"
proof -
  assume "w \<le> 2147483647"
  then have w: "uint w \<le> 2147483647" by (simp add: word_le_def)
  have "sint (ucast w :: 32 word) = uint w"
  proof -
    have "- (2 ^ 31) \<le> uint w" using order_trans [OF _ uint_nonnegative [of w]] by simp
    with w have "signed_take_bit 31 (uint w) = uint w"
      by (intro signed_take_bit_int_eq_self) simp_all
    then show ?thesis by (simp add: signed_ucast_eq)
  qed
  then show "scast (ucast w :: 32 word) = w"
    by (metis scast_eq word_of_int_uint)
qed

section \<open>Properties\<close>

text \<open>
  C23. What a fresh measurement gives, in every case: the CFA of the frame that resumes at the hook
  site when the unwinder reports one that lies above the hook's frame, on the thread's stack and
  at a distance the rule can hold; otherwise the smallest level the frame can have.
\<close>

theorem measured_level_exact:
  "measured_frame_level env site frame =
     (case cfa_after site (env_contexts env) of
        Some cfa \<Rightarrow>
          if plausible_cfa (on_x86 env) (env_bounds env) (env_memory env) frame cfa then cfa
          else frame + 24
      | None \<Rightarrow> frame + 24)"
proof -
  let ?s = "unwind_backtrace (env_contexts env)
      \<lparr>ls_site = site, ls_cfa = 0, ls_matched = False, ls_found = False\<rparr>"
  have walk: "(if ls_found ?s then Some (ls_cfa ?s) else None) = cfa_after site (env_contexts env)"
    using unwind_backtrace_cfa by simp
  have min: "(scast MIN_LEVEL_DISTANCE :: addr) = 24"
    by (simp add: MIN_LEVEL_DISTANCE_def)
  have two: "(scast (ucast two_words :: 32 word) :: addr) = two_words"
    by (rule scast_ucast_int32) (simp add: two_words_def SIZEOF_VOID_P_def)
  show ?thesis
  proof (cases "ls_found ?s")
    case False
    then show ?thesis
      using walk [symmetric]
      by (simp add: measured_frame_level_def measured_rule_def measure_level_rule_def
          apply_level_rule_def min)
  next
    case True
    then show ?thesis
      using walk [symmetric] scast_ucast_int32 [of "ls_cfa ?s - frame"]
      by (auto simp: measured_frame_level_def measured_rule_def measure_level_rule_def Let_def
          apply_level_rule_def min two plausible_cfa_def saved_frame_pointer_def not_less)
  qed
qed

text \<open>
  C24. Levels are measured once per hook site: over any sequence of hook calls of a thread that
  does not run out of memory, every level follows the rule measured at the first call from its
  site, whatever the front cache and the map evicted or kept in between.
\<close>

theorem levels_follow_first_measurement:
  assumes "\<forall>c \<in> set calls. call_site c \<noteq> 0 \<and> \<not> emplace_fails (call_env c)"
  shows "fst (level_calls empty_level_memory calls) = first_rules Map.empty calls"
  using level_calls_first [OF empty_level_memory_ok assms] by (simp add: empty_level_memory_def)

definition sample_level_env :: "addr \<Rightarrow> level_env" where
  "sample_level_env cfa =
     \<lparr>on_x86 = False, env_bounds = unknown_bounds, env_memory = (\<lambda>_. 0),
      env_contexts = [\<lparr>ctx_ip = 64, ctx_cfa = 0\<rparr>, \<lparr>ctx_ip = 80, ctx_cfa = cfa\<rparr>],
      emplace_fails = False\<rparr>"

text \<open>Two sites that share a slot, and the first again: it keeps its first rule.\<close>

theorem levels_follow_first_measurement_witness:
  "let calls = [\<lparr>call_env = sample_level_env 1064, call_site = 64, call_frame = 1000\<rparr>,
                \<lparr>call_env = sample_level_env 1064, call_site = 1088, call_frame = 1000\<rparr>,
                \<lparr>call_env = sample_level_env 5000, call_site = 64, call_frame = 2000\<rparr>]
   in level_slot 64 = level_slot 1088 \<and>
      fst (level_calls empty_level_memory calls) = first_rules Map.empty calls \<and>
      first_rules Map.empty calls = [1064, 1024, 2064]"
proof -
  let ?calls = "[\<lparr>call_env = sample_level_env 1064, call_site = 64, call_frame = 1000\<rparr>,
                \<lparr>call_env = sample_level_env 1064, call_site = 1088, call_frame = 1000\<rparr>,
                \<lparr>call_env = sample_level_env 5000, call_site = 64, call_frame = 2000\<rparr>] :: level_call list"
  have "fst (level_calls empty_level_memory ?calls) = first_rules Map.empty ?calls"
    by (rule levels_follow_first_measurement) (simp add: sample_level_env_def)
  moreover have "first_rules Map.empty ?calls = [1064, 1024, 2064]" by code_simp
  moreover have "level_slot 64 = level_slot 1088" by code_simp
  ultimately show ?thesis by simp
qed

end
