(* ===== verification/DurationFormat.thy ===== *)
theory DurationFormat
  imports Prelude
begin

text \<open>
  The duration column of a trace line (\<open>include/durationFormat.h\<close>): the fixed-width words written
  into it, the flag byte, and \<open>format_duration_12chars\<close>, with the lemmas that every path yields
  exactly twelve bytes, that byte 1 is free for a flag and that the field can be read back to the
  truncated duration.
\<close>

section \<open>The words of the column\<close>

definition DURATION_FIELD_WIDTH :: nat where
  [width_defs]: "DURATION_FIELD_WIDTH = 12"

definition DURATION_PLACEHOLDER :: string where
  "DURATION_PLACEHOLDER = ''[  pending ]''"

definition DURATION_SATURATION :: string where
  "DURATION_SATURATION = ''[  >999.9s ]''"

definition DURATION_UNWOUND :: string where
  "DURATION_UNWOUND = ''[  unwound ]''"

definition DURATION_EVENT_THROW :: string where
  "DURATION_EVENT_THROW = ''[  throw   ]''"

definition DURATION_EVENT_RETHROW :: string where
  "DURATION_EVENT_RETHROW = ''[ rethrow  ]''"

definition DURATION_EVENT_CATCH :: string where
  "DURATION_EVENT_CATCH = ''[  catch   ]''"

definition DURATION_EVENT_TERMINATE :: string where
  "DURATION_EVENT_TERMINATE = ''[ terminate]''"

lemmas duration_words = DURATION_PLACEHOLDER_def DURATION_SATURATION_def DURATION_UNWOUND_def
  DURATION_EVENT_THROW_def DURATION_EVENT_RETHROW_def DURATION_EVENT_CATCH_def
  DURATION_EVENT_TERMINATE_def

lemma length_duration_words [len_simps]:
  "length DURATION_PLACEHOLDER = DURATION_FIELD_WIDTH"
  "length DURATION_SATURATION = DURATION_FIELD_WIDTH"
  "length DURATION_UNWOUND = DURATION_FIELD_WIDTH"
  "length DURATION_EVENT_THROW = DURATION_FIELD_WIDTH"
  "length DURATION_EVENT_RETHROW = DURATION_FIELD_WIDTH"
  "length DURATION_EVENT_CATCH = DURATION_FIELD_WIDTH"
  "length DURATION_EVENT_TERMINATE = DURATION_FIELD_WIDTH"
  by (simp_all add: duration_words width_defs)

section \<open>Formatting\<close>

definition set_duration_flag :: "string \<Rightarrow> char \<Rightarrow> string" where
  "set_duration_flag field flag = field[1 := flag]"

text \<open>
  The \<open>snprintf\<close> of the field and the check of its return value. The buffer holds thirteen bytes; a
  text of any other length than twelve is replaced by the saturation word.
\<close>

definition duration_field :: "u64 \<Rightarrow> u64 \<Rightarrow> string \<Rightarrow> string" where
  "duration_field whole frac unit =
     (let text = ''['' @ pad_left CHR '' '' 4 (dec (unat whole)) @ ''.''
                  @ pad_left CHR ''0'' 3 (dec (unat frac)) @ unit @ '']'';
          written = snprintf_ret text
      in if written \<noteq> int DURATION_FIELD_WIDTH then DURATION_SATURATION else text)"

definition format_duration_12chars :: "u64 \<Rightarrow> string" where
  "format_duration_12chars ns =
     (if ns < 1000 then duration_field ns 0 ''ns''
      else if ns < 1000000 then duration_field (ns div 1000) (ns mod 1000) ''us''
      else if ns < 1000000000 then
        duration_field (ns div 1000000) (ns mod 1000000 div 1000) ''ms''
      else if ns < 1000000000000 then
        duration_field (ns div 1000000000) (ns mod 1000000000 div 1000000) ''s ''
      else DURATION_SATURATION)"

section \<open>Reading a field back\<close>

text \<open>
  Nanoseconds per thousandth of the unit a field is printed in, and the value a field of the four
  units shows, as a reader of the trace takes it.
\<close>

fun unit_resolution :: "string \<Rightarrow> nat option" where
  "unit_resolution u =
     (if u = ''us'' then Some 1 else if u = ''ms'' then Some 1000
      else if u = ''s '' then Some 1000000 else None)"

definition read_number :: "string \<Rightarrow> nat" where
  "read_number s = value_in 10 (dropWhile (\<lambda>c. c = CHR '' '') s)"

definition read_duration :: "string \<Rightarrow> nat option" where
  "read_duration field =
     (let whole = read_number (take 4 (drop 1 field));
          frac = value_in 10 (take 3 (drop 6 field));
          unit = take 2 (drop 9 field)
      in if unit = ''ns'' then Some whole
         else map_option (\<lambda>r. (whole * 1000 + frac) * r) (unit_resolution unit))"

definition duration_resolution :: "u64 \<Rightarrow> nat" where
  "duration_resolution ns =
     (if ns < 1000000 then 1 else if ns < 1000000000 then 1000 else 1000000)"

lemma dropWhile_spaces_dec: "dropWhile (\<lambda>c. c = CHR '' '') (pad_left CHR '' '' w (dec n)) = dec n"
proof -
  have "dropWhile (\<lambda>c. c = CHR '' '') (replicate k CHR '' '' @ dec n) = dec n" for k
  proof (induction k)
    case 0
    obtain c s where cs: "dec n = c # s" by (cases "dec n") (auto dest: arg_cong [of _ _ length])
    then have "c \<noteq> CHR '' ''" using dec_chars [of c n] by simp
    with cs show ?case by simp
  qed simp
  then show ?thesis by (simp add: pad_left_def)
qed

lemma read_number_pad [simp]: "read_number (pad_left CHR '' '' w (dec n)) = n"
  by (simp add: read_number_def dropWhile_spaces_dec)

lemma value_pad_zero [simp]: "value_in 10 (pad_left CHR ''0'' w (dec n)) = n"
proof -
  have z: "foldl (\<lambda>a c. a * 10 + digit_value c) 0 (replicate k CHR ''0'') = 0" for k
    by (induction k) (simp_all add: digit_value_def)
  show ?thesis
    using value_dec [of n] by (simp add: value_in_def pad_left_def z)
qed

text \<open>With both parts below 1000 the belt-and-suspenders check never fires.\<close>

lemma duration_field_text:
  assumes "unat whole < 1000" "unat frac < 1000" "length unit = 2"
  shows "duration_field whole frac unit =
           ''['' @ pad_left CHR '' '' 4 (dec (unat whole)) @ ''.''
             @ pad_left CHR ''0'' 3 (dec (unat frac)) @ unit @ '']''"
    and "length (pad_left CHR '' '' 4 (dec (unat whole))) = 4"
    and "length (pad_left CHR ''0'' 3 (dec (unat frac))) = 3"
proof -
  have "length (dec (unat whole)) \<le> 3" "length (dec (unat frac)) \<le> 3"
    using assms length_dec_le [of _ 3] by auto
  then show l4: "length (pad_left CHR '' '' 4 (dec (unat whole))) = 4"
    and l3: "length (pad_left CHR ''0'' 3 (dec (unat frac))) = 3"
    by (simp_all add: length_pad_left)
  show "duration_field whole frac unit =
           ''['' @ pad_left CHR '' '' 4 (dec (unat whole)) @ ''.''
             @ pad_left CHR ''0'' 3 (dec (unat frac)) @ unit @ '']''"
    using l4 l3 assms(3)
    by (simp add: duration_field_def snprintf_ret_def INT_MAX_def DURATION_FIELD_WIDTH_def)
qed

lemma length_duration_field [len_simps]:
  "length (duration_field whole frac unit) = DURATION_FIELD_WIDTH"
  by (auto simp: duration_field_def Let_def snprintf_ret_def len_simps split: if_splits)

lemma read_duration_field:
  assumes "unat whole < 1000" "unat frac < 1000" "length unit = 2"
  shows "read_duration (duration_field whole frac unit) =
           (if unit = ''ns'' then Some (unat whole)
            else map_option (\<lambda>r. (unat whole * 1000 + unat frac) * r) (unit_resolution unit))"
proof -
  note shown = duration_field_text [OF assms]
  obtain a b where unit: "unit = [a, b]"
    using assms(3) by (auto simp: length_Suc_conv numeral_2_eq_2)
  let ?w = "pad_left CHR '' '' 4 (dec (unat whole))" and ?f = "pad_left CHR ''0'' 3 (dec (unat frac))"
  have "take 4 (drop 1 (''['' @ ?w @ ''.'' @ ?f @ unit @ '']'')) = ?w"
    using shown(2) by simp
  moreover have "take 3 (drop 6 (''['' @ ?w @ ''.'' @ ?f @ unit @ '']'')) = ?f"
    using shown(2,3) by (simp add: drop_Cons numeral_eq_Suc)
  moreover have "take 2 (drop 9 (''['' @ ?w @ ''.'' @ ?f @ unit @ '']'')) = unit"
    using shown(2,3) unit by (simp add: drop_Cons numeral_eq_Suc)
  ultimately show ?thesis
    by (simp only: shown(1) read_duration_def Let_def read_number_pad value_pad_zero)
qed

lemma duration_field_byte_1:
  assumes "unat whole < 1000"
  shows "duration_field whole frac unit ! 1 = CHR '' ''"
proof -
  have "length (dec (unat whole)) \<le> 3"
    using assms length_dec_le [of _ 3] by auto
  then obtain k where "4 - length (dec (unat whole)) = Suc k" by (cases "4 - length (dec (unat whole))") auto
  then show ?thesis
    by (simp add: duration_field_def Let_def pad_left_def DURATION_SATURATION_def)
qed

lemmas word_range = word_less_nat_alt word_le_nat_alt unat_div_distrib unat_mod_distrib

text \<open>The bounds the header comment claims for the parts in every unit.\<close>

lemma duration_parts:
  fixes ns :: u64
  shows "ns < 1000 \<Longrightarrow> unat ns < 1000"
    and "ns < 1000000 \<Longrightarrow> unat (ns div 1000) < 1000"
    and "unat (ns mod 1000) < 1000"
    and "ns < 1000000000 \<Longrightarrow> unat (ns div 1000000) < 1000"
    and "unat (ns mod 1000000 div 1000) < 1000"
    and "ns < 1000000000000 \<Longrightarrow> unat (ns div 1000000000) < 1000"
    and "unat (ns mod 1000000000 div 1000000) < 1000"
  by (simp_all add: word_range less_mult_imp_div_less)

lemma scaled_parts: "0 < b \<Longrightarrow>
   b * 1000 * (a div (b * 1000)) + a mod (b * 1000) div b * b = a div b * (b::nat)"
proof -
  assume "0 < b"
  then have "a div (b * 1000) * 1000 + a mod (b * 1000) div b = a div b"
    by (simp add: div_mult2_eq mod_mult2_eq)
  from arg_cong [OF this, of "\<lambda>x. x * b"] show ?thesis
    by (simp add: algebra_simps)
qed

lemma length_format_duration [len_simps]: "length (format_duration_12chars ns) = DURATION_FIELD_WIDTH"
  by (simp add: format_duration_12chars_def len_simps)

lemma format_duration_printable: "newline \<notin> set (format_duration_12chars ns)"
proof -
  have "newline \<notin> set (duration_field whole frac unit)" if "newline \<notin> set unit" for whole frac unit
  proof -
    have "newline \<notin> set (pad_left c w (dec n))" if "c \<noteq> newline" for c w n
      using that dec_chars [of newline n] set_pad_left [of c w "dec n"] by auto
    then have "newline \<notin> set (pad_left CHR '' '' 4 (dec (unat whole)))"
      "newline \<notin> set (pad_left CHR ''0'' 3 (dec (unat frac)))" by (simp_all add: newline_def)
    with that show ?thesis by (simp add: duration_field_def Let_def DURATION_SATURATION_def newline_def)
  qed
  then show ?thesis
    by (simp add: format_duration_12chars_def newline_def DURATION_SATURATION_def)
qed

section \<open>Properties\<close>

text \<open>
  Width invariant: whatever the 64-bit nanosecond count, the field has exactly
  \<open>DURATION_FIELD_WIDTH\<close> bytes, and its byte 1 is a space, so that setting the end-of-frame flag there
  changes no other byte and keeps the width. The in-place patch of a line relies on both.
\<close>

theorem format_duration_width:
  "length (format_duration_12chars ns) = DURATION_FIELD_WIDTH \<and>
   format_duration_12chars ns ! 1 = CHR '' '' \<and>
   length (set_duration_flag (format_duration_12chars ns) flag) = DURATION_FIELD_WIDTH \<and>
   set_duration_flag (format_duration_12chars ns) flag ! 1 = flag"
proof -
  have len: "length (format_duration_12chars ns) = DURATION_FIELD_WIDTH"
    by (simp add: format_duration_12chars_def len_simps)
  moreover have "format_duration_12chars ns ! 1 = CHR '' ''"
    by (auto simp: format_duration_12chars_def DURATION_SATURATION_def
        intro!: duration_field_byte_1 duration_parts simp del: One_nat_def)
  ultimately show ?thesis
    by (simp add: set_duration_flag_def width_defs)
qed

text \<open>
  C34. Round trip: the field of a duration below 1000 seconds reads back to the duration truncated to
  the resolution of its unit (nanoseconds up to a millisecond, then microseconds, then
  milliseconds), never rounded up.
\<close>

theorem format_duration_readback:
  assumes "ns < 1000000000000"
  shows "read_duration (format_duration_12chars ns) =
           Some (unat ns div duration_resolution ns * duration_resolution ns)"
proof -
  have ms: "1000000 * (a div 1000000) + a mod 1000000 div 1000 * 1000 = a div 1000 * 1000"
    for a :: nat using scaled_parts [of 1000 a] by simp
  have s: "1000000000 * (a div 1000000000) + a mod 1000000000 div 1000000 * 1000000
             = a div 1000000 * 1000000"
    for a :: nat using scaled_parts [of 1000000 a] by simp
  consider "ns < 1000" | "\<not> ns < 1000" "ns < 1000000" | "\<not> ns < 1000000" "ns < 1000000000"
    | "\<not> ns < 1000000000" by (auto simp: word_range)
  then show ?thesis
  proof cases
    case 1
    then show ?thesis
      by (simp add: format_duration_12chars_def duration_resolution_def read_duration_field
          duration_parts word_range)
  next
    case 2
    then show ?thesis
      using duration_parts [of ns]
      by (simp add: format_duration_12chars_def duration_resolution_def read_duration_field)
        (simp add: word_range)
  next
    case 3
    then have "\<not> ns < 1000" by (simp add: word_range)
    with 3 show ?thesis
      using duration_parts [of ns]
      by (simp add: format_duration_12chars_def duration_resolution_def read_duration_field)
        (simp add: word_range ms)
  next
    case 4
    then have "\<not> ns < 1000" "\<not> ns < 1000000" by (simp_all add: word_range)
    with 4 assms show ?thesis
      using duration_parts [of ns]
      by (simp add: format_duration_12chars_def duration_resolution_def read_duration_field)
        (simp add: word_range s)
  qed
qed

theorem format_duration_readback_witness:
  "(1234567 :: u64) < 1000000000000 \<and>
   read_duration (format_duration_12chars 1234567) =
     Some (unat (1234567 :: u64) div duration_resolution 1234567 * duration_resolution 1234567)"
proof -
  have h: "(1234567 :: u64) < 1000000000000" by simp
  show ?thesis using h format_duration_readback [OF h] by blast
qed

end
