(* ===== verification/EventFormat.thy ===== *)
theory EventFormat
  imports LineFormat DurationFormat
begin

text \<open>
  Exception event lines (\<open>include/eventFormat.h\<close>): the sanitised \<open>what()\<close> text, the event and its
  rendering with the layout of a call line.
\<close>

section \<open>The text of what()\<close>

definition WHAT_TEXT_CAPACITY :: nat where
  [width_defs]: "WHAT_TEXT_CAPACITY = 128"

definition ELLIPSIS :: string where
  "ELLIPSIS = ''...''"

definition is_control :: "char \<Rightarrow> bool" where
  "is_control c \<longleftrightarrow> (of_char c :: nat) < 0x20 \<or> (of_char c :: nat) = 0x7f"

definition display_char :: "char \<Rightarrow> char" where
  "display_char c = (if is_control c then CHR '' '' else c)"

definition sanitize_what_into :: "string option \<Rightarrow> nat \<Rightarrow> string" where
  "sanitize_what_into what cap =
     (if cap = 0 then []
      else case what of
        None \<Rightarrow> []
      | Some w \<Rightarrow>
          let limit = cap - 1;
              cut = length w > limit;
              copied = (if cut
                        then (if limit > length ELLIPSIS then limit - length ELLIPSIS else limit)
                        else length w);
              out = map display_char (take copied w)
          in if cut \<and> limit > length ELLIPSIS then out @ ELLIPSIS else out)"

section \<open>Event lines\<close>

record event_line =
  ev_timestamp :: string
  site_address :: "addr option"
  ev_depth :: int
  verb :: string
  type_name :: string
  what_text :: "string option"
  site_label :: string
  site_file :: "string option"
  site_line :: "u32 option"
  suffix :: string

definition quoted_what :: "event_line \<Rightarrow> string" where
  "quoted_what event =
     (case what_text event of None \<Rightarrow> [] | Some w \<Rightarrow> '' '' @ [CHR 0x22] @ w @ [CHR 0x22])"

text \<open>
  The six \<open>snprintf\<close> calls of the code differ in whether there is a \<open>what()\<close> text and in what is
  known of the site.
\<close>

definition event_text :: "event_line \<Rightarrow> string" where
  "event_text event =
     verb event @ '' '' @ type_name event @ quoted_what event @ ''  ('' @ site_label event @
     (case site_file event of
        None \<Rightarrow> []
      | Some file \<Rightarrow> '': '' @ c_str file @ '':'' @
          (case site_line event of Some line \<Rightarrow> dec (unat line) | None \<Rightarrow> ''???'')) @
     suffix event @ '')''"

definition event_line_start :: "nat \<Rightarrow> event_line \<Rightarrow> string \<Rightarrow> line_state" where
  "event_line_start cap event after =
     (let st = tree_levels 1 (ev_depth event)
                 (line_prefix cap (ev_timestamp event) after (site_address event))
      in if snd st > TREE_SEGMENT_WIDTH then put_segment ''!! '' st else st)"

definition format_event_into :: "nat \<Rightarrow> event_line \<Rightarrow> string \<Rightarrow> bool \<Rightarrow> string" where
  "format_event_into cap event after_timestamp append_newline =
     (if cap = 0 then []
      else
        let st = event_line_start cap event after_timestamp;
            out = (if snd st > 0 then put_clamped (event_text event) st else fst st)
        in if append_newline then out @ [newline] else out)"

definition format_event :: "event_line \<Rightarrow> string \<Rightarrow> bool \<Rightarrow> string" where
  "format_event event after_timestamp append_newline =
     format_event_into FORMAT_BUF_SIZE event after_timestamp append_newline"

section \<open>Lemmas\<close>

lemma display_char_printable [simp]: "\<not> is_control (display_char c)"
  by (simp add: display_char_def is_control_def)

lemma display_char_id: "\<not> is_control c \<Longrightarrow> display_char c = c"
  by (simp add: display_char_def)

lemma newline_is_control: "is_control newline"
  by (simp add: is_control_def newline_def)

lemma event_line_start_ok: "capacity_ok cap \<Longrightarrow> line_ok cap (event_line_start cap event after)"
  by (auto simp: event_line_start_def Let_def put_segment_ok tree_levels_ok line_prefix_ok)

lemma format_event_into_start:
  "capacity_ok cap \<Longrightarrow>
   format_event_into cap event after nl =
     put_clamped (event_text event) (event_line_start cap event after)
       @ (if nl then [newline] else [])"
  using event_line_start_ok [of cap event after]
  by (simp add: format_event_into_def Let_def line_ok_def capacity_ok_def)

text \<open>Every byte of a line comes from one of the texts it is built of.\<close>

lemma set_put_text: "set (fst (put_text t st)) \<subseteq> set (fst st) \<union> set t"
  by (auto simp: put_text_def Let_def)

lemma set_put_clamped: "set (put_clamped t st) \<subseteq> set (fst st) \<union> set t"
  by (auto simp: put_clamped_def Let_def dest: in_set_takeD)

lemma set_tree_levels: "set (fst (tree_levels i depth st)) \<subseteq> set (fst st) \<union> {CHR ''|'', CHR '' ''}"
proof (induction i depth st rule: tree_levels.induct)
  case (1 i depth st)
  then show ?case by (subst tree_levels.simps) (auto simp: put_segment_def)
qed

lemma set_line_prefix:
  "set (fst (line_prefix cap ts after address)) \<subseteq>
     set ts \<union> set after \<union> set (address_text address) \<union> set ''[] ''"
proof -
  define st1 where "st1 = put_text (''['' @ ts @ ''] '') ([], int_of_size cap)"
  define st2 where "st2 = (if after \<noteq> [] \<and> snd st1 > 0 then put_text after st1 else st1)"
  have s1: "set (fst st1) \<subseteq> set ts \<union> set ''[] ''"
    using set_put_text [of "''['' @ ts @ ''] ''" "([], int_of_size cap)"] by (auto simp: st1_def)
  have s2: "set (fst st2) \<subseteq> set ts \<union> set after \<union> set ''[] ''"
    using s1 set_put_text [of after st1] by (auto simp: st2_def)
  have eq: "line_prefix cap ts after address =
      (case address of None \<Rightarrow> st2 | Some a \<Rightarrow> if snd st2 > 0 then put_text (addr_column a) st2 else st2)"
    by (simp only: line_prefix_def Let_def st1_def st2_def)
  show ?thesis
  proof (cases address)
    case None
    then show ?thesis using eq s2 by auto
  next
    case (Some a)
    then have "set (fst (line_prefix cap ts after address)) \<subseteq> set (fst st2) \<union> set (addr_column a)"
      using eq set_put_text [of "addr_column a" st2] by auto
    moreover have "set (addr_column a) = set (address_text address)"
      using Some by (simp add: address_text_def)
    ultimately show ?thesis using s2 by blast
  qed
qed

lemma newline_not_in_address: "newline \<notin> set (address_text address)"
proof -
  have "newline \<notin> set (hex n)" for n using hex_chars by blast
  then show ?thesis
    using set_pad_left [of "CHR ''0''"]
    by (fastforce simp: address_text_def addr_column_def newline_def split: option.split)
qed

lemma newline_not_in_start:
  assumes "newline \<notin> set (ev_timestamp event)" "newline \<notin> set after"
  shows "newline \<notin> set (fst (event_line_start cap event after))"
proof -
  have "newline \<notin> set (fst (line_prefix cap (ev_timestamp event) after (site_address event)))"
    using set_line_prefix [of cap "ev_timestamp event" after "site_address event"]
      newline_not_in_address [of "site_address event"] assms by (auto simp: newline_def)
  then have "newline \<notin> set (fst (tree_levels 1 (ev_depth event)
      (line_prefix cap (ev_timestamp event) after (site_address event))))"
    using set_tree_levels [of 1 "ev_depth event"] by (fastforce simp: newline_def)
  then show ?thesis
    by (auto simp: event_line_start_def Let_def put_segment_def newline_def)
qed

text \<open>The text of an event is one line when its parts are.\<close>

definition single_line_event :: "event_line \<Rightarrow> bool" where
  "single_line_event event \<longleftrightarrow>
     newline \<notin> set (ev_timestamp event) \<and> newline \<notin> set (verb event) \<and>
     newline \<notin> set (type_name event) \<and> newline \<notin> set (site_label event) \<and>
     newline \<notin> set (suffix event) \<and>
     (case site_file event of None \<Rightarrow> True | Some f \<Rightarrow> newline \<notin> set f)"

lemma newline_not_in_event_text:
  assumes "single_line_event event"
    and "case what_text event of None \<Rightarrow> True | Some w \<Rightarrow> newline \<notin> set w"
  shows "newline \<notin> set (event_text event)"
proof -
  have "newline \<notin> set (dec n)" for n using dec_chars by blast
  then show ?thesis
    using assms set_c_str
    by (fastforce simp: event_text_def quoted_what_def single_line_event_def newline_def
        split: option.splits)
qed

lemma event_line_start_fits:
  assumes "capacity_ok cap" "1 \<le> ev_depth event"
    and "length (prefix_text (ev_timestamp event) after (site_address event))
           + 3 * nat (ev_depth event) < cap"
  shows "fst (event_line_start cap event after) =
           prefix_text (ev_timestamp event) after (site_address event)
             @ tree_text (ev_depth event) @ ''!! ''"
proof -
  let ?p = "prefix_text (ev_timestamp event) after (site_address event)"
  let ?st = "line_prefix cap (ev_timestamp event) after (site_address event)"
  let ?d = "ev_depth event"
  have p: "?st = (?p, int cap - int (length ?p))"
    using assms by (intro line_prefix_fits) auto
  have "tree_levels 1 ?d ?st =
      (fst ?st @ concat (replicate (nat (?d - 1)) ''|  ''), snd ?st - 3 * int (nat (?d - 1)))"
    using assms(3) line_prefix_ok [OF assms(1), of "ev_timestamp event" after "site_address event"]
    by (intro tree_levels_fits [where cap = cap]) (auto simp: p)
  then show ?thesis
    using assms(2,3)
    by (auto simp: event_line_start_def Let_def p tree_text_def put_segment_def width_defs)
qed

section \<open>Properties\<close>

text \<open>
  A \<open>what()\<close> text shows on one line whatever the program put into it: the sanitised text has no
  control character, fits the capacity with its NUL, equals the original when that is short and
  clean, and ends in an ellipsis when it was cut.
\<close>

theorem sanitize_what_display:
  "(\<forall>c \<in> set (sanitize_what_into what cap). \<not> is_control c) \<and>
   (0 < cap \<longrightarrow> length (sanitize_what_into what cap) < cap) \<and>
   (what = Some w \<and> length w < cap \<and> (\<forall>c \<in> set w. \<not> is_control c) \<longrightarrow>
      sanitize_what_into what cap = w) \<and>
   (what = Some w \<and> 4 < cap \<and> cap \<le> length w \<longrightarrow>
      length (sanitize_what_into what cap) = cap - 1 \<and>
      (\<exists>shown. sanitize_what_into what cap = shown @ ELLIPSIS))"
proof -
  have dots: "\<not> is_control CHR ''.''" by (simp add: is_control_def)
  have "\<forall>c \<in> set (sanitize_what_into what cap). \<not> is_control c"
    using dots by (auto simp: sanitize_what_into_def ELLIPSIS_def Let_def split: option.splits)
  moreover have "0 < cap \<longrightarrow> length (sanitize_what_into what cap) < cap"
    by (auto simp: sanitize_what_into_def ELLIPSIS_def Let_def split: option.splits)
  moreover have "what = Some w \<and> length w < cap \<and> (\<forall>c \<in> set w. \<not> is_control c) \<longrightarrow>
      sanitize_what_into what cap = w"
    by (auto simp: sanitize_what_into_def Let_def display_char_id intro: map_idI)
  moreover have "what = Some w \<and> 4 < cap \<and> cap \<le> length w \<longrightarrow>
      length (sanitize_what_into what cap) = cap - 1 \<and>
      (\<exists>shown. sanitize_what_into what cap = shown @ ELLIPSIS)"
    by (auto simp: sanitize_what_into_def ELLIPSIS_def Let_def)
  ultimately show ?thesis by blast
qed

theorem sanitize_what_display_witness:
  "sanitize_what_into (Some ''bad header'') WHAT_TEXT_CAPACITY = ''bad header'' \<and>
   length (sanitize_what_into (Some (replicate 200 CHR ''x'')) WHAT_TEXT_CAPACITY)
     = WHAT_TEXT_CAPACITY - 1"
proof -
  have "\<forall>c \<in> set ''bad header''. \<not> is_control c" by (simp add: is_control_def)
  then show ?thesis
    using sanitize_what_display [of "Some ''bad header''" WHAT_TEXT_CAPACITY "''bad header''"]
      sanitize_what_display [of "Some (replicate 200 CHR ''x'')" WHAT_TEXT_CAPACITY
        "replicate 200 CHR ''x''"]
    by (simp add: width_defs)
qed

text \<open>
  C36. An event is exactly one line of the trace, within its buffer: given single-line names, a
  sanitised \<open>what()\<close> and a single-line splice, the only newline of the rendered line is its last byte.
\<close>

theorem event_is_one_line:
  assumes "capacity_ok cap" "single_line_event event" "newline \<notin> set after"
    and "what_text event = None \<or> (\<exists>w n. what_text event = Some (sanitize_what_into w n))"
  shows "\<exists>body. format_event_into cap event after True = body @ [newline] \<and>
           newline \<notin> set body \<and> length body < cap"
proof -
  let ?st = "event_line_start cap event after"
  let ?body = "put_clamped (event_text event) ?st"
  have "\<forall>c \<in> set (sanitize_what_into w n). \<not> is_control c" for w n
    by (auto simp: sanitize_what_into_def ELLIPSIS_def Let_def is_control_def display_char_def
        split: option.splits)
  then have "newline \<notin> set (sanitize_what_into w n)" for w n using newline_is_control by blast
  then have "newline \<notin> set (event_text event)"
    using assms(2,4) by (intro newline_not_in_event_text) auto
  moreover have "newline \<notin> set (fst ?st)"
    using assms(2,3) by (intro newline_not_in_start) (auto simp: single_line_event_def)
  ultimately have "newline \<notin> set ?body" using set_put_clamped [of "event_text event" ?st] by blast
  then show ?thesis
    using length_put_clamped [OF event_line_start_ok [OF assms(1)], of "event_text event" event after]
    by (simp add: format_event_into_start [OF assms(1)])
qed

definition sample_event :: event_line where
  "sample_event = \<lparr>ev_timestamp = ''01-01-2025 12:00:00.000'', site_address = None, ev_depth = 2,
     verb = ''throw'', type_name = ''std::runtime_error'',
     what_text = Some (sanitize_what_into (Some (''bad'' @ [newline] @ ''header'')) 128),
     site_label = ''thrown at'', site_file = Some ''parser.cpp'', site_line = Some 77, suffix = []\<rparr>"

theorem event_is_one_line_witness:
  "\<exists>body. format_event_into FORMAT_BUF_SIZE sample_event [] True = body @ [newline] \<and>
     newline \<notin> set body \<and> length body < FORMAT_BUF_SIZE"
  by (rule event_is_one_line)
    (auto simp: single_line_event_def sample_event_def newline_def)

text \<open>
  An event line at depth \<open>d\<close> has its glyph in the column of the call lines at depth \<open>d\<close>: where a
  call line shows \<open>|_\<close>, it shows \<open>!!\<close>.
\<close>

theorem event_glyph_at_offset:
  assumes "capacity_ok cap" "length (ev_timestamp event) = PRETTY_TIME_LENGTH"
    and "1 \<le> ev_depth event"
    and "extra = length after + (if site_address event = None then 0 else ADDR_COLUMN_WIDTH)"
    and "tree_glyph_offset (ev_depth event) extra + 3 < cap"
  shows "take 3 (drop (tree_glyph_offset (ev_depth event) extra) (format_event_into cap event after nl))
           = ''!! ''"
proof -
  let ?p = "prefix_text (ev_timestamp event) after (site_address event)"
  have lp: "length ?p = TIMESTAMP_PREFIX_WIDTH + extra"
    using assms(2,4) by (simp add: prefix_text_def len_simps TIMESTAMP_PREFIX_WIDTH_def)
  have d: "nat (ev_depth event) = Suc (nat (ev_depth event - 1))" using assms(3) by simp
  have "fst (event_line_start cap event after) = ?p @ tree_text (ev_depth event) @ ''!! ''"
    using assms(1,3,5) lp d
    by (intro event_line_start_fits) (auto simp: tree_glyph_offset_def width_defs)
  then obtain rest where "format_event_into cap event after nl =
      (?p @ tree_text (ev_depth event)) @ ''!! '' @ rest"
    using put_clamped_prefix [OF event_line_start_ok [OF assms(1)], of "event_text event" event after]
    by (auto simp: format_event_into_start [OF assms(1)])
  moreover have "length (?p @ tree_text (ev_depth event)) = tree_glyph_offset (ev_depth event) extra"
    by (simp add: lp len_simps tree_glyph_offset_def width_defs)
  ultimately show ?thesis by (simp only: append_eq_conv_conj [THEN iffD1, OF refl]) simp
qed

theorem event_glyph_at_offset_witness:
  "take 3 (drop (tree_glyph_offset (ev_depth sample_event) (DURATION_FIELD_WIDTH + 1))
     (format_event_into FORMAT_BUF_SIZE sample_event (DURATION_EVENT_THROW @ '' '') True)) = ''!! ''"
  by (rule event_glyph_at_offset [OF capacity_ok_buf])
    (simp_all add: sample_event_def DURATION_EVENT_THROW_def tree_glyph_offset_def width_defs)

end
