(* ===== verification/TraceFilePath.thy ===== *)
theory TraceFilePath
  imports Prelude
begin

text \<open>
  Where a thread's trace goes (\<open>include/traceFilePath.h\<close>): the base path from the environment, its
  anchoring to the startup directory, and the name per thread. A \<open>const char*\<close> that may be null is a
  \<open>string option\<close>.
\<close>

definition DEFAULT_TRACE_FILENAME :: string where
  "DEFAULT_TRACE_FILENAME = ''trace.out''"

definition resolve_base_trace_path :: "string option \<Rightarrow> string" where
  "resolve_base_trace_path env_value =
     (case env_value of
        None \<Rightarrow> DEFAULT_TRACE_FILENAME
      | Some v \<Rightarrow> if v = [] then DEFAULT_TRACE_FILENAME else v)"

definition make_absolute_trace_path :: "string \<Rightarrow> string option \<Rightarrow> string" where
  "make_absolute_trace_path path cwd =
     (if path = [] \<or> hd path = CHR ''/'' then path
      else case cwd of
             None \<Rightarrow> path
           | Some c \<Rightarrow>
               if c = [] then path
               else (let result = (if last c \<noteq> CHR ''/'' then c @ ''/'' else c) in result @ path))"

definition build_trace_filename :: "string \<Rightarrow> bool \<Rightarrow> int \<Rightarrow> string" where
  "build_trace_filename base is_main tid =
     (if is_main then base else base @ ''_tid_'' @ dec_int tid)"

lemma resolve_base_nonempty [simp]: "resolve_base_trace_path e \<noteq> []"
  by (auto simp: resolve_base_trace_path_def DEFAULT_TRACE_FILENAME_def split: option.splits)

lemma make_absolute_of_absolute [simp]:
  "path \<noteq> [] \<Longrightarrow> hd path = CHR ''/'' \<Longrightarrow> make_absolute_trace_path path cwd = path"
  by (simp add: make_absolute_trace_path_def)

lemma make_absolute_anchors:
  "path \<noteq> [] \<Longrightarrow> c \<noteq> [] \<Longrightarrow> hd c = CHR ''/'' \<Longrightarrow>
   make_absolute_trace_path path (Some c) \<noteq> [] \<and>
   hd (make_absolute_trace_path path (Some c)) = CHR ''/''"
  by (auto simp: make_absolute_trace_path_def Let_def hd_append)

section \<open>Properties\<close>

text \<open>
  The base path is fixed at startup: anchored to an absolute startup directory it is absolute and
  ends in what the environment asked for, and resolving it again from any other directory (after
  a \<open>chdir\<close>) changes nothing.
\<close>

theorem base_path_survives_chdir:
  assumes "cwd \<noteq> []" "hd cwd = CHR ''/''"
  shows "let base = make_absolute_trace_path (resolve_base_trace_path env) (Some cwd) in
           hd base = CHR ''/'' \<and>
           (\<exists>dir. base = dir @ resolve_base_trace_path env) \<and>
           make_absolute_trace_path base other = base"
proof -
  let ?p = "resolve_base_trace_path env"
  let ?b = "make_absolute_trace_path ?p (Some cwd)"
  have "?b \<noteq> [] \<and> hd ?b = CHR ''/''"
    using assms by (intro make_absolute_anchors) auto
  moreover have "\<exists>dir. ?b = dir @ ?p"
    by (auto simp: make_absolute_trace_path_def Let_def)
  ultimately show ?thesis by (simp add: Let_def)
qed

theorem base_path_survives_chdir_witness:
  "(''/home'' :: string) \<noteq> [] \<and> hd ''/home'' = CHR ''/'' \<and>
   (let base = make_absolute_trace_path (resolve_base_trace_path None) (Some ''/home'') in
      hd base = CHR ''/'' \<and> (\<exists>dir. base = dir @ resolve_base_trace_path None) \<and>
      make_absolute_trace_path base (Some ''/tmp'') = base)"
proof -
  have h: "(''/home'' :: string) \<noteq> []" "hd ''/home'' = CHR ''/''" by simp_all
  show ?thesis
    using h base_path_survives_chdir [OF h, of None "Some ''/tmp''"] by blast
qed

text \<open>
  No two threads of a process write to the same file: the names of two threads agree only when
  both are the main thread or both are workers with the same thread ID.
\<close>

theorem trace_filenames_distinct:
  "build_trace_filename base m t = build_trace_filename base m' t' \<longleftrightarrow>
     (m \<and> m') \<or> (\<not> m \<and> \<not> m' \<and> t = t')"
  by (auto simp: build_trace_filename_def)

end
