(* ===== verification/TraceState.thy ===== *)
theory TraceState
  imports Resolver LevelRules EventFormat TraceFilePath
begin

text \<open>
  The tracer's state (\<open>src/trace.cpp\<close>): frame records, a thread's state with the bytes of its trace
  file, the process-wide globals, and the operations on records and lines the hooks share: the
  in-place patches and the reclaiming of dead records.
\<close>

section \<open>Build options\<close>

record config =
  log_elapsed :: bool
  log_exceptions :: bool
  log_addr :: bool

definition line_patching :: "config \<Rightarrow> bool" where
  "line_patching cfg \<longleftrightarrow> log_elapsed cfg \<or> log_exceptions cfg"

definition DURATION_SPLICE :: "config \<Rightarrow> string" where
  "DURATION_SPLICE cfg = (if log_elapsed cfg then ''[  pending ] '' else [])"

section \<open>Frame records\<close>

text \<open>
  Fields of options that are off are never read. \<open>line_start\<close> is an \<open>off_t\<close>, -1 when there is no
  offset to patch at.
\<close>

record frame_record = act_record +
  logged :: bool
  name_base :: "string option"
  uncaught_at_enter :: int
  enter_time :: int
  line_start :: int
  line_depth :: int

definition INITIAL_FRAME_CAPACITY :: nat where
  "INITIAL_FRAME_CAPACITY = 2048"

section \<open>Threads and globals\<close>

text \<open>
  A \<open>FILE*\<close> and a descriptor are known by whether they are open. \<open>file_bytes\<close> is the contents of the
  thread's trace file; \<open>file_id\<close> stands for the address of its \<open>PerThreadTraceFile\<close>.
\<close>

record thread_state =
  in_instrumentation :: bool
  current_stack_depth :: int
  frames :: "frame_record list"
  frames_capacity :: nat
  frame_overflow_count :: int
  cached_tid :: int
  thread_bounds :: stack_bounds
  stack_bounds_resolved :: bool
  thread_levels :: level_memory
  cursor :: int
  cursor_valid :: bool
  trace_fp :: bool
  patch_fd :: bool
  open_attempted :: bool
  registered :: bool
  thread_time :: time_cache
  thread_fronts :: fronts
  file_id :: nat
  file_bytes :: string

definition fresh_thread :: "nat \<Rightarrow> string \<Rightarrow> thread_state" where
  "fresh_thread fid existing =
     \<lparr>in_instrumentation = False, current_stack_depth = - 1, frames = [], frames_capacity = 0,
      frame_overflow_count = 0, cached_tid = 0, thread_bounds = unknown_bounds,
      stack_bounds_resolved = False, thread_levels = empty_level_memory, cursor = 0,
      cursor_valid = True, trace_fp = False, patch_fd = False, open_attempted = False,
      registered = False, thread_time = zero_time_cache, thread_fronts = empty_fronts,
      file_id = fid, file_bytes = existing\<rparr>"

record trace_globals =
  main_tid :: int
  base_path :: string
  open_files :: "nat list"
  trace_ready :: bool
  shutdown_started :: bool
  shutdown_complete :: bool

definition initial_globals :: trace_globals where
  "initial_globals = \<lparr>main_tid = - 1, base_path = [], open_files = [], trace_ready = False,
     shutdown_started = False, shutdown_complete = False\<rparr>"

definition enter_no_instrument_scope :: "thread_state \<Rightarrow> bool \<times> thread_state" where
  "enter_no_instrument_scope t = (in_instrumentation t, t\<lparr>in_instrumentation := True\<rparr>)"

definition exit_no_instrument_scope :: "bool \<Rightarrow> thread_state \<Rightarrow> thread_state" where
  "exit_no_instrument_scope prev t = t\<lparr>in_instrumentation := prev\<rparr>"

definition current_tid :: "int \<Rightarrow> thread_state \<Rightarrow> int \<times> thread_state" where
  "current_tid gettid t =
     (let t' = (if cached_tid t = 0 then t\<lparr>cached_tid := gettid\<rparr> else t) in (cached_tid t', t'))"

text \<open>What \<open>pthread_getattr_np\<close> and \<open>pthread_attr_getstack\<close> report: the lowest address and the size.\<close>

definition resolve_thread_stack_bounds :: "(addr \<times> addr) option \<Rightarrow> thread_state \<Rightarrow> thread_state" where
  "resolve_thread_stack_bounds stack t =
     (if stack_bounds_resolved t then t
      else let t = t\<lparr>stack_bounds_resolved := True\<rparr>
           in case stack of
                None \<Rightarrow> t
              | Some (lowest, bytes) \<Rightarrow>
                  if bytes > 0
                  then t\<lparr>thread_bounds := \<lparr>lo = lowest, hi = lowest + bytes, known = True\<rparr>\<rparr>
                  else t)"

section \<open>Patching lines in place\<close>

definition PLACEHOLDER_OFFSET_IN_LINE :: nat where
  [width_defs]: "PLACEHOLDER_OFFSET_IN_LINE = PRETTY_TIME_LENGTH + 3"

definition LINE_PREFIX_EXTRA :: "config \<Rightarrow> nat" where
  "LINE_PREFIX_EXTRA cfg =
     (if log_elapsed cfg then DURATION_FIELD_WIDTH + 1 else 0) +
     (if log_addr cfg then ADDR_COLUMN_WIDTH else 0)"

definition patch_line_bytes :: "int \<Rightarrow> nat \<Rightarrow> string \<Rightarrow> thread_state \<Rightarrow> thread_state" where
  "patch_line_bytes start offset_in_line bytes t =
     (if \<not> patch_fd t \<or> start < 0 then t
      else t\<lparr>file_bytes := pwrite_at (file_bytes t) (nat start + offset_in_line) bytes\<rparr>)"

definition mark_frame_end ::
    "config \<Rightarrow> frame_record \<Rightarrow> char \<Rightarrow> string option \<Rightarrow> thread_state \<Rightarrow> thread_state" where
  "mark_frame_end cfg record how field t =
     (if \<not> logged record \<or> line_start record < 0 then t
      else
        let t = (case field of
                   Some bytes \<Rightarrow>
                     if log_elapsed cfg
                     then patch_line_bytes (line_start record) PLACEHOLDER_OFFSET_IN_LINE
                            (take DURATION_FIELD_WIDTH bytes) t
                     else t
                 | None \<Rightarrow> t)
        in if line_depth record \<ge> 1
           then patch_line_bytes (line_start record)
                  (tree_glyph_offset (line_depth record) (LINE_PREFIX_EXTRA cfg)) [how] t
           else t)"

section \<open>Reclaiming dead records\<close>

datatype reclaim = at_enter | at_exit | at_catch

definition reclaim_mark :: "int \<Rightarrow> nat \<Rightarrow> reclaim \<Rightarrow> char" where
  "reclaim_mark uncaught count place =
     (if count > 0 \<and> (place = at_catch \<or> (place = at_enter \<and> uncaught > 0))
      then FRAME_END_EXCEPTION else FRAME_END_JUMP)"

definition unwound_field :: "config \<Rightarrow> char \<Rightarrow> string option" where
  "unwound_field cfg how =
     (if log_elapsed cfg then Some (set_duration_flag DURATION_UNWOUND how) else None)"

text \<open>One round: the top record is popped, its line marked and the depth lowered if it was logged.\<close>

definition reclaim_top :: "config \<Rightarrow> char \<Rightarrow> thread_state \<Rightarrow> thread_state" where
  "reclaim_top cfg how t =
     (let dead = last (frames t); t = t\<lparr>frames := butlast (frames t)\<rparr>
      in if logged dead
         then let t = t\<lparr>current_stack_depth := current_stack_depth t - 1\<rparr>
              in if log_exceptions cfg then mark_frame_end cfg dead how (unwound_field cfg how) t else t
         else t)"

fun reclaim_loop :: "config \<Rightarrow> char \<Rightarrow> nat \<Rightarrow> thread_state \<Rightarrow> thread_state" where
  "reclaim_loop cfg how 0 t = t"
| "reclaim_loop cfg how (Suc count) t = reclaim_loop cfg how count (reclaim_top cfg how t)"

definition reclaim_dead_records ::
    "config \<Rightarrow> int \<Rightarrow> nat \<Rightarrow> reclaim \<Rightarrow> thread_state \<Rightarrow> thread_state" where
  "reclaim_dead_records cfg uncaught count place t =
     reclaim_loop cfg (reclaim_mark uncaught count place) count t"

definition record_has_base_name :: "string \<Rightarrow> frame_record \<Rightarrow> bool" where
  "record_has_base_name base record \<longleftrightarrow>
     (case name_base record of None \<Rightarrow> False | Some b \<Rightarrow> b \<noteq> [] \<and> b = base)"

definition reclaim_above_named ::
    "config \<Rightarrow> int \<Rightarrow> addr \<Rightarrow> string \<Rightarrow> reclaim \<Rightarrow> thread_state \<Rightarrow> thread_state" where
  "reclaim_above_named cfg uncaught level base place t =
     reclaim_dead_records cfg uncaught
       (dead_records_above_match (frames t) level (record_has_base_name base)) place t"

definition reclaim_dead_inlined_records_above_parent ::
    "config \<Rightarrow> int \<Rightarrow> frame_key \<Rightarrow> string option \<Rightarrow> reclaim \<Rightarrow> thread_state \<Rightarrow> thread_state" where
  "reclaim_dead_inlined_records_above_parent cfg uncaught key parent_base place t =
     (case parent_base of
        None \<Rightarrow> t
      | Some base \<Rightarrow>
          if base = [] \<or> frames t = [] then t
          else let top = last (frames t)
               in if \<not> rec_level top > key_level key
                     \<or> \<not> on_thread_stack (thread_bounds t) (rec_level top)
                     \<or> \<not> on_thread_stack (thread_bounds t) (key_level key)
                  then t
                  else reclaim_above_named cfg uncaught (rec_level top) base place t)"

lemma frames_patch [simp]: "frames (patch_line_bytes s off bs t) = frames t"
  by (simp add: patch_line_bytes_def)

lemma frames_mark [simp]: "frames (mark_frame_end cfg r how field t) = frames t"
  by (simp add: mark_frame_end_def Let_def split: option.split)

lemma frames_reclaim_top [simp]: "frames (reclaim_top cfg how t) = butlast (frames t)"
  by (simp add: reclaim_top_def Let_def)

text \<open>
  The records of the entering frame itself, left by a retry loop: popped while the top record has
  the frame's callee, caller and level.
\<close>

function reclaim_repeated ::
    "config \<Rightarrow> int \<Rightarrow> frame_key \<Rightarrow> reclaim \<Rightarrow> thread_state \<Rightarrow> thread_state" where
  "reclaim_repeated cfg uncaught key place t =
     (if frames t \<noteq> [] \<and> same_activation_site (last (frames t)) key
         \<and> rec_level (last (frames t)) = key_level key
      then reclaim_repeated cfg uncaught key place (reclaim_dead_records cfg uncaught 1 place t)
      else t)"
  by pat_completeness auto
termination
  by (relation "measure (\<lambda>(cfg, uncaught, key, place, t). length (frames t))")
    (auto simp: reclaim_dead_records_def)

declare reclaim_repeated.simps [simp del]

text \<open>
  \<open>inline_chain_at\<close>: the chain at a site through the resolver, or an exception when memory runs out
  (the shared caches are then what other threads made of them). The guard is saved and restored.
\<close>

record resolver_input =
  in_world :: world
  in_interfere :: "caches \<Rightarrow> caches"
  resolve_throws :: bool
  chain_throws :: bool

definition inline_chain_at ::
    "resolver_input \<Rightarrow> addr \<Rightarrow> caches \<Rightarrow> string list outcome \<times> caches" where
  "inline_chain_at inp address c =
     (if chain_throws inp then (Threw, in_interfere inp c)
      else let (chain, c', acts) = resolve_inline_chain (in_world inp) (in_interfere inp) c address
           in (Returned chain, c'))"

definition recursive_chain :: "string list \<Rightarrow> bool" where
  "recursive_chain chain \<longleftrightarrow> length chain \<ge> 2 \<and> chain ! 0 = chain ! 1"

text \<open>What the chain at the entering site makes of the records at its level.\<close>

definition reclaim_by_chain ::
    "config \<Rightarrow> int \<Rightarrow> frame_key \<Rightarrow> string list \<Rightarrow> reclaim \<Rightarrow> thread_state \<Rightarrow> thread_state" where
  "reclaim_by_chain cfg uncaught key chain place t =
     (if chain = [] then t
      else
        let t = (if recursive_chain chain then t else reclaim_repeated cfg uncaught key place t)
        in if length chain \<ge> 2
           then reclaim_above_named cfg uncaught (key_level key) (chain ! 1) place t else t)"

text \<open>The first component of the result says whether an exception left the function.\<close>

definition reclaim_dead_inlined_records_on_enter ::
    "config \<Rightarrow> resolver_input \<Rightarrow> int \<Rightarrow> frame_key \<Rightarrow> addr \<Rightarrow> reclaim \<Rightarrow> caches \<Rightarrow> thread_state
       \<Rightarrow> bool \<times> caches \<times> thread_state" where
  "reclaim_dead_inlined_records_on_enter cfg inp uncaught key site place c t =
     (if frames t = [] \<or> rec_level (last (frames t)) \<noteq> key_level key
         \<or> \<not> on_thread_stack (thread_bounds t) (key_level key)
      then (False, c, t)
      else case inline_chain_at inp site c of
             (Threw, c') \<Rightarrow> (True, c', t)
           | (Returned chain, c') \<Rightarrow> (False, c', reclaim_by_chain cfg uncaught key chain place t))"

definition reclaim_dead_inlined_records_on_catch ::
    "config \<Rightarrow> resolver_input \<Rightarrow> int \<Rightarrow> addr \<Rightarrow> addr \<Rightarrow> caches \<Rightarrow> thread_state
       \<Rightarrow> bool \<times> caches \<times> thread_state" where
  "reclaim_dead_inlined_records_on_catch cfg inp uncaught catch_level site c t =
     (if frames t = [] \<or> rec_level (last (frames t)) \<noteq> catch_level
         \<or> \<not> on_thread_stack (thread_bounds t) catch_level
      then (False, c, t)
      else case inline_chain_at inp site c of
             (Threw, c') \<Rightarrow> (True, c', t)
           | (Returned chain, c') \<Rightarrow>
               (False, c',
                if chain = [] then t
                else reclaim_above_named cfg uncaught catch_level (chain ! 0) at_catch t))"

end
