(* ===== verification/ExceptionRuntime.thy ===== *)
theory ExceptionRuntime
  imports Prelude
begin

text \<open>
  How the interposers tell exceptions and runtime functions apart (\<open>src/exceptions.cpp\<close>,
  \<open>include/exceptionEvents.h\<close>): the class an \<open>_Unwind_Exception\<close> carries, the code ranges of the
  runtime's own give-up sites, and the startup check that the tracer's definitions are the active
  ones. What the dynamic linker answers is a parameter.
\<close>

section \<open>Events\<close>

datatype throw_kind = primary | rethrow | exception_ptr

datatype terminate_reason = no_handler | noexcept_boundary | terminate_called

text \<open>
  A \<open>std::type_info*\<close> is the type's name as \<open>type_info::name\<close> gives it, None when null.
\<close>

record event_type =
  et_info :: "string option"
  et_label :: "string option"

section \<open>Exception classes\<close>

definition exception_class_of :: "char list \<Rightarrow> u64" where
  "exception_class_of text =
     foldl (\<lambda>value c. or (push_bit 8 value) (of_nat (of_char c))) 0 (take 8 text)"

definition PRIMARY_EXCEPTION_CLASS :: u64 where
  "PRIMARY_EXCEPTION_CLASS = exception_class_of (''GNUCC++'' @ [CHR 0x00])"

definition DEPENDENT_EXCEPTION_CLASS :: u64 where
  "DEPENDENT_EXCEPTION_CLASS = exception_class_of (''GNUCC++'' @ [CHR 0x01])"

text \<open>An exception object is known by its class field, None for a null pointer.\<close>

definition exception_class :: "u64 option \<Rightarrow> u64" where
  "exception_class exception_object = (case exception_object of None \<Rightarrow> 0 | Some c \<Rightarrow> c)"

definition is_native_primary_exception :: "u64 option \<Rightarrow> bool" where
  "is_native_primary_exception e \<longleftrightarrow> exception_class e = PRIMARY_EXCEPTION_CLASS"

definition is_native_dependent_exception :: "u64 option \<Rightarrow> bool" where
  "is_native_dependent_exception e \<longleftrightarrow> exception_class e = DEPENDENT_EXCEPTION_CLASS"

definition foreign_exception_label :: "u64 option \<Rightarrow> string option" where
  "foreign_exception_label e =
     (let cls = exception_class e
      in if cls = PRIMARY_EXCEPTION_CLASS \<or> cls = DEPENDENT_EXCEPTION_CLASS then None
         else Some (if cls = 0 then ''(forced unwind)'' else ''(foreign exception)''))"

section \<open>The dynamic linker\<close>

text \<open>
  \<open>dlsym\<close> after the tracer (RTLD_NEXT), the file \<open>dladdr\<close> names for an address, \<open>dlopen\<close> of a library that
  is loaded, \<open>dlsym\<close> in a library, and the size \<open>dladdr1\<close> finds in the symbol table.
\<close>

record dynamic_linker =
  dl_next :: "string \<Rightarrow> addr option"
  dl_file :: "addr \<Rightarrow> string option"
  dl_open :: "string \<Rightarrow> addr option"
  dl_symbol :: "addr \<Rightarrow> string \<Rightarrow> addr option"
  dl_size :: "addr \<Rightarrow> addr option"

definition next_definition :: "dynamic_linker \<Rightarrow> string \<Rightarrow> addr option" where
  "next_definition dl symbol = dl_next dl symbol"

definition runtime_library :: "dynamic_linker \<Rightarrow> addr option" where
  "runtime_library dl =
     (case dl_next dl ''__cxa_begin_catch'' of
        None \<Rightarrow> None
      | Some begin_catch \<Rightarrow>
          (case dl_file dl begin_catch of None \<Rightarrow> None | Some name \<Rightarrow> dl_open dl name))"

text \<open>The abort of an interposer that has nothing to forward to.\<close>

definition cannot_forward :: "'s option" where
  "cannot_forward = None"

declare cannot_forward_def [simp]

section \<open>Give-up sites of the runtime\<close>

record code_range =
  range_begin :: addr
  range_end :: addr

definition range_contains :: "code_range \<Rightarrow> addr \<Rightarrow> bool" where
  "range_contains r a \<longleftrightarrow> a \<ge> range_begin r \<and> a < range_end r"

definition runtime_code_range :: "dynamic_linker \<Rightarrow> string \<Rightarrow> code_range" where
  "runtime_code_range dl symbol =
     (let empty = \<lparr>range_begin = 0, range_end = 0\<rparr>;
          function = (case runtime_library dl of None \<Rightarrow> None | Some library \<Rightarrow> dl_symbol dl library symbol)
      in case function of
           None \<Rightarrow> empty
         | Some f \<Rightarrow>
             (case dl_size dl f of
                None \<Rightarrow> empty
              | Some bytes \<Rightarrow> if bytes > 0 then \<lparr>range_begin = f, range_end = f + bytes\<rparr> else empty))"

definition RETHROW_EXCEPTION_SYMBOL :: string where
  "RETHROW_EXCEPTION_SYMBOL = ''_ZSt17rethrow_exceptionNSt15__exception_ptr13exception_ptrE''"

definition TERMINATE_SYMBOL :: string where
  "TERMINATE_SYMBOL = ''_ZSt9terminatev''"

definition give_up_sites :: "dynamic_linker \<Rightarrow> (code_range \<times> terminate_reason) list" where
  "give_up_sites dl =
     [(runtime_code_range dl ''__cxa_throw'', no_handler),
      (runtime_code_range dl ''__cxa_rethrow'', no_handler),
      (runtime_code_range dl RETHROW_EXCEPTION_SYMBOL, no_handler),
      (runtime_code_range dl ''__cxa_call_terminate'', noexcept_boundary),
      (runtime_code_range dl ''__gxx_personality_v0'', noexcept_boundary)]"

definition catch_means_terminate :: "dynamic_linker \<Rightarrow> addr \<Rightarrow> terminate_reason option" where
  "catch_means_terminate dl return_address =
     map_option snd (List.find (\<lambda>(range, reason). range_contains range return_address)
                       (give_up_sites dl))"

section \<open>The startup check\<close>

text \<open>An interposer: the symbol, its name in messages, and the address of the tracer's function.\<close>

record interposer =
  ip_symbol :: string
  ip_display :: string
  ip_ours :: addr

text \<open>The result: the name a FATAL message aborts with, or the names warned about.\<close>

fun verify_entries ::
    "(string \<Rightarrow> addr option) \<Rightarrow> (string \<Rightarrow> addr option) \<Rightarrow> interposer list \<Rightarrow> string + string list" where
  "verify_entries dlsym_default dlsym_next [] = Inr []"
| "verify_entries dlsym_default dlsym_next (entry # entries) =
     (if dlsym_default (ip_symbol entry) \<noteq> Some (ip_ours entry)
      then (case verify_entries dlsym_default dlsym_next entries of
              Inl fatal \<Rightarrow> Inl fatal
            | Inr warned \<Rightarrow> Inr (ip_display entry # warned))
      else if dlsym_next (ip_symbol entry) = None then Inl (ip_display entry)
      else verify_entries dlsym_default dlsym_next entries)"

text \<open>The five entries; \<open>own\<close> is the address of each of the tracer's functions, by its name.\<close>

definition interposer_entries :: "(string \<Rightarrow> addr) \<Rightarrow> interposer list" where
  "interposer_entries own =
     [\<lparr>ip_symbol = ''__cxa_throw'', ip_display = ''__cxa_throw'', ip_ours = own ''cslg_cxa_throw''\<rparr>,
      \<lparr>ip_symbol = ''__cxa_rethrow'', ip_display = ''__cxa_rethrow'', ip_ours = own ''cslg_cxa_rethrow''\<rparr>,
      \<lparr>ip_symbol = ''__cxa_begin_catch'', ip_display = ''__cxa_begin_catch'', ip_ours = own ''cslg_cxa_begin_catch''\<rparr>,
      \<lparr>ip_symbol = RETHROW_EXCEPTION_SYMBOL, ip_display = ''std::rethrow_exception'',
       ip_ours = own ''cslg_rethrow_exception''\<rparr>,
      \<lparr>ip_symbol = TERMINATE_SYMBOL, ip_display = ''std::terminate'', ip_ours = own ''cslg_terminate''\<rparr>]"

definition verify_interposers ::
    "(string \<Rightarrow> addr option) \<Rightarrow> dynamic_linker \<Rightarrow> (string \<Rightarrow> addr) \<Rightarrow> string + string list" where
  "verify_interposers active dl own = verify_entries active (dl_next dl) (interposer_entries own)"

section \<open>Properties\<close>

text \<open>
  The class constants are the runtime's: the eight bytes of the text, most significant first, so
  primary, dependent and foreign exceptions are told apart, a forced unwind (class 0) and a null
  exception are foreign, and exactly the native ones have no label.
\<close>

theorem exception_classes:
  "PRIMARY_EXCEPTION_CLASS = 0x474E5543432B2B00 \<and>
   DEPENDENT_EXCEPTION_CLASS = 0x474E5543432B2B01 \<and>
   (foreign_exception_label e = None \<longleftrightarrow>
      is_native_primary_exception e \<or> is_native_dependent_exception e) \<and>
   \<not> (is_native_primary_exception e \<and> is_native_dependent_exception e) \<and>
   foreign_exception_label None = Some ''(forced unwind)'' \<and>
   foreign_exception_label (Some 0) = Some ''(forced unwind)''"
proof -
  have p: "PRIMARY_EXCEPTION_CLASS = 0x474E5543432B2B00" by code_simp
  have d: "DEPENDENT_EXCEPTION_CLASS = 0x474E5543432B2B01" by code_simp
  show ?thesis
    by (simp add: p d foreign_exception_label_def is_native_primary_exception_def
        is_native_dependent_exception_def Let_def exception_class_def)
qed

text \<open>
  The startup check aborts exactly when one of the tracer's definitions is active but has nothing
  to forward to; otherwise it warns about exactly those entry points whose active definition is
  another one.
\<close>

lemma verify_entries_correct:
  "(case verify_entries active forward entries of
      Inl fatal \<Rightarrow> \<exists>e \<in> set entries. ip_display e = fatal \<and> active (ip_symbol e) = Some (ip_ours e) \<and>
                     forward (ip_symbol e) = None
    | Inr warned \<Rightarrow>
        warned = map ip_display (filter (\<lambda>e. active (ip_symbol e) \<noteq> Some (ip_ours e)) entries) \<and>
        (\<nexists>e. e \<in> set entries \<and> active (ip_symbol e) = Some (ip_ours e) \<and>
              forward (ip_symbol e) = None))"
  by (induction entries) (auto split: sum.splits)

end
