(* ===== verification/TraceFiles.thy ===== *)
theory TraceFiles
  imports TraceState ExceptionRuntime
begin

text \<open>
  A thread's trace file and the life of the tracer (\<open>src/trace.cpp\<close>): the lazy opening with its
  header, the registry of open files, the shutdown, the destructor that runs when a thread ends, and
  the constructor that runs at startup. The outcomes of the system calls are parameters; an
  operation that can leave by an exception returns whether it did.
\<close>

section \<open>Opening\<close>

text \<open>
  What writing a line or the header did: all of it reached the file, or less and some unknown bytes
  reached it.
\<close>

datatype write_result = Wrote_line | Wrote_short string

record open_input =
  io_gettid :: int
  io_path_throws :: bool
  io_open :: bool
  io_fdopen :: bool
  io_reopen :: bool
  io_header_throws :: bool
  io_header :: write_result
  io_seekable :: bool
  io_push_throws :: bool
  io_render :: "int \<Rightarrow> string"
  io_clock :: int

definition header_text :: "string \<Rightarrow> int \<Rightarrow> string" where
  "header_text now tid =
     (let middle = ''=== New trace run: '' @ now @ '', thread ID: '' @ dec_int tid @ '' ==='';
          frame = replicate (length middle) CHR ''=''
      in [newline] @ c_str frame @ [newline] @ c_str middle @ [newline] @ c_str frame @ [newline])"

text \<open>The result of the header's \<open>fprintf\<close> is ignored.\<close>

definition write_run_separator_header ::
    "open_input \<Rightarrow> int \<Rightarrow> thread_state \<Rightarrow> bool \<times> thread_state" where
  "write_run_separator_header io tid t =
     (let (now, cache) = pretty_time (io_render io) (thread_time t) (io_clock io);
          t = t\<lparr>thread_time := cache\<rparr>
      in if io_header_throws io then (True, t)
         else (False, t\<lparr>file_bytes := file_bytes t @ (case io_header io of
                  Wrote_line \<Rightarrow> header_text now tid | Wrote_short bytes \<Rightarrow> bytes)\<rparr>))"

text \<open>The cursor is seeded from the end of the file, when there is a descriptor to patch with.\<close>

definition seed_cursor :: "config \<Rightarrow> open_input \<Rightarrow> thread_state \<Rightarrow> thread_state" where
  "seed_cursor cfg io t =
     (if \<not> line_patching cfg then t
      else if patch_fd t
      then (if \<not> io_seekable io then t\<lparr>cursor := 0, cursor_valid := False\<rparr>
            else t\<lparr>cursor := int (length (file_bytes t))\<rparr>)
      else t\<lparr>cursor_valid := False\<rparr>)"

text \<open>The registration, under the registry's mutex.\<close>

definition register_file ::
    "open_input \<Rightarrow> trace_globals \<Rightarrow> thread_state \<Rightarrow> bool \<times> trace_globals \<times> thread_state" where
  "register_file io g t =
     (if shutdown_complete g then (False, g, t\<lparr>trace_fp := False, patch_fd := False\<rparr>)
      else if io_push_throws io then (True, g, t)
      else (False, g\<lparr>open_files := open_files g @ [file_id t]\<rparr>, t\<lparr>registered := True\<rparr>))"

definition thread_file_path :: "open_input \<Rightarrow> trace_globals \<Rightarrow> thread_state \<Rightarrow> string" where
  "thread_file_path io g t =
     (let (tid, t') = current_tid (io_gettid io) t
      in build_trace_filename (base_path g) (tid = main_tid g) tid)"

definition open_this_thread_file ::
    "config \<Rightarrow> open_input \<Rightarrow> trace_globals \<Rightarrow> thread_state \<Rightarrow> bool \<times> trace_globals \<times> thread_state" where
  "open_this_thread_file cfg io g t =
     (if open_attempted t then (False, g, t)
      else
        let (tid, t) = current_tid (io_gettid io) (t\<lparr>open_attempted := True\<rparr>)
        in if io_path_throws io then (True, g, t)
           else if \<not> io_open io then (False, g, t)
           else if \<not> io_fdopen io then (False, g, t)
           else
             let t = t\<lparr>trace_fp := True, patch_fd := line_patching cfg \<and> io_reopen io\<rparr>;
                 (threw, t) = write_run_separator_header io tid t
             in if threw then (True, g, t) else register_file io g (seed_cursor cfg io t))"

text \<open>The first component of the result says whether an exception left, the second is the \<open>FILE*\<close>.\<close>

definition get_thread_fp ::
    "config \<Rightarrow> open_input \<Rightarrow> trace_globals \<Rightarrow> thread_state
       \<Rightarrow> bool \<times> bool \<times> trace_globals \<times> thread_state" where
  "get_thread_fp cfg io g t =
     (if \<not> trace_ready g then (False, False, g, t)
      else if shutdown_complete g then (False, False, g, t)
      else if \<not> open_attempted t
      then (let (threw, g, t) = open_this_thread_file cfg io g t
            in (threw, \<not> threw \<and> trace_fp t, g, t))
      else (False, trace_fp t, g, t))"

section \<open>Shutdown and the end of a thread\<close>

text \<open>
  Every completed line has already reached the file (line buffering), so the \<open>fflush\<close> of the
  registered files changes no file; what is left is the guard, the registry and the flags.
\<close>

definition trace_shutdown :: "trace_globals \<Rightarrow> thread_state \<Rightarrow> trace_globals \<times> thread_state" where
  "trace_shutdown g t =
     (let t = t\<lparr>in_instrumentation := True\<rparr>
      in if shutdown_started g then (g, t)
         else (g\<lparr>shutdown_started := True, open_files := [], shutdown_complete := True\<rparr>, t))"

definition close_thread_file :: "trace_globals \<Rightarrow> thread_state \<Rightarrow> trace_globals \<times> thread_state" where
  "close_thread_file g t =
     (let t = t\<lparr>in_instrumentation := True\<rparr>
      in if \<not> trace_fp t then (g, t)
         else
           let t = t\<lparr>trace_fp := False, patch_fd := False\<rparr>
           in if registered t
              then (g\<lparr>open_files := remove1 (file_id t) (open_files g)\<rparr>, t\<lparr>registered := False\<rparr>)
              else (g, t))"

section \<open>Startup\<close>

record begin_input =
  bi_gettid :: int
  bi_env :: "string option"
  bi_cwd :: "string option"
  bi_render :: "int \<Rightarrow> string"
  bi_clock :: int
  bi_active :: "string \<Rightarrow> addr option"
  bi_linker :: dynamic_linker
  bi_own :: "string \<Rightarrow> addr"

text \<open>None is \<open>abort()\<close>: a timestamp of another length, or an interposer that cannot forward.\<close>

definition trace_begin ::
    "config \<Rightarrow> begin_input \<Rightarrow> trace_globals \<Rightarrow> thread_state \<Rightarrow> (trace_globals \<times> thread_state) option" where
  "trace_begin cfg bi g t =
     (let t = t\<lparr>in_instrumentation := True\<rparr>;
          (now, cache) = pretty_time (bi_render bi) (thread_time t) (bi_clock bi);
          t = (if line_patching cfg then t\<lparr>thread_time := cache\<rparr> else t)
      in if line_patching cfg \<and> length now \<noteq> PRETTY_TIME_LENGTH then None
         else
           let (tid, t) = current_tid (bi_gettid bi) t;
               base = make_absolute_trace_path (resolve_base_trace_path (bi_env bi)) (bi_cwd bi);
               g = g\<lparr>main_tid := tid, base_path := base\<rparr>
           in if log_exceptions cfg \<and>
                 (case verify_interposers (bi_active bi) (bi_linker bi) (bi_own bi) of
                    Inl fatal \<Rightarrow> True | Inr _ \<Rightarrow> False)
              then None
              else Some (g\<lparr>trace_ready := True\<rparr>, t\<lparr>in_instrumentation := False\<rparr>))"

end
