(* ===== verification/TraceHooks.thy ===== *)
theory TraceHooks
  imports TraceFiles
begin

text \<open>
  The two hooks the compiler calls on entering and leaving every instrumented function
  (\<open>__cyg_profile_func_enter\<close> and \<open>__cyg_profile_func_exit\<close> of \<open>src/trace.cpp\<close>), statement by statement.
  The input of a hook is what its arguments, the machine and the outside answer during the call; a
  \<open>try\<close> block is the sequence of its steps, each leaving early when it throws.
\<close>

section \<open>Inputs\<close>

record hook_input =
  hi_callee :: addr
  hi_caller :: addr
  hook_site :: addr
  hook_frame :: addr
  hi_levels :: level_env
  reserve_throws :: bool
  hi_stack :: "(addr \<times> addr) option"
  hi_open :: open_input
  hi_resolver :: resolver_input
  hi_clock :: int
  steady_now :: int
  uncaught_exceptions :: int
  hi_write :: write_result

definition hook_level :: "hook_input \<Rightarrow> thread_state \<Rightarrow> addr \<times> thread_state" where
  "hook_level inp t =
     (let (level, lm) = frame_level ((hi_levels inp)\<lparr>env_bounds := thread_bounds t\<rparr>)
                          (thread_levels t) (hook_site inp) (hook_frame inp)
      in (level, t\<lparr>thread_levels := lm\<rparr>))"

section \<open>The enter hook\<close>

text \<open>Room for the frame's record: the capacity doubles when it is reached.\<close>

definition make_room :: "hook_input \<Rightarrow> thread_state \<Rightarrow> bool \<times> thread_state" where
  "make_room inp t =
     (if length (frames t) = frames_capacity t
      then if reserve_throws inp then (False, t)
           else (True, t\<lparr>frames_capacity := (if frames t = [] then INITIAL_FRAME_CAPACITY
                                             else frames_capacity t * 2)\<rparr>)
      else (True, t))"

text \<open>The line of a resolved frame: formatted at the prospective depth, then written.\<close>

definition write_line :: "config \<Rightarrow> write_result \<Rightarrow> string \<Rightarrow> thread_state \<Rightarrow> thread_state" where
  "write_line cfg result line t =
     (case result of
        Wrote_line \<Rightarrow>
          t\<lparr>file_bytes := file_bytes t @ line,
            cursor := (if line_patching cfg then cursor t + int (length line) else cursor t)\<rparr>
      | Wrote_short bytes \<Rightarrow>
          t\<lparr>file_bytes := file_bytes t @ bytes,
            cursor_valid := (if line_patching cfg then False else cursor_valid t)\<rparr>)"

definition call_line :: "config \<Rightarrow> resolved_frame_view \<Rightarrow> string \<Rightarrow> int \<Rightarrow> string" where
  "call_line cfg view now depth =
     the (format_into FORMAT_BUF_SIZE (view\<lparr>timestamp := now\<rparr>) depth (DURATION_SPLICE cfg) True)"

definition log_call :: "config \<Rightarrow> hook_input \<Rightarrow> resolved_frame_view \<Rightarrow> thread_state \<Rightarrow> thread_state" where
  "log_call cfg inp view t =
     (let (now, cache) = pretty_time_into (io_render (hi_open inp)) (thread_time t)
                           PRETTY_TIME_BUF_SIZE (hi_clock inp);
          t = t\<lparr>thread_time := cache\<rparr>;
          line = call_line cfg view now (current_stack_depth t + 1);
          t = t\<lparr>current_stack_depth := current_stack_depth t + 1\<rparr>
      in write_line cfg (hi_write inp) line t)"

text \<open>The record pushed for every frame, logged or not.\<close>

definition new_record ::
    "config \<Rightarrow> hook_input \<Rightarrow> frame_key \<Rightarrow> bool \<Rightarrow> string option \<Rightarrow> int \<Rightarrow> thread_state \<Rightarrow> frame_record" where
  "new_record cfg inp key was_logged base start t =
     (let located = line_patching cfg \<and> was_logged \<and> cursor_valid t
      in \<lparr>rec_callee = key_callee key, rec_caller = key_caller key, rec_level = key_level key,
          logged = was_logged, name_base = (if was_logged then base else None),
          uncaught_at_enter = (if log_exceptions cfg then uncaught_exceptions inp else 0),
          enter_time = (if log_elapsed cfg \<and> was_logged then steady_now inp else 0),
          line_start = (if located then start else - 1),
          line_depth = (if located then current_stack_depth t else 0)\<rparr>)"

definition push_record ::
    "config \<Rightarrow> hook_input \<Rightarrow> frame_key \<Rightarrow> bool \<Rightarrow> string option \<Rightarrow> int \<Rightarrow> thread_state \<Rightarrow> thread_state" where
  "push_record cfg inp key was_logged base start t =
     t\<lparr>frames := frames t @ [new_record cfg inp key was_logged base start t]\<rparr>"

text \<open>The reconciliation before the frame is looked up: bounds, level, dead records.\<close>

definition reconcile_enter ::
    "config \<Rightarrow> hook_input \<Rightarrow> caches \<Rightarrow> thread_state \<Rightarrow> bool \<times> frame_key \<times> caches \<times> thread_state" where
  "reconcile_enter cfg inp c t =
     (let t = resolve_thread_stack_bounds (hi_stack inp) t;
          (level, t) = hook_level inp t;
          key = \<lparr>key_callee = hi_callee inp, key_caller = hi_caller inp, key_level = level\<rparr>;
          t = reclaim_dead_records cfg (uncaught_exceptions inp)
                (dead_records_on_enter (frames t) key (thread_bounds t)) at_enter t;
          (threw, c, t) = reclaim_dead_inlined_records_on_enter cfg (hi_resolver inp)
                (uncaught_exceptions inp) key (hook_site inp - 1) at_enter c t
      in (threw, key, c, t))"

text \<open>The hooks' lookup of the frame, an exception being possible.\<close>

definition resolve_for_hook ::
    "hook_input \<Rightarrow> caches \<Rightarrow> thread_state \<Rightarrow> resolved_frame_view option \<times> caches \<times> thread_state" where
  "resolve_for_hook inp c t =
     (let r = hi_resolver inp
      in if resolve_throws r then (None, in_interfere r c, t)
         else let (view, c, fronts, acts) =
                resolve (in_world r) (in_interfere r) c (thread_fronts t)
                  (hi_callee inp) (hi_caller inp) empty_view
              in (view, c, t\<lparr>thread_fronts := fronts\<rparr>))"

text \<open>
  From the file to the record. A null \<open>FILE*\<close>, an exception and a frame that is not loggable all end
  in an unlogged record.
\<close>

definition enter_with_slot ::
    "config \<Rightarrow> hook_input \<Rightarrow> caches \<Rightarrow> trace_globals \<Rightarrow> thread_state
       \<Rightarrow> caches \<times> trace_globals \<times> thread_state" where
  "enter_with_slot cfg inp c g t =
     (let (threw, key, c, t) = reconcile_enter cfg inp c t
      in if threw then (c, g, push_record cfg inp key False None 0 t)
         else
           let (open_threw, fp, g, t) = get_thread_fp cfg (hi_open inp) g t
           in if open_threw \<or> \<not> fp then (c, g, push_record cfg inp key False None 0 t)
              else
                let (view, c, t) = resolve_for_hook inp c t
                in case view of
                     None \<Rightarrow> (c, g, push_record cfg inp key False None 0 t)
                   | Some v \<Rightarrow>
                       let t = reclaim_dead_inlined_records_above_parent cfg
                                 (uncaught_exceptions inp) key (caller_function_base v) at_enter t;
                           start = cursor t;
                           t = log_call cfg inp v t
                       in (c, g, push_record cfg inp key True (callee_base_name v) start t))"

definition enter_hook ::
    "config \<Rightarrow> hook_input \<Rightarrow> caches \<Rightarrow> trace_globals \<Rightarrow> thread_state
       \<Rightarrow> caches \<times> trace_globals \<times> thread_state" where
  "enter_hook cfg inp c g t =
     (if in_instrumentation t then (c, g, t)
      else
        let t = t\<lparr>in_instrumentation := True\<rparr>;
            (c, g, t) =
              (if frame_overflow_count t > 0
               then (c, g, t\<lparr>frame_overflow_count := frame_overflow_count t + 1\<rparr>)
               else
                 let (have_slot, t) = make_room inp t
                 in if \<not> have_slot
                    then (c, g, t\<lparr>frame_overflow_count := frame_overflow_count t + 1\<rparr>)
                    else enter_with_slot cfg inp c g t)
        in (c, g, t\<lparr>in_instrumentation := False\<rparr>))"

section \<open>The exit hook\<close>

definition elapsed_ns :: "hook_input \<Rightarrow> frame_record \<Rightarrow> u64" where
  "elapsed_ns inp record =
     (let elapsed = steady_now inp - enter_time record
      in if elapsed < 0 then 0 else of_int elapsed)"

definition exit_field :: "config \<Rightarrow> hook_input \<Rightarrow> bool \<Rightarrow> frame_record \<Rightarrow> string" where
  "exit_field cfg inp by_exception record =
     (let buf = format_duration_12chars (elapsed_ns inp record)
      in if log_exceptions cfg \<and> by_exception then set_duration_flag buf FRAME_END_EXCEPTION else buf)"

text \<open>What is done for the popped record of a logged frame.\<close>

definition finish_line :: "config \<Rightarrow> hook_input \<Rightarrow> frame_record \<Rightarrow> thread_state \<Rightarrow> thread_state" where
  "finish_line cfg inp record t =
     (let by_exception = log_exceptions cfg \<and> uncaught_exceptions inp > uncaught_at_enter record;
          t = (if log_elapsed cfg
               then patch_line_bytes (line_start record) PLACEHOLDER_OFFSET_IN_LINE
                      (take DURATION_FIELD_WIDTH (exit_field cfg inp by_exception record)) t
               else t)
      in if by_exception then mark_frame_end cfg record FRAME_END_EXCEPTION None t else t)"

definition pop_own_record :: "config \<Rightarrow> hook_input \<Rightarrow> thread_state \<Rightarrow> thread_state" where
  "pop_own_record cfg inp t =
     (let record = last (frames t); t = t\<lparr>frames := butlast (frames t)\<rparr>
      in if logged record
         then finish_line cfg inp record (t\<lparr>current_stack_depth := current_stack_depth t - 1\<rparr>)
         else t)"

definition exit_index :: "hook_input \<Rightarrow> addr \<Rightarrow> thread_state \<Rightarrow> nat" where
  "exit_index inp level t =
     exiting_record_index (frames t)
       \<lparr>key_callee = hi_callee inp, key_caller = hi_caller inp, key_level = level\<rparr>
       (hook_site inp = hi_caller inp) (thread_bounds t)"

definition exit_with_record :: "config \<Rightarrow> hook_input \<Rightarrow> thread_state \<Rightarrow> thread_state" where
  "exit_with_record cfg inp t =
     (let (level, t) = hook_level inp t;
          index = exit_index inp level t;
          t = reclaim_dead_records cfg (uncaught_exceptions inp)
                (length (frames t) - 1 - index) at_exit t
      in pop_own_record cfg inp t)"

definition exit_hook :: "config \<Rightarrow> hook_input \<Rightarrow> thread_state \<Rightarrow> thread_state" where
  "exit_hook cfg inp t =
     (if in_instrumentation t then t
      else
        let t = t\<lparr>in_instrumentation := True\<rparr>;
            t = (if frame_overflow_count t > 0
                 then t\<lparr>frame_overflow_count := frame_overflow_count t - 1\<rparr>
                 else if frames t \<noteq> [] then exit_with_record cfg inp t
                 else t)
        in t\<lparr>in_instrumentation := False\<rparr>)"

end
