(* ===== verification/TraceEvents.thy ===== *)
theory TraceEvents
  imports TraceHooks
begin

text \<open>
  Exception events (\<open>src/trace.cpp\<close>, built with LOG_EXCEPTIONS): the line of an event, and what a
  throw, a catch and a termination do to the thread's records. The interposers that call these
  operations are in theory Interposers.
\<close>

section \<open>Names and sites\<close>

text \<open>The memoized, demangled names of exception types, shared by all threads.\<close>

type_synonym type_names = "string \<Rightarrow> string option"

definition exception_type_name :: "world \<Rightarrow> event_type \<Rightarrow> type_names \<Rightarrow> string \<times> type_names" where
  "exception_type_name w type cache =
     (case et_label type of
        Some label \<Rightarrow> (label, cache)
      | None \<Rightarrow>
          (case et_info type of
             None \<Rightarrow> (''<unknown type>'', cache)
           | Some mangled \<Rightarrow>
               (case cache mangled of
                  Some name \<Rightarrow> (c_str name, cache)
                | None \<Rightarrow> (let name = demangle_cxa w mangled
                           in (c_str name, cache(mangled \<mapsto> name))))))"

record event_site =
  es_address :: "addr option"
  es_location :: resolved_frame_view

definition no_site :: event_site where
  "no_site = \<lparr>es_address = None, es_location = empty_view\<rparr>"

record event_input =
  ei_open :: open_input
  ei_resolver :: resolver_input
  ei_levels :: level_env
  ei_stack :: "(addr \<times> addr) option"
  ei_clock :: int
  ei_uncaught :: int
  ei_write :: write_result
  ei_current_what :: "string option"
  type_name_throws :: bool

text \<open>An exception in the lookup is None; a null address has no location.\<close>

definition resolve_event_site ::
    "event_input \<Rightarrow> addr option \<Rightarrow> caches \<Rightarrow> event_site option \<times> caches" where
  "resolve_event_site inp address c =
     (case address of
        None \<Rightarrow> (Some no_site, c)
      | Some a \<Rightarrow>
          let r = ei_resolver inp
          in if resolve_throws r then (None, in_interfere r c)
             else let (view, c, acts) = resolve_location (in_world r) (in_interfere r) c a empty_view
                  in (Some \<lparr>es_address = Some a, es_location = view\<rparr>, c))"

section \<open>The line of an event\<close>

definition event_column :: "config \<Rightarrow> string \<Rightarrow> string" where
  "event_column cfg column_word =
     (if log_elapsed cfg then take DURATION_FIELD_WIDTH column_word @ '' '' else [])"

definition event_of ::
    "config \<Rightarrow> string \<Rightarrow> string \<Rightarrow> string \<Rightarrow> string \<Rightarrow> string option \<Rightarrow> event_site \<Rightarrow> string \<Rightarrow> int \<Rightarrow> event_line" where
  "event_of cfg v label suf tname w site now depth =
     \<lparr>ev_timestamp = now, site_address = (if log_addr cfg then es_address site else None),
      ev_depth = depth, verb = v, type_name = tname, what_text = w, site_label = label,
      site_file = caller_filename (es_location site),
      site_line = caller_line_number (es_location site), suffix = suf\<rparr>"

text \<open>The first component of the result says whether an exception left the function.\<close>

definition write_event_line ::
    "config \<Rightarrow> event_input \<Rightarrow> string \<Rightarrow> string \<Rightarrow> string \<Rightarrow> string \<Rightarrow> string \<Rightarrow> string option \<Rightarrow> event_site
       \<Rightarrow> trace_globals \<Rightarrow> thread_state \<Rightarrow> bool \<times> trace_globals \<times> thread_state" where
  "write_event_line cfg inp v label suf column_word tname w site g t =
     (let (threw, fp, g, t) = get_thread_fp cfg (ei_open inp) g t
      in if threw \<or> \<not> fp then (threw, g, t)
         else
           let (now, cache) = pretty_time_into (io_render (ei_open inp)) (thread_time t)
                                PRETTY_TIME_BUF_SIZE (ei_clock inp);
               t = t\<lparr>thread_time := cache\<rparr>;
               event = event_of cfg v label suf tname w site now (current_stack_depth t + 1);
               line = format_event_into FORMAT_BUF_SIZE event (event_column cfg column_word) True
           in (False, g, write_line cfg (ei_write inp) line t))"

section \<open>Throws\<close>

definition throw_line ::
    "config \<Rightarrow> event_input \<Rightarrow> throw_kind \<Rightarrow> string \<Rightarrow> string option \<Rightarrow> event_site
       \<Rightarrow> trace_globals \<Rightarrow> thread_state \<Rightarrow> bool \<times> trace_globals \<times> thread_state" where
  "throw_line cfg inp kind tname w at g t =
     (case kind of
        primary \<Rightarrow>
          write_event_line cfg inp ''throw'' ''thrown at'' [] DURATION_EVENT_THROW tname w at g t
      | rethrow \<Rightarrow>
          write_event_line cfg inp ''rethrow'' ''rethrown at'' [] DURATION_EVENT_RETHROW tname w at g t
      | exception_ptr \<Rightarrow>
          write_event_line cfg inp ''rethrow'' ''rethrown at'' '' via std::rethrow_exception''
            DURATION_EVENT_RETHROW tname w at g t)"

text \<open>The state the events share with other threads: the resolver's caches and the type names.\<close>

type_synonym shared_state = "caches \<times> type_names \<times> trace_globals"

definition on_throw ::
    "config \<Rightarrow> event_input \<Rightarrow> throw_kind \<Rightarrow> event_type \<Rightarrow> string option \<Rightarrow> addr
       \<Rightarrow> shared_state \<Rightarrow> thread_state \<Rightarrow> shared_state \<times> thread_state" where
  "on_throw cfg inp kind type w site sh t =
     (let (c, names, g) = sh in
      if in_instrumentation t then (sh, t)
      else
        let t = t\<lparr>in_instrumentation := True\<rparr>;
            (at, c) = resolve_event_site inp (Some site) c;
            (sh, t) =
              (case at of
                 None \<Rightarrow> ((c, names, g), t)
               | Some at \<Rightarrow>
                   if type_name_throws inp then ((c, names, g), t)
                   else let (tname, names) = exception_type_name (in_world (ei_resolver inp)) type names;
                            (threw, g, t) = throw_line cfg inp kind tname w at g t
                        in ((c, names, g), t))
        in (sh, t\<lparr>in_instrumentation := False\<rparr>))"

section \<open>Terminations\<close>

definition current_exception_what :: "event_input \<Rightarrow> string option" where
  "current_exception_what inp =
     map_option (\<lambda>w. sanitize_what_into (Some w) WHAT_TEXT_CAPACITY) (ei_current_what inp)"

definition CLANG_TERMINATE_STUB :: string where
  "CLANG_TERMINATE_STUB = ''__clang_call_terminate''"

definition terminate_label :: "terminate_reason \<Rightarrow> string" where
  "terminate_label reason =
     (case reason of
        no_handler \<Rightarrow> ''no handler found''
      | noexcept_boundary \<Rightarrow> ''thrown across a noexcept boundary''
      | terminate_called \<Rightarrow> ''std::terminate called at'')"

definition on_terminate ::
    "config \<Rightarrow> event_input \<Rightarrow> terminate_reason \<Rightarrow> event_type \<Rightarrow> string option \<Rightarrow> addr option
       \<Rightarrow> shared_state \<Rightarrow> thread_state \<Rightarrow> shared_state \<times> thread_state" where
  "on_terminate cfg inp reason type w site sh t =
     (let (c, names, g) = sh in
      if in_instrumentation t then (sh, t)
      else
        let t = t\<lparr>in_instrumentation := True\<rparr>;
            (at, c) = resolve_event_site inp site c;
            (sh, t) =
              (case at of
                 None \<Rightarrow> ((c, names, g), t)
               | Some at \<Rightarrow>
                   if type_name_throws inp then ((c, names, g), t)
                   else
                     let (tname, names) = exception_type_name (in_world (ei_resolver inp)) type names;
                         tname = (if reason = terminate_called \<and> et_info type = None
                                     \<and> et_label type = None
                                  then (if ei_uncaught inp > 0 then ''(exception in flight)''
                                        else ''(no active exception)'')
                                  else tname);
                         w = (if et_info type \<noteq> None \<and> w = None then current_exception_what inp else w);
                         (threw, g, t) = write_event_line cfg inp ''terminate'' (terminate_label reason) []
                                    DURATION_EVENT_TERMINATE tname w at g t
                     in ((c, names, g), t))
        in (sh, t\<lparr>in_instrumentation := False\<rparr>))"

section \<open>Catches\<close>

definition event_level :: "event_input \<Rightarrow> addr \<Rightarrow> addr \<Rightarrow> thread_state \<Rightarrow> addr" where
  "event_level inp site frame t =
     measured_frame_level ((ei_levels inp)\<lparr>env_bounds := thread_bounds t\<rparr>) site frame"

text \<open>
  The records of the frames the exception unwound, by their levels. The level of Clang's terminate
  stub counts as unwound itself.
\<close>

definition reclaim_unwound ::
    "config \<Rightarrow> event_input \<Rightarrow> addr \<Rightarrow> thread_state \<Rightarrow> thread_state" where
  "reclaim_unwound cfg inp level t =
     reclaim_dead_records cfg (ei_uncaught inp)
       (dead_records_on_catch (frames t) level (thread_bounds t)) at_catch t"

definition catch_terminating ::
    "config \<Rightarrow> event_input \<Rightarrow> string \<Rightarrow> string option \<Rightarrow> addr \<Rightarrow> addr
       \<Rightarrow> trace_globals \<Rightarrow> thread_state \<Rightarrow> bool \<times> trace_globals \<times> thread_state" where
  "catch_terminating cfg inp tname w site frame g t =
     (let t = resolve_thread_stack_bounds (ei_stack inp) t;
          stub_level = event_level inp site frame t;
          t = reclaim_unwound cfg inp (stub_level + 1) t
      in write_event_line cfg inp ''terminate'' ''thrown across a noexcept boundary'' []
           DURATION_EVENT_TERMINATE tname w no_site g t)"

definition catch_handled ::
    "config \<Rightarrow> event_input \<Rightarrow> string \<Rightarrow> string option \<Rightarrow> addr \<Rightarrow> addr \<Rightarrow> event_site
       \<Rightarrow> caches \<Rightarrow> trace_globals \<Rightarrow> thread_state \<Rightarrow> caches \<times> trace_globals \<times> thread_state" where
  "catch_handled cfg inp tname w site frame at c g t =
     (let t = resolve_thread_stack_bounds (ei_stack inp) t;
          catch_level = event_level inp site frame t;
          t = reclaim_unwound cfg inp catch_level t;
          (threw, c, t) = reclaim_dead_inlined_records_on_catch cfg (ei_resolver inp)
                            (ei_uncaught inp) catch_level (site - 1) c t
      in if threw then (c, g, t)
         else let (threw, g, t) = write_event_line cfg inp ''catch'' ''caught at'' [] DURATION_EVENT_CATCH
                             tname w at g t
              in (c, g, t))"

text \<open>The result says first whether the catch was the program terminating.\<close>

definition on_catch ::
    "config \<Rightarrow> event_input \<Rightarrow> event_type \<Rightarrow> string option \<Rightarrow> bool \<Rightarrow> addr \<Rightarrow> addr
       \<Rightarrow> shared_state \<Rightarrow> thread_state \<Rightarrow> bool \<times> shared_state \<times> thread_state" where
  "on_catch cfg inp type w dependent wrapper_site wrapper_frame sh t =
     (let (c, names, g) = sh in
      if in_instrumentation t then (False, sh, t)
      else
        let t = t\<lparr>in_instrumentation := True\<rparr>;
            (at, c) = resolve_event_site inp (Some (wrapper_site - 1)) c;
            (terminating, sh, t) =
              (case at of
                 None \<Rightarrow> (False, (c, names, g), t)
               | Some at \<Rightarrow>
                   if type_name_throws inp then (False, (c, names, g), t)
                   else
                     let (tname, names) = exception_type_name (in_world (ei_resolver inp)) type names;
                         w = (if dependent \<and> w = None then current_exception_what inp else w)
                     in if caller_function_base (es_location at) = Some CLANG_TERMINATE_STUB
                        then let (threw, g, t) = catch_terminating cfg inp tname w wrapper_site
                                                   wrapper_frame g t
                             in (\<not> threw, (c, names, g), t)
                        else let (c, g, t) = catch_handled cfg inp tname w wrapper_site wrapper_frame
                                               at c g t
                             in (False, (c, names, g), t))
        in (terminating, sh, t\<lparr>in_instrumentation := False\<rparr>))"

end
