(* ===== verification/Interposers.thy ===== *)
theory Interposers
  imports TraceEvents
begin

text \<open>
  The interposers for the C++ runtime's throw, rethrow, catch and terminate entry points
  (\<open>src/exceptions.cpp\<close>): what each reports to the tracer before or after it forwards to the runtime.
  None is the abort of an interposer that has nothing to forward to. The runtime's answers about the
  exception at hand are a parameter.
\<close>

section \<open>State and inputs\<close>

record interposer_state =
  t_terminating :: bool
  t_last_caught_label :: "string option"

definition initial_interposer :: interposer_state where
  "initial_interposer = \<lparr>t_terminating = False, t_last_caught_label = None\<rparr>"

text \<open>
  \<open>ri_text\<close> is the \<open>what()\<close> of the object at hand if its type derives from \<open>std::exception\<close>;
  \<open>ri_object\<close> the exception object handed to a catch; \<open>ri_current_type\<close> what
  \<open>__cxa_current_exception_type\<close> says, for a catch after the runtime has marked it as caught.
\<close>

record runtime_input =
  ri_event :: event_input
  ri_linker :: dynamic_linker
  ri_current_type :: "string option"
  ri_object :: "u64 option"
  ri_text :: "string option"
  ri_return :: addr
  ri_frame :: addr

definition sanitized_what :: "string option \<Rightarrow> string option" where
  "sanitized_what text = map_option (\<lambda>w. sanitize_what_into (Some w) WHAT_TEXT_CAPACITY) text"

definition std_exception_what :: "string option \<Rightarrow> string option \<Rightarrow> string option" where
  "std_exception_what type text = (case type of None \<Rightarrow> None | Some _ \<Rightarrow> text)"

text \<open>Nothing is reported from inside the tracer or once the thread's program is terminating.\<close>

definition silent :: "interposer_state \<Rightarrow> thread_state \<Rightarrow> bool" where
  "silent ist t \<longleftrightarrow> in_instrumentation t \<or> t_terminating ist"

type_synonym interposed = "interposer_state \<times> shared_state \<times> thread_state"

section \<open>The five entry points\<close>

definition cslg_cxa_throw ::
    "config \<Rightarrow> runtime_input \<Rightarrow> string option \<Rightarrow> interposed \<Rightarrow> interposed option" where
  "cslg_cxa_throw cfg inp type s =
     (let (ist, sh, t) = s in
      if next_definition (ri_linker inp) ''__cxa_throw'' = None then cannot_forward
      else if silent ist t then Some (ist, sh, t)
      else let w = sanitized_what (std_exception_what type (ri_text inp));
               (sh, t) = on_throw cfg (ri_event inp) primary \<lparr>et_info = type, et_label = None\<rparr> w
                           (ri_return inp - 1) sh t
           in Some (ist, sh, t))"

definition cslg_cxa_rethrow :: "config \<Rightarrow> runtime_input \<Rightarrow> interposed \<Rightarrow> interposed option" where
  "cslg_cxa_rethrow cfg inp s =
     (let (ist, sh, t) = s in
      if next_definition (ri_linker inp) ''__cxa_rethrow'' = None then cannot_forward
      else if silent ist t then Some (ist, sh, t)
      else let type = ri_current_type inp;
               label = (if type = None then t_last_caught_label ist else None);
               ist = ist\<lparr>t_last_caught_label := None\<rparr>;
               (sh, t) = on_throw cfg (ri_event inp) rethrow \<lparr>et_info = type, et_label = label\<rparr> None
                           (ri_return inp - 1) sh t
           in Some (ist, sh, t))"

definition cslg_rethrow_exception ::
    "config \<Rightarrow> runtime_input \<Rightarrow> string option \<Rightarrow> interposed \<Rightarrow> interposed option" where
  "cslg_rethrow_exception cfg inp pointer_type s =
     (let (ist, sh, t) = s in
      if next_definition (ri_linker inp) RETHROW_EXCEPTION_SYMBOL = None then cannot_forward
      else if silent ist t then Some (ist, sh, t)
      else let (sh, t) = on_throw cfg (ri_event inp) exception_ptr
                           \<lparr>et_info = pointer_type, et_label = None\<rparr> None (ri_return inp - 1) sh t
           in Some (ist, sh, t))"

definition cslg_cxa_begin_catch :: "config \<Rightarrow> runtime_input \<Rightarrow> interposed \<Rightarrow> interposed option" where
  "cslg_cxa_begin_catch cfg inp s =
     (let (ist, sh, t) = s in
      if next_definition (ri_linker inp) ''__cxa_begin_catch'' = None then cannot_forward
      else if silent ist t then Some (ist, sh, t)
      else
        let type = \<lparr>et_info = ri_current_type inp,
                    et_label = foreign_exception_label (ri_object inp)\<rparr>;
            ist = ist\<lparr>t_last_caught_label := et_label type\<rparr>;
            w = (if is_native_primary_exception (ri_object inp)
                 then sanitized_what (std_exception_what (et_info type) (ri_text inp)) else None)
        in case catch_means_terminate (ri_linker inp) (ri_return inp) of
             Some reason \<Rightarrow>
               let (sh, t) = on_terminate cfg (ri_event inp) reason type w None sh t
               in Some (ist\<lparr>t_terminating := True\<rparr>, sh, t)
           | None \<Rightarrow>
               let (terminating, sh, t) =
                     on_catch cfg (ri_event inp) type w (is_native_dependent_exception (ri_object inp))
                       (ri_return inp) (ri_frame inp) sh t
               in Some (if terminating then ist\<lparr>t_terminating := True\<rparr> else ist, sh, t))"

definition cslg_terminate :: "config \<Rightarrow> runtime_input \<Rightarrow> interposed \<Rightarrow> interposed option" where
  "cslg_terminate cfg inp s =
     (let (ist, sh, t) = s in
      if next_definition (ri_linker inp) TERMINATE_SYMBOL = None then cannot_forward
      else if silent ist t then Some (ist, sh, t)
      else let ist = ist\<lparr>t_terminating := True\<rparr>;
               (sh, t) = on_terminate cfg (ri_event inp) terminate_called
                           \<lparr>et_info = ri_current_type inp, et_label = None\<rparr> None
                           (Some (ri_return inp - 1)) sh t
           in Some (ist, sh, t))"

section \<open>A thread's runtime calls\<close>

datatype runtime_call =
    Throw runtime_input "string option"
  | Rethrow runtime_input
  | Rethrow_exception runtime_input "string option"
  | Begin_catch runtime_input
  | Terminate runtime_input

text \<open>The call has a definition of the runtime to go to.\<close>

fun forwards :: "runtime_call \<Rightarrow> bool" where
  "forwards (Throw inp type) \<longleftrightarrow> next_definition (ri_linker inp) ''__cxa_throw'' \<noteq> None"
| "forwards (Rethrow inp) \<longleftrightarrow> next_definition (ri_linker inp) ''__cxa_rethrow'' \<noteq> None"
| "forwards (Rethrow_exception inp type) \<longleftrightarrow>
     next_definition (ri_linker inp) RETHROW_EXCEPTION_SYMBOL \<noteq> None"
| "forwards (Begin_catch inp) \<longleftrightarrow> next_definition (ri_linker inp) ''__cxa_begin_catch'' \<noteq> None"
| "forwards (Terminate inp) \<longleftrightarrow> next_definition (ri_linker inp) TERMINATE_SYMBOL \<noteq> None"

fun runtime_step :: "config \<Rightarrow> runtime_call \<Rightarrow> interposed \<Rightarrow> interposed option" where
  "runtime_step cfg (Throw inp type) s = cslg_cxa_throw cfg inp type s"
| "runtime_step cfg (Rethrow inp) s = cslg_cxa_rethrow cfg inp s"
| "runtime_step cfg (Rethrow_exception inp type) s = cslg_rethrow_exception cfg inp type s"
| "runtime_step cfg (Begin_catch inp) s = cslg_cxa_begin_catch cfg inp s"
| "runtime_step cfg (Terminate inp) s = cslg_terminate cfg inp s"

fun runtime_run :: "config \<Rightarrow> runtime_call list \<Rightarrow> interposed \<Rightarrow> interposed option" where
  "runtime_run cfg [] s = Some s"
| "runtime_run cfg (c # cs) s =
     (case runtime_step cfg c s of None \<Rightarrow> None | Some s' \<Rightarrow> runtime_run cfg cs s')"

end
