(* ===== verification/ReclaimEffect.thy ===== *)
theory ReclaimEffect
  imports TraceEvents Interposers
begin

text \<open>
  What reclaiming and patching change, stated once for all hooks: records leave from the top of the
  stack, the depth falls by the logged ones among them, and in the file only the patch fields of
  their lines change.
\<close>

section \<open>Patch fields\<close>

text \<open>The positions in the file the tracer may rewrite for a record.\<close>

definition patch_positions :: "config \<Rightarrow> frame_record \<Rightarrow> nat set" where
  "patch_positions cfg r =
     (if logged r \<and> 0 \<le> line_start r
      then (if log_elapsed cfg
            then {nat (line_start r) + PLACEHOLDER_OFFSET_IN_LINE
                  ..< nat (line_start r) + PLACEHOLDER_OFFSET_IN_LINE + DURATION_FIELD_WIDTH} else {}) \<union>
           (if log_exceptions cfg \<and> 1 \<le> line_depth r
            then {nat (line_start r) + tree_glyph_offset (line_depth r) (LINE_PREFIX_EXTRA cfg)} else {})
      else {})"

text \<open>A patch keeps the length, changes bytes of its positions only, and never writes a newline.\<close>

definition patched_within :: "nat set \<Rightarrow> string \<Rightarrow> string \<Rightarrow> bool" where
  "patched_within S f f' \<longleftrightarrow>
     length f' = length f \<and> (\<forall>i < length f. f' ! i = f ! i \<or> (i \<in> S \<and> f' ! i \<noteq> newline))"

lemma patched_within_refl [simp, intro]: "patched_within S f f"
  by (simp add: patched_within_def)

lemma patched_within_trans:
  "patched_within S f f' \<Longrightarrow> patched_within S' f' f'' \<Longrightarrow> patched_within (S \<union> S') f f''"
  unfolding patched_within_def by (metis UnCI)

lemma patched_within_mono: "patched_within S f f' \<Longrightarrow> S \<subseteq> S' \<Longrightarrow> patched_within S' f f'"
  by (auto simp: patched_within_def)

lemma patched_within_pwrite:
  assumes "{off ..< off + length bs} \<subseteq> S" "off + length bs \<le> length f" "newline \<notin> set bs"
  shows "patched_within S f (pwrite_at f off bs)"
proof -
  have "bs ! (i - off) \<noteq> newline" if "off \<le> i" "i < off + length bs" for i
    using assms(3) that nth_mem [of "i - off" bs] by force
  with assms show ?thesis
    by (auto simp: patched_within_def length_pwrite_inside nth_pwrite_inside subset_iff)
qed

lemma patch_line_effect:
  assumes "newline \<notin> set bs"
  shows "\<exists>b. patch_line_bytes start off bs t = t\<lparr>file_bytes := b\<rparr> \<and>
     (0 \<le> start \<longrightarrow> {nat start + off ..< nat start + off + length bs} \<subseteq> S \<longrightarrow>
      nat start + off + length bs \<le> length (file_bytes t) \<longrightarrow> patched_within S (file_bytes t) b)"
proof (cases "\<not> patch_fd t \<or> start < 0")
  case True
  then have "patch_line_bytes start off bs t = t\<lparr>file_bytes := file_bytes t\<rparr>"
    by (simp add: patch_line_bytes_def)
  then show ?thesis by blast
next
  case False
  then have "patch_line_bytes start off bs t =
      t\<lparr>file_bytes := pwrite_at (file_bytes t) (nat start + off) bs\<rparr>"
    by (simp add: patch_line_bytes_def)
  then show ?thesis using patched_within_pwrite [OF _ _ assms] by blast
qed

definition inside_file :: "config \<Rightarrow> frame_record \<Rightarrow> string \<Rightarrow> bool" where
  "inside_file cfg r f \<longleftrightarrow> patch_positions cfg r \<subseteq> {..< length f}"

lemma duration_patch_effect:
  assumes "log_elapsed cfg" "logged r" "length bs \<le> DURATION_FIELD_WIDTH" "newline \<notin> set bs"
  shows "\<exists>b. patch_line_bytes (line_start r) PLACEHOLDER_OFFSET_IN_LINE bs t = t\<lparr>file_bytes := b\<rparr> \<and>
    (inside_file cfg r (file_bytes t) \<longrightarrow> patched_within (patch_positions cfg r) (file_bytes t) b)"
proof -
  let ?o = "nat (line_start r) + PLACEHOLDER_OFFSET_IN_LINE"
  have in_S: "{?o ..< ?o + DURATION_FIELD_WIDTH} \<subseteq> patch_positions cfg r" if "0 \<le> line_start r"
    using assms that by (auto simp: patch_positions_def)
  have fits: "?o + DURATION_FIELD_WIDTH \<le> length (file_bytes t)"
    if "0 \<le> line_start r" "inside_file cfg r (file_bytes t)"
  proof -
    have "?o + DURATION_FIELD_WIDTH - 1 \<in> {?o ..< ?o + DURATION_FIELD_WIDTH}"
      by (simp add: width_defs)
    then have "?o + DURATION_FIELD_WIDTH - 1 < length (file_bytes t)"
      using in_S that unfolding inside_file_def by blast
    then show ?thesis by (simp add: width_defs)
  qed
  obtain b where b: "patch_line_bytes (line_start r) PLACEHOLDER_OFFSET_IN_LINE bs t = t\<lparr>file_bytes := b\<rparr>"
    "0 \<le> line_start r \<longrightarrow> {?o ..< ?o + length bs} \<subseteq> patch_positions cfg r \<longrightarrow>
      ?o + length bs \<le> length (file_bytes t) \<longrightarrow>
      patched_within (patch_positions cfg r) (file_bytes t) b"
    using patch_line_effect [OF assms(4), of "line_start r" PLACEHOLDER_OFFSET_IN_LINE t "patch_positions cfg r"]
    by blast
  show ?thesis
  proof (cases "0 \<le> line_start r")
    case False
    then have "patch_line_bytes (line_start r) PLACEHOLDER_OFFSET_IN_LINE bs t =
        t\<lparr>file_bytes := file_bytes t\<rparr>" by (simp add: patch_line_bytes_def)
    then show ?thesis by blast
  next
    case True
    have "{?o ..< ?o + length bs} \<subseteq> patch_positions cfg r"
      using in_S [OF True] assms(3) by fastforce
    moreover have "?o + length bs \<le> length (file_bytes t)" if "inside_file cfg r (file_bytes t)"
      using fits [OF True that] assms(3) by simp
    ultimately show ?thesis using b True by blast
  qed
qed

lemma glyph_patch_effect:
  assumes "log_exceptions cfg" "logged r" "1 \<le> line_depth r" "0 \<le> line_start r" "how \<noteq> newline"
  shows "\<exists>b. patch_line_bytes (line_start r)
               (tree_glyph_offset (line_depth r) (LINE_PREFIX_EXTRA cfg)) [how] t = t\<lparr>file_bytes := b\<rparr> \<and>
    (inside_file cfg r (file_bytes t) \<longrightarrow> patched_within (patch_positions cfg r) (file_bytes t) b)"
proof -
  let ?o = "nat (line_start r) + tree_glyph_offset (line_depth r) (LINE_PREFIX_EXTRA cfg)"
  have in_S: "?o \<in> patch_positions cfg r" using assms by (simp add: patch_positions_def)
  then have "{?o ..< ?o + length [how]} \<subseteq> patch_positions cfg r" by auto
  moreover have "?o + length [how] \<le> length (file_bytes t)" if "inside_file cfg r (file_bytes t)"
    using that in_S by (auto simp: inside_file_def subset_iff)
  ultimately show ?thesis
    using patch_line_effect [of "[how]" "line_start r"
        "tree_glyph_offset (line_depth r) (LINE_PREFIX_EXTRA cfg)" t "patch_positions cfg r"] assms(4,5)
    by (metis empty_iff empty_set set_ConsD)
qed

lemma inside_file_patched: "patched_within S f f' \<Longrightarrow> inside_file cfg r f' \<longleftrightarrow> inside_file cfg r f"
  by (simp add: inside_file_def patched_within_def)

text \<open>Two patches of the same record's fields make one.\<close>

lemma bytes_effect_trans:
  assumes "t1 = t\<lparr>file_bytes := b1\<rparr>"
    and "inside_file cfg r (file_bytes t) \<longrightarrow> patched_within (patch_positions cfg r) (file_bytes t) b1"
    and "t2 = t1\<lparr>file_bytes := b2\<rparr>"
    and "inside_file cfg r b1 \<longrightarrow> patched_within (patch_positions cfg r) b1 b2"
  shows "t2 = t\<lparr>file_bytes := b2\<rparr> \<and>
    (inside_file cfg r (file_bytes t) \<longrightarrow> patched_within (patch_positions cfg r) (file_bytes t) b2)"
  using assms patched_within_trans [of "patch_positions cfg r" "file_bytes t" b1 "patch_positions cfg r" b2]
    inside_file_patched [of "patch_positions cfg r" "file_bytes t" b1 cfg r]
  by simp

lemma mark_frame_effect:
  assumes "log_exceptions cfg" "logged r" "how \<noteq> newline"
    and "\<forall>bytes. field = Some bytes \<longrightarrow> newline \<notin> set bytes"
  shows "\<exists>b. mark_frame_end cfg r how field t = t\<lparr>file_bytes := b\<rparr> \<and>
    (inside_file cfg r (file_bytes t) \<longrightarrow> patched_within (patch_positions cfg r) (file_bytes t) b)"
proof (cases "0 \<le> line_start r")
  case False
  then have "mark_frame_end cfg r how field t = t\<lparr>file_bytes := file_bytes t\<rparr>"
    by (simp add: mark_frame_end_def)
  then show ?thesis by blast
next
  case True
  define t1 where "t1 = (case field of
      Some bytes \<Rightarrow> if log_elapsed cfg
        then patch_line_bytes (line_start r) PLACEHOLDER_OFFSET_IN_LINE (take DURATION_FIELD_WIDTH bytes) t
        else t
    | None \<Rightarrow> t)"
  have "\<exists>b. t1 = t\<lparr>file_bytes := b\<rparr> \<and>
    (inside_file cfg r (file_bytes t) \<longrightarrow> patched_within (patch_positions cfg r) (file_bytes t) b)"
  proof (cases "field \<noteq> None \<and> log_elapsed cfg")
    case True
    then obtain bytes where b: "field = Some bytes" "log_elapsed cfg" by auto
    then have "newline \<notin> set (take DURATION_FIELD_WIDTH bytes)"
      using assms(4) by (auto dest: in_set_takeD)
    with b show ?thesis
      using duration_patch_effect [of cfg r "take DURATION_FIELD_WIDTH bytes" t] assms(2)
      by (simp add: t1_def)
  next
    case False
    then have "t1 = t" by (cases field) (simp_all add: t1_def)
    then have "t1 = t\<lparr>file_bytes := file_bytes t\<rparr>" by simp
    then show ?thesis by blast
  qed
  then obtain b1 where b1: "t1 = t\<lparr>file_bytes := b1\<rparr>"
    "inside_file cfg r (file_bytes t) \<longrightarrow> patched_within (patch_positions cfg r) (file_bytes t) b1" by blast
  have m: "mark_frame_end cfg r how field t =
      (if line_depth r \<ge> 1
       then patch_line_bytes (line_start r) (tree_glyph_offset (line_depth r) (LINE_PREFIX_EXTRA cfg)) [how] t1
       else t1)"
    using True assms(2) by (simp add: mark_frame_end_def t1_def Let_def)
  show ?thesis
  proof (cases "line_depth r \<ge> 1")
    case False
    then show ?thesis using m b1 by auto
  next
    case True
    obtain b2 where b2: "mark_frame_end cfg r how field t = t1\<lparr>file_bytes := b2\<rparr>"
      "inside_file cfg r (file_bytes t1) \<longrightarrow> patched_within (patch_positions cfg r) (file_bytes t1) b2"
      using glyph_patch_effect [OF assms(1,2) True \<open>0 \<le> line_start r\<close> assms(3), of t1] m True by auto
    have "inside_file cfg r b1 \<longrightarrow> patched_within (patch_positions cfg r) b1 b2"
      using b2(2) by (simp add: b1(1))
    from bytes_effect_trans [OF b1 b2(1) this] show ?thesis by blast
  qed
qed

section \<open>Popping records\<close>

definition logged_count :: "frame_record list \<Rightarrow> int" where
  "logged_count rs = int (length (filter logged rs))"

lemma logged_count_simps [simp]:
  "logged_count [] = 0"
  "logged_count (rs @ rs') = logged_count rs + logged_count rs'"
  "logged_count [r] = (if logged r then 1 else 0)"
  by (simp_all add: logged_count_def)

text \<open>
  The popped records and the new bytes. Bytes change only in the fields of popped records, as long
  as those lie inside the file.
\<close>

definition popped_to :: "config \<Rightarrow> thread_state \<Rightarrow> frame_record list \<Rightarrow> thread_state \<Rightarrow> bool" where
  "popped_to cfg t dead t' \<longleftrightarrow>
     (\<exists>kept b. frames t = kept @ dead \<and>
        t' = t\<lparr>frames := kept, current_stack_depth := current_stack_depth t - logged_count dead,
               file_bytes := b\<rparr> \<and>
        ((\<forall>r \<in> set dead. inside_file cfg r (file_bytes t)) \<longrightarrow>
         patched_within (\<Union>r \<in> set dead. patch_positions cfg r) (file_bytes t) b))"

lemma popped_to_refl [intro]: "popped_to cfg t [] t"
  unfolding popped_to_def
  by (rule exI [of _ "frames t"], rule exI [of _ "file_bytes t"]) simp

lemma popped_to_trans:
  assumes "popped_to cfg t dead t'" "popped_to cfg t' dead' t''"
  shows "popped_to cfg t (dead' @ dead) t''"
proof -
  obtain kept b where 1: "frames t = kept @ dead"
      "t' = t\<lparr>frames := kept, current_stack_depth := current_stack_depth t - logged_count dead,
              file_bytes := b\<rparr>"
      "(\<forall>r \<in> set dead. inside_file cfg r (file_bytes t)) \<longrightarrow>
         patched_within (\<Union>r \<in> set dead. patch_positions cfg r) (file_bytes t) b"
    using assms(1) unfolding popped_to_def by blast
  obtain kept' b' where 2: "frames t' = kept' @ dead'"
      "t'' = t'\<lparr>frames := kept', current_stack_depth := current_stack_depth t' - logged_count dead',
               file_bytes := b'\<rparr>"
      "(\<forall>r \<in> set dead'. inside_file cfg r (file_bytes t')) \<longrightarrow>
         patched_within (\<Union>r \<in> set dead'. patch_positions cfg r) (file_bytes t') b'"
    using assms(2) unfolding popped_to_def by blast
  have "patched_within (\<Union>r \<in> set (dead' @ dead). patch_positions cfg r) (file_bytes t) b'"
    if inside: "\<forall>r \<in> set (dead' @ dead). inside_file cfg r (file_bytes t)"
  proof -
    have p: "patched_within (\<Union>r \<in> set dead. patch_positions cfg r) (file_bytes t) b"
      using 1(3) inside by simp
    then have "patched_within (\<Union>r \<in> set dead'. patch_positions cfg r) b b'"
      using 2(3) inside inside_file_patched [OF p] by (simp add: 1(2))
    from patched_within_trans [OF p this] show ?thesis
      by (rule patched_within_mono) auto
  qed
  moreover have "frames t = kept' @ (dead' @ dead)" using 1(1,2) 2(1) by simp
  moreover have "t'' = t\<lparr>frames := kept',
      current_stack_depth := current_stack_depth t - logged_count (dead' @ dead), file_bytes := b'\<rparr>"
    using 1(2) 2(2) by simp
  ultimately show ?thesis unfolding popped_to_def by blast
qed

lemma newline_not_in_unwound: "how \<noteq> newline \<Longrightarrow> unwound_field cfg how = Some f \<Longrightarrow> newline \<notin> set f"
  by (auto simp: unwound_field_def set_duration_flag_def DURATION_UNWOUND_def newline_def
      split: if_splits)

lemma reclaim_top_popped:
  assumes "frames t \<noteq> []" "how \<noteq> newline"
  shows "popped_to cfg t [last (frames t)] (reclaim_top cfg how t)"
proof -
  let ?r = "last (frames t)"
  let ?t = "t\<lparr>frames := butlast (frames t)\<rparr>"
  let ?t' = "?t\<lparr>current_stack_depth := current_stack_depth t - 1\<rparr>"
  have fr: "frames t = butlast (frames t) @ [?r]" using assms by simp
  show ?thesis
  proof (cases "logged ?r \<and> log_exceptions cfg")
    case True
    obtain b where "mark_frame_end cfg ?r how (unwound_field cfg how) ?t' = ?t'\<lparr>file_bytes := b\<rparr>"
      "inside_file cfg ?r (file_bytes ?t') \<longrightarrow> patched_within (patch_positions cfg ?r) (file_bytes ?t') b"
      using mark_frame_effect [of cfg ?r how "unwound_field cfg how" ?t'] True assms(2)
        newline_not_in_unwound by blast
    then show ?thesis
      using True fr unfolding popped_to_def
      by (intro exI [of _ "butlast (frames t)"] exI [of _ b]) (simp add: reclaim_top_def Let_def)
  next
    case False
    then show ?thesis
      using fr unfolding popped_to_def
      by (intro exI [of _ "butlast (frames t)"] exI [of _ "file_bytes t"])
        (auto simp: reclaim_top_def Let_def)
  qed
qed

lemma reclaim_loop_popped:
  "how \<noteq> newline \<Longrightarrow> n \<le> length (frames t) \<Longrightarrow>
   popped_to cfg t (drop (length (frames t) - n) (frames t)) (reclaim_loop cfg how n t)"
proof (induction n arbitrary: t)
  case 0
  then show ?case by auto
next
  case (Suc n)
  then have ne: "frames t \<noteq> []" by auto
  let ?t = "reclaim_top cfg how t"
  have "popped_to cfg ?t (drop (length (frames ?t) - n) (frames ?t)) (reclaim_loop cfg how n ?t)"
    using Suc.prems by (intro Suc.IH) simp_all
  from popped_to_trans [OF reclaim_top_popped [OF ne Suc.prems(1)] this]
  have "popped_to cfg t (drop (length (frames t) - Suc n) (butlast (frames t)) @ [last (frames t)])
      (reclaim_loop cfg how (Suc n) t)" using Suc.prems by simp
  moreover have "drop (length (frames t) - Suc n) (butlast (frames t)) @ [last (frames t)] =
      drop (length (frames t) - Suc n) (frames t)"
  proof -
    have "length (frames t) - Suc n \<le> length (butlast (frames t))" by simp
    then have "drop (length (frames t) - Suc n) (butlast (frames t) @ [last (frames t)]) =
        drop (length (frames t) - Suc n) (butlast (frames t)) @ [last (frames t)]" by simp
    with ne show ?thesis by simp
  qed
  ultimately show ?case by (simp only:)
qed

lemma reclaim_mark_printable: "reclaim_mark u n place \<noteq> newline"
  by (simp add: reclaim_mark_def FRAME_END_EXCEPTION_def FRAME_END_JUMP_def newline_def)

lemma reclaim_dead_records_popped:
  "n \<le> length (frames t) \<Longrightarrow>
   popped_to cfg t (drop (length (frames t) - n) (frames t)) (reclaim_dead_records cfg u n place t)"
  by (simp add: reclaim_dead_records_def reclaim_loop_popped reclaim_mark_printable)

text \<open>The frames left are given by the contract of the scan.\<close>

definition pops :: "config \<Rightarrow> thread_state \<Rightarrow> thread_state \<Rightarrow> bool" where
  "pops cfg t t' \<longleftrightarrow> (\<exists>dead. popped_to cfg t dead t')"

lemma pops_refl [simp, intro]: "pops cfg t t"
  unfolding pops_def by blast

lemma pops_trans: "pops cfg t t' \<Longrightarrow> pops cfg t' t'' \<Longrightarrow> pops cfg t t''"
  unfolding pops_def by (blast intro: popped_to_trans)

lemma reclaim_dead_records_pops:
  "n \<le> length (frames t) \<Longrightarrow> pops cfg t (reclaim_dead_records cfg u n place t)"
  unfolding pops_def by (blast intro: reclaim_dead_records_popped)

lemma reclaim_above_named_pops: "pops cfg t (reclaim_above_named cfg u level base place t)"
  by (simp add: reclaim_above_named_def reclaim_dead_records_pops above_match.dead_le)

lemma reclaim_above_parent_pops:
  "pops cfg t (reclaim_dead_inlined_records_above_parent cfg u key base place t)"
  by (auto simp: reclaim_dead_inlined_records_above_parent_def Let_def reclaim_above_named_pops
      split: option.split)

lemma reclaim_repeated_pops: "pops cfg t (reclaim_repeated cfg u key place t)"
proof (induction cfg u key place t rule: reclaim_repeated.induct)
  case (1 cfg u key place t)
  show ?case
  proof (cases "frames t \<noteq> [] \<and> same_activation_site (last (frames t)) key
      \<and> rec_level (last (frames t)) = key_level key")
    case True
    then have "1 \<le> length (frames t)" by (simp add: Suc_le_eq)
    from pops_trans [OF reclaim_dead_records_pops [OF this] 1 [OF True]] True show ?thesis
      by (subst reclaim_repeated.simps) simp
  next
    case False
    then show ?thesis by (subst reclaim_repeated.simps) auto
  qed
qed

lemma reclaim_by_chain_pops: "pops cfg t (reclaim_by_chain cfg u key chain place t)"
  using pops_trans [OF reclaim_repeated_pops reclaim_above_named_pops]
  by (auto simp: reclaim_by_chain_def Let_def reclaim_repeated_pops reclaim_above_named_pops)

lemma reclaim_on_enter_pops:
  "pops cfg t (snd (snd (reclaim_dead_inlined_records_on_enter cfg inp u key site place c t)))"
  by (auto simp: reclaim_dead_inlined_records_on_enter_def reclaim_by_chain_pops
      split: prod.split outcome.split)

lemma reclaim_on_catch_pops:
  "pops cfg t (snd (snd (reclaim_dead_inlined_records_on_catch cfg inp u level site c t)))"
  by (auto simp: reclaim_dead_inlined_records_on_catch_def reclaim_above_named_pops
      split: prod.split outcome.split)

lemma exit_field_printable: "newline \<notin> set (exit_field cfg inp b r)"
proof -
  have "newline \<notin> set (format_duration_12chars ns)" for ns
    by (rule format_duration_printable)
  moreover have "newline \<notin> set (set_duration_flag f FRAME_END_EXCEPTION)" if "newline \<notin> set f" for f
    using that set_update_subset_insert [of f 1 FRAME_END_EXCEPTION]
    by (auto simp: set_duration_flag_def FRAME_END_EXCEPTION_def newline_def)
  ultimately show ?thesis by (simp add: exit_field_def Let_def)
qed

lemma pop_own_record_pops:
  assumes "frames t \<noteq> []"
  shows "pops cfg t (pop_own_record cfg inp t)"
proof -
  let ?r = "last (frames t)"
  let ?t = "t\<lparr>frames := butlast (frames t)\<rparr>"
  let ?t' = "?t\<lparr>current_stack_depth := current_stack_depth t - 1\<rparr>"
  have fr: "frames t = butlast (frames t) @ [?r]" using assms by simp
  show ?thesis
  proof (cases "logged ?r")
    case False
    then show ?thesis
      using fr unfolding pops_def popped_to_def
      by (intro exI [of _ "[?r]"] exI [of _ "butlast (frames t)"] exI [of _ "file_bytes t"])
        (auto simp: pop_own_record_def Let_def)
  next
    case True
    define by_exc where "by_exc \<longleftrightarrow> log_exceptions cfg \<and> uncaught_exceptions inp > uncaught_at_enter ?r"
    define t1 where "t1 = (if log_elapsed cfg
        then patch_line_bytes (line_start ?r) PLACEHOLDER_OFFSET_IN_LINE
               (take DURATION_FIELD_WIDTH (exit_field cfg inp by_exc ?r)) ?t' else ?t')"
    have "\<exists>b. t1 = ?t'\<lparr>file_bytes := b\<rparr> \<and>
      (inside_file cfg ?r (file_bytes ?t') \<longrightarrow> patched_within (patch_positions cfg ?r) (file_bytes ?t') b)"
    proof (cases "log_elapsed cfg")
      case True
      then show ?thesis
        using duration_patch_effect [of cfg ?r
            "take DURATION_FIELD_WIDTH (exit_field cfg inp by_exc ?r)" ?t'] \<open>logged ?r\<close>
          exit_field_printable [of cfg inp by_exc ?r]
        by (auto simp: t1_def dest: in_set_takeD)
    next
      case False
      then have "t1 = ?t'\<lparr>file_bytes := file_bytes ?t'\<rparr>" by (simp add: t1_def)
      then show ?thesis by blast
    qed
    then obtain b1 where b1: "t1 = ?t'\<lparr>file_bytes := b1\<rparr>"
      "inside_file cfg ?r (file_bytes ?t') \<longrightarrow> patched_within (patch_positions cfg ?r) (file_bytes ?t') b1"
      by blast
    have e: "pop_own_record cfg inp t =
        (if by_exc then mark_frame_end cfg ?r FRAME_END_EXCEPTION None t1 else t1)"
      using True by (simp add: pop_own_record_def finish_line_def Let_def t1_def by_exc_def)
    have "\<exists>b. pop_own_record cfg inp t = ?t'\<lparr>file_bytes := b\<rparr> \<and>
      (inside_file cfg ?r (file_bytes ?t') \<longrightarrow> patched_within (patch_positions cfg ?r) (file_bytes ?t') b)"
    proof (cases by_exc)
      case False
      then show ?thesis using e b1 by auto
    next
      case True
      obtain b2 where b2: "pop_own_record cfg inp t = t1\<lparr>file_bytes := b2\<rparr>"
        "inside_file cfg ?r (file_bytes t1) \<longrightarrow> patched_within (patch_positions cfg ?r) (file_bytes t1) b2"
        using mark_frame_effect [of cfg ?r FRAME_END_EXCEPTION None t1] e True \<open>logged ?r\<close>
        by (auto simp: by_exc_def FRAME_END_EXCEPTION_def newline_def)
      have "inside_file cfg ?r b1 \<longrightarrow> patched_within (patch_positions cfg ?r) b1 b2"
        using b2(2) by (simp add: b1(1))
      from bytes_effect_trans [OF b1 b2(1) this] show ?thesis by blast
    qed
    then obtain b where "pop_own_record cfg inp t = ?t'\<lparr>file_bytes := b\<rparr>"
      "inside_file cfg ?r (file_bytes ?t') \<longrightarrow> patched_within (patch_positions cfg ?r) (file_bytes ?t') b"
      by blast
    then show ?thesis
      using fr True unfolding pops_def popped_to_def
      by (intro exI [of _ "[?r]"] exI [of _ "butlast (frames t)"] exI [of _ b]) simp
  qed
qed

end
