(* ===== verification/TraceInvariant.thy ===== *)
theory TraceInvariant
  imports ReclaimEffect
begin

text \<open>
  The bookkeeping invariant of a thread, kept by every operation whatever fails inside it: the depth
  counts the logged records, the stack fits its capacity, overflow frames are counted. The relation
  \<open>advances\<close> collects what the steps of a hook other than the push do to a thread.
\<close>

section \<open>Steps that push nothing\<close>

definition dead_positions :: "config \<Rightarrow> frame_record list \<Rightarrow> nat set" where
  "dead_positions cfg dead = (\<Union>r \<in> set dead. patch_positions cfg r)"

text \<open>
  Records leave from the top, the depth follows, the file is patched in their fields only and may be
  appended to.
\<close>

definition advances_by :: "config \<Rightarrow> frame_record list \<Rightarrow> thread_state \<Rightarrow> thread_state \<Rightarrow> bool" where
  "advances_by cfg dead t t' \<longleftrightarrow>
     frames t = frames t' @ dead \<and>
     current_stack_depth t' = current_stack_depth t - logged_count dead \<and>
     frame_overflow_count t' = frame_overflow_count t \<and>
     frames_capacity t \<le> frames_capacity t' \<and>
     ((\<forall>r \<in> set dead. inside_file cfg r (file_bytes t)) \<longrightarrow>
      length (file_bytes t) \<le> length (file_bytes t') \<and>
      patched_within (dead_positions cfg dead) (file_bytes t)
        (take (length (file_bytes t)) (file_bytes t')))"

definition advances :: "config \<Rightarrow> thread_state \<Rightarrow> thread_state \<Rightarrow> bool" where
  "advances cfg t t' \<longleftrightarrow> (\<exists>dead. advances_by cfg dead t t')"

lemma inside_file_grow:
  "inside_file cfg r f \<Longrightarrow> length f \<le> length f' \<Longrightarrow> inside_file cfg r f'"
  by (auto simp: inside_file_def)

lemma advances_by_trans:
  assumes "advances_by cfg dead t t'" "advances_by cfg dead' t' t''"
  shows "advances_by cfg (dead' @ dead) t t''"
proof -
  note 1 = assms(1) [unfolded advances_by_def] and 2 = assms(2) [unfolded advances_by_def]
  let ?n = "length (file_bytes t)"
  have "?n \<le> length (file_bytes t'') \<and>
      patched_within (dead_positions cfg (dead' @ dead)) (file_bytes t) (take ?n (file_bytes t''))"
    if inside: "\<forall>r \<in> set (dead' @ dead). inside_file cfg r (file_bytes t)"
  proof -
    have n: "?n \<le> length (file_bytes t')"
      and p: "patched_within (dead_positions cfg dead) (file_bytes t) (take ?n (file_bytes t'))"
      using 1 inside by auto
    have inside': "\<forall>r \<in> set dead'. inside_file cfg r (file_bytes t')"
      using inside inside_file_grow [OF _ n] by auto
    have n': "length (file_bytes t') \<le> length (file_bytes t'')"
      and p': "patched_within (dead_positions cfg dead') (file_bytes t')
                 (take (length (file_bytes t')) (file_bytes t''))"
      using 2 inside' by auto
    have "patched_within (dead_positions cfg dead') (take ?n (file_bytes t')) (take ?n (file_bytes t''))"
      using p' n n' by (auto simp: patched_within_def)
    from patched_within_trans [OF p this] n n' show ?thesis
      by (auto simp: dead_positions_def intro: patched_within_mono)
  qed
  with 1 2 show ?thesis by (auto simp: advances_by_def)
qed

lemma advances_trans: "advances cfg t t' \<Longrightarrow> advances cfg t' t'' \<Longrightarrow> advances cfg t t''"
  unfolding advances_def by (blast intro: advances_by_trans)

text \<open>Steps that touch neither the records nor the file, and steps that append to the file.\<close>

lemma advances_append:
  assumes "frames t' = frames t" "current_stack_depth t' = current_stack_depth t"
    and "frame_overflow_count t' = frame_overflow_count t" "frames_capacity t \<le> frames_capacity t'"
    and "file_bytes t' = file_bytes t @ extra"
  shows "advances cfg t t'"
  unfolding advances_def advances_by_def
  by (rule exI [of _ "[]"]) (simp add: assms dead_positions_def)

lemma advances_same:
  assumes "frames t' = frames t" "current_stack_depth t' = current_stack_depth t"
    and "frame_overflow_count t' = frame_overflow_count t" "frames_capacity t \<le> frames_capacity t'"
    and "file_bytes t' = file_bytes t"
  shows "advances cfg t t'"
  using advances_append [of t' t "[]"] assms by simp

lemma advances_refl [simp, intro]: "advances cfg t t"
  by (rule advances_same) simp_all

lemma pops_advances: "pops cfg t t' \<Longrightarrow> advances cfg t t'"
  unfolding pops_def popped_to_def advances_def advances_by_def dead_positions_def
  by (fastforce simp: patched_within_def)

lemma bounds_advances: "advances cfg t (resolve_thread_stack_bounds stack t)"
  by (rule advances_same) (simp_all add: resolve_thread_stack_bounds_def Let_def split: option.split)

lemma hook_level_advances: "advances cfg t (snd (hook_level inp t))"
  by (rule advances_same) (simp_all add: hook_level_def case_prod_beta Let_def)

lemma make_room_advances: "advances cfg t (snd (make_room inp t))"
  by (rule advances_same) (simp_all add: make_room_def)

lemma write_line_advances: "advances cfg' t (write_line cfg result line t)"
  by (cases result) (rule advances_append; simp add: write_line_def)+

lemma header_advances: "advances cfg t (snd (write_run_separator_header io tid t))"
proof (cases "io_header_throws io")
  case True
  then show ?thesis
    by (intro advances_same) (simp_all add: write_run_separator_header_def case_prod_beta Let_def)
next
  case False
  then show ?thesis
    by (intro advances_append) (auto simp: write_run_separator_header_def case_prod_beta Let_def)
qed

lemma seed_cursor_advances: "advances cfg' t (seed_cursor cfg io t)"
  by (rule advances_same) (simp_all add: seed_cursor_def)

lemma register_file_advances: "advances cfg t (snd (snd (register_file io g t)))"
  by (rule advances_same) (simp_all add: register_file_def)

lemma open_file_advances: "advances cfg t (snd (snd (open_this_thread_file cfg io g t)))"
proof -
  obtain tid t1 where t1: "current_tid (io_gettid io) (t\<lparr>open_attempted := True\<rparr>) = (tid, t1)"
    by fastforce
  then have "t1 = snd (current_tid (io_gettid io) (t\<lparr>open_attempted := True\<rparr>))" by simp
  then have a1: "advances cfg t t1"
    by (intro advances_same) (simp_all add: current_tid_def Let_def)
  let ?t2 = "t1\<lparr>trace_fp := True, patch_fd := line_patching cfg \<and> io_reopen io\<rparr>"
  obtain threw t3 where t3: "write_run_separator_header io tid ?t2 = (threw, t3)" by fastforce
  have "advances cfg t1 ?t2" by (rule advances_same) simp_all
  then have "advances cfg t ?t2" by (rule advances_trans [OF a1])
  then have a3: "advances cfg t t3"
    using advances_trans [of cfg t ?t2 t3] header_advances [of cfg ?t2 io tid] t3 by simp
  have "advances cfg t3 (snd (snd (register_file io g (seed_cursor cfg io t3))))"
    by (rule advances_trans [OF seed_cursor_advances register_file_advances])
  then have a4: "advances cfg t (snd (snd (register_file io g (seed_cursor cfg io t3))))"
    by (rule advances_trans [OF a3])
  show ?thesis
    using a1 a3 a4 t1 t3 by (simp add: open_this_thread_file_def Let_def)
qed

lemma get_thread_fp_advances: "advances cfg t (snd (snd (snd (get_thread_fp cfg io g t))))"
  using open_file_advances [of cfg t io g]
  by (simp add: get_thread_fp_def case_prod_beta Let_def)

lemma resolve_for_hook_advances: "advances cfg t (snd (snd (resolve_for_hook inp c t)))"
  by (rule advances_same) (simp_all add: resolve_for_hook_def case_prod_beta Let_def)

lemma write_event_line_advances:
  "advances cfg t (snd (snd (write_event_line cfg inp v label suf cw tname w site g t)))"
proof -
  obtain threw fp g1 t1 where f: "get_thread_fp cfg (ei_open inp) g t = (threw, fp, g1, t1)"
    by (metis prod_cases4)
  have a: "advances cfg t t1"
    using get_thread_fp_advances [of cfg t "ei_open inp" g] f by simp
  have time: "advances cfg t1 (t1\<lparr>thread_time := x\<rparr>)" for x by (rule advances_same) simp_all
  have "advances cfg t (write_line cfg r l (t1\<lparr>thread_time := x\<rparr>))" for x r l
    by (rule advances_trans [OF a advances_trans [OF time write_line_advances]])
  with a f show ?thesis by (simp add: write_event_line_def case_prod_beta Let_def)
qed

lemma reconcile_enter_advances: "advances cfg t (snd (snd (snd (reconcile_enter cfg inp c t))))"
proof -
  let ?t1 = "resolve_thread_stack_bounds (hi_stack inp) t"
  let ?t2 = "snd (hook_level inp ?t1)"
  let ?key = "\<lparr>key_callee = hi_callee inp, key_caller = hi_caller inp,
               key_level = fst (hook_level inp ?t1)\<rparr>"
  let ?t3 = "reclaim_dead_records cfg (uncaught_exceptions inp)
      (dead_records_on_enter (frames ?t2) ?key (thread_bounds ?t2)) at_enter ?t2"
  have "advances cfg ?t2 ?t3"
    by (intro pops_advances reclaim_dead_records_pops on_enter.dead_le)
  then have "advances cfg t ?t3"
    using advances_trans [OF advances_trans [OF bounds_advances hook_level_advances]] by blast
  from advances_trans [OF this pops_advances [OF reclaim_on_enter_pops]] show ?thesis
    by (simp add: reconcile_enter_def case_prod_beta Let_def)
qed

section \<open>The bookkeeping invariant\<close>

definition tracer_ok :: "thread_state \<Rightarrow> bool" where
  "tracer_ok t \<longleftrightarrow>
     current_stack_depth t = logged_count (frames t) - 1 \<and>
     0 \<le> frame_overflow_count t \<and> length (frames t) \<le> frames_capacity t"

lemma tracer_ok_fresh: "tracer_ok (fresh_thread fid existing)"
  by (simp add: tracer_ok_def fresh_thread_def)

lemma tracer_ok_advances: "tracer_ok t \<Longrightarrow> advances cfg t t' \<Longrightarrow> tracer_ok t'"
  by (auto simp: tracer_ok_def advances_def advances_by_def)

lemma tracer_ok_guard [simp]: "tracer_ok (t\<lparr>in_instrumentation := b\<rparr>) \<longleftrightarrow> tracer_ok t"
  by (simp add: tracer_ok_def)

text \<open>A push after a step that left room for it; the depth was raised if the frame was logged.\<close>

lemma tracer_ok_push:
  assumes "tracer_ok t" "length (frames t) < frames_capacity t"
  shows "tracer_ok (push_record cfg inp key False base start t)"
  using assms by (simp add: tracer_ok_def push_record_def new_record_def Let_def)

lemma log_call_fields [simp]:
  "frames (log_call cfg inp v t) = frames t"
  "current_stack_depth (log_call cfg inp v t) = current_stack_depth t + 1"
  "frame_overflow_count (log_call cfg inp v t) = frame_overflow_count t"
  "frames_capacity (log_call cfg inp v t) = frames_capacity t"
  by (simp_all add: log_call_def write_line_def case_prod_beta Let_def split: write_result.split)

lemma tracer_ok_log_push:
  assumes "tracer_ok t" "length (frames t) < frames_capacity t"
  shows "tracer_ok (push_record cfg inp key True base start (log_call cfg inp v t))"
  using assms by (simp add: tracer_ok_def push_record_def new_record_def Let_def)

definition room_left :: "thread_state \<Rightarrow> bool" where
  "room_left t \<longleftrightarrow> length (frames t) < frames_capacity t"

lemma room_left_advances: "room_left t \<Longrightarrow> advances cfg t t' \<Longrightarrow> room_left t'"
  by (auto simp: room_left_def advances_def advances_by_def)

lemma make_room_left:
  "tracer_ok t \<Longrightarrow> make_room inp t = (True, t') \<Longrightarrow> room_left t'"
  using length_greater_0_conv [of "frames t"]
  by (auto simp: tracer_ok_def room_left_def make_room_def INITIAL_FRAME_CAPACITY_def
      simp del: length_greater_0_conv split: if_splits)

text \<open>
  The enter hook with a slot: steps that push nothing, then the push of an unlogged record or the
  line and the push of a logged one. Every proof about the hook goes through these two cases.
\<close>

lemma enter_with_slot_cases:
  obtains (unlogged) c' g' t' key where
      "enter_with_slot cfg inp c g t = (c', g', push_record cfg inp key False None 0 t')"
      "advances cfg t t'"
  | (logged) c' g' t' key v where
      "enter_with_slot cfg inp c g t =
         (c', g', push_record cfg inp key True (callee_base_name v) (cursor t') (log_call cfg inp v t'))"
      "advances cfg t t'"
proof -
  obtain threw key c1 t1 where r: "reconcile_enter cfg inp c t = (threw, key, c1, t1)"
    by (metis prod_cases4)
  have a1: "advances cfg t t1" using reconcile_enter_advances [of cfg t inp c] r by simp
  obtain ot fp g2 t2 where f: "get_thread_fp cfg (hi_open inp) g t1 = (ot, fp, g2, t2)"
    by (metis prod_cases4)
  have a2: "advances cfg t t2"
    using advances_trans [OF a1 get_thread_fp_advances [of cfg t1 "hi_open inp" g]] f by simp
  obtain view c3 t3 where v: "resolve_for_hook inp c1 t2 = (view, c3, t3)"
    by (metis prod_cases3)
  have a3: "advances cfg t t3"
    using advances_trans [OF a2 resolve_for_hook_advances [of cfg t2 inp c1]] v by simp
  show thesis
  proof (cases "threw \<or> ot \<or> \<not> fp \<or> view = None")
    case True
    then show thesis
      using unlogged [of _ _ key] a1 a2 a3 r f v
      by (cases threw; cases "ot \<or> \<not> fp") (auto simp: enter_with_slot_def Let_def)
  next
    case False
    then obtain w where w: "view = Some w" by auto
    let ?t4 = "reclaim_dead_inlined_records_above_parent cfg (uncaught_exceptions inp) key
        (caller_function_base w) at_enter t3"
    have "advances cfg t ?t4"
      by (rule advances_trans [OF a3 pops_advances [OF reclaim_above_parent_pops]])
    moreover have "enter_with_slot cfg inp c g t =
        (c3, g2, push_record cfg inp key True (callee_base_name w) (cursor ?t4) (log_call cfg inp w ?t4))"
      using False w r f v by (simp add: enter_with_slot_def Let_def)
    ultimately show thesis by (rule logged [rotated])
  qed
qed

lemma enter_with_slot_ok:
  assumes "tracer_ok t" "room_left t"
  shows "tracer_ok (snd (snd (enter_with_slot cfg inp c g t)))"
proof (cases rule: enter_with_slot_cases [of cfg inp c g t])
  case (unlogged c' g' t' key)
  have "tracer_ok t'" "room_left t'"
    using assms unlogged(2) tracer_ok_advances room_left_advances by blast+
  then show ?thesis using unlogged(1) tracer_ok_push by (simp add: room_left_def)
next
  case (logged c' g' t' key v)
  have "tracer_ok t'" "room_left t'"
    using assms logged(2) tracer_ok_advances room_left_advances by blast+
  then show ?thesis using logged(1) tracer_ok_log_push by (simp add: room_left_def)
qed

lemma enter_hook_ok: "tracer_ok t \<Longrightarrow> tracer_ok (snd (snd (enter_hook cfg inp c g t)))"
proof (cases "in_instrumentation t \<or> frame_overflow_count t > 0")
  case True
  then show "tracer_ok t \<Longrightarrow> ?thesis" by (auto simp: enter_hook_def Let_def tracer_ok_def)
next
  case False
  assume ok: "tracer_ok t"
  let ?t = "t\<lparr>in_instrumentation := True\<rparr>"
  obtain slot t' where m: "make_room inp ?t = (slot, t')" by fastforce
  have ok': "tracer_ok t'"
    using tracer_ok_advances [OF _ make_room_advances [of cfg ?t inp]] ok m by simp
  show ?thesis
  proof (cases slot)
    case True
    then have "room_left t'" using make_room_left [of ?t inp t'] ok m by simp
    from enter_with_slot_ok [OF ok' this, of cfg inp c g] True False m show ?thesis
      by (simp add: enter_hook_def Let_def case_prod_beta)
  next
    case slot: False
    then have "tracer_ok (t'\<lparr>frame_overflow_count := frame_overflow_count t' + 1\<rparr>)"
      using ok' by (simp add: tracer_ok_def)
    with slot False m show ?thesis by (simp add: enter_hook_def Let_def)
  qed
qed

lemma exit_with_record_advances:
  assumes "frames t \<noteq> []"
  shows "advances cfg t (exit_with_record cfg inp t)"
proof -
  let ?t1 = "snd (hook_level inp t)"
  let ?i = "exit_index inp (fst (hook_level inp t)) ?t1"
  let ?t2 = "reclaim_dead_records cfg (uncaught_exceptions inp) (length (frames ?t1) - 1 - ?i) at_exit ?t1"
  have fr: "frames ?t1 = frames t" by (simp add: hook_level_def case_prod_beta Let_def)
  have p: "popped_to cfg ?t1 (drop (length (frames ?t1) - (length (frames ?t1) - 1 - ?i)) (frames ?t1)) ?t2"
    by (rule reclaim_dead_records_popped) simp
  have "frames ?t2 \<noteq> []"
  proof -
    let ?n = "length (frames ?t1) - 1 - ?i"
    have "frames ?t1 = frames ?t2 @ drop (length (frames ?t1) - ?n) (frames ?t1)"
      using p unfolding popped_to_def by fastforce
    from arg_cong [OF this, of length]
    have "length (frames ?t1) = length (frames ?t2) + ?n" by simp
    moreover have "0 < length (frames ?t1)" using assms fr by simp
    ultimately have "0 < length (frames ?t2)" by linarith
    then show ?thesis by simp
  qed
  then have "advances cfg ?t2 (pop_own_record cfg inp ?t2)"
    by (intro pops_advances pop_own_record_pops)
  moreover have "advances cfg ?t1 ?t2"
    by (intro pops_advances reclaim_dead_records_pops) simp
  ultimately have "advances cfg t (pop_own_record cfg inp ?t2)"
    using advances_trans [OF hook_level_advances advances_trans] by blast
  then show ?thesis by (simp add: exit_with_record_def case_prod_beta Let_def)
qed

lemma exit_hook_ok: "tracer_ok t \<Longrightarrow> tracer_ok (exit_hook cfg inp t)"
proof (cases "in_instrumentation t \<or> frame_overflow_count t > 0 \<or> frames t = []")
  case True
  then show "tracer_ok t \<Longrightarrow> ?thesis" by (auto simp: exit_hook_def Let_def tracer_ok_def)
next
  case False
  then have "advances cfg (t\<lparr>in_instrumentation := True\<rparr>)
      (exit_with_record cfg inp (t\<lparr>in_instrumentation := True\<rparr>))"
    by (intro exit_with_record_advances) simp
  with False show "tracer_ok t \<Longrightarrow> ?thesis"
    using tracer_ok_advances [of "t\<lparr>in_instrumentation := True\<rparr>"]
    by (simp add: exit_hook_def Let_def)
qed

section \<open>Events\<close>

lemma throw_line_advances: "advances cfg t (snd (snd (throw_line cfg inp kind tname w at g t)))"
  by (cases kind) (simp_all add: throw_line_def write_event_line_advances)

lemma guard_advances: "advances cfg t (t\<lparr>in_instrumentation := b\<rparr>)"
  by (rule advances_same) simp_all

lemma on_throw_advances: "advances cfg t (snd (on_throw cfg inp kind type w site sh t))"
proof -
  let ?t = "t\<lparr>in_instrumentation := True\<rparr>"
  have "advances cfg t (t'\<lparr>in_instrumentation := False\<rparr>)" if "advances cfg ?t t'" for t'
    using advances_trans [OF advances_trans [OF guard_advances that] guard_advances] .
  then show ?thesis
    using throw_line_advances [of cfg ?t]
    by (auto simp: on_throw_def case_prod_beta Let_def split: option.split)
qed

lemma on_terminate_advances: "advances cfg t (snd (on_terminate cfg inp reason type w site sh t))"
proof -
  let ?t = "t\<lparr>in_instrumentation := True\<rparr>"
  have "advances cfg t (t'\<lparr>in_instrumentation := False\<rparr>)" if "advances cfg ?t t'" for t'
    using advances_trans [OF advances_trans [OF guard_advances that] guard_advances] .
  then show ?thesis
    using write_event_line_advances [of cfg ?t]
    by (auto simp: on_terminate_def case_prod_beta Let_def split: option.split)
qed

lemma reclaim_unwound_advances: "advances cfg t (reclaim_unwound cfg inp level t)"
  unfolding reclaim_unwound_def
  by (intro pops_advances reclaim_dead_records_pops on_catch.dead_le)

lemma catch_terminating_advances:
  "advances cfg t (snd (snd (catch_terminating cfg inp tname w site frame g t)))"
  unfolding catch_terminating_def Let_def
  by (rule advances_trans [OF bounds_advances
        advances_trans [OF reclaim_unwound_advances write_event_line_advances]])

lemma catch_handled_advances:
  "advances cfg t (snd (snd (catch_handled cfg inp tname w site frame at c g t)))"
proof -
  let ?t1 = "resolve_thread_stack_bounds (ei_stack inp) t"
  let ?l = "event_level inp site frame ?t1"
  let ?t2 = "reclaim_unwound cfg inp ?l ?t1"
  let ?r = "reclaim_dead_inlined_records_on_catch cfg (ei_resolver inp) (ei_uncaught inp) ?l (site - 1) c ?t2"
  have a: "advances cfg t (snd (snd ?r))"
    by (rule advances_trans [OF bounds_advances
          advances_trans [OF reclaim_unwound_advances pops_advances [OF reclaim_on_catch_pops]]])
  then show ?thesis
    using advances_trans [OF a write_event_line_advances]
    by (simp add: catch_handled_def case_prod_beta Let_def)
qed

lemma on_catch_advances: "advances cfg t (snd (snd (on_catch cfg inp type w dep site frame sh t)))"
proof -
  let ?t = "t\<lparr>in_instrumentation := True\<rparr>"
  have "advances cfg t (t'\<lparr>in_instrumentation := False\<rparr>)" if "advances cfg ?t t'" for t'
    using advances_trans [OF advances_trans [OF guard_advances that] guard_advances] .
  then show ?thesis
    using catch_terminating_advances [of cfg ?t] catch_handled_advances [of cfg ?t]
    by (auto simp: on_catch_def case_prod_beta Let_def split: option.split)
qed

lemma event_advances:
  "on_throw cfg inp kind type w site sh t = (sh', t') \<Longrightarrow> advances cfg t t'"
  "on_terminate cfg inp reason type w osite sh t = (sh', t') \<Longrightarrow> advances cfg t t'"
  "on_catch cfg inp type w dep site frame sh t = (b, sh', t') \<Longrightarrow> advances cfg t t'"
  using on_throw_advances [of cfg t inp kind type w site sh]
    on_terminate_advances [of cfg t inp reason type w osite sh]
    on_catch_advances [of cfg t inp type w dep site frame sh]
  by auto

lemma runtime_step_advances:
  "runtime_step cfg call (ist, sh, t) = Some (ist', sh', t') \<Longrightarrow> advances cfg t t'"
  by (cases call)
    (auto simp: cslg_cxa_throw_def cslg_cxa_rethrow_def cslg_rethrow_exception_def
      cslg_cxa_begin_catch_def cslg_terminate_def Let_def
      split: if_splits option.splits prod.splits intro: event_advances)

end
