(* ===== verification/StepInvariants.thy ===== *)
theory StepInvariants
  imports TraceInvariant
begin

text \<open>
  The interface through which invariants of a thread are proved: a predicate that the primitive steps
  of the hooks keep (reclaiming, opening the file, writing a line, pushing a record) is kept by the
  enter hook, the exit hook and every runtime call.
\<close>

section \<open>Views that reach a line\<close>

text \<open>A resolved frame always has its strings; its address column follows the build option.\<close>

definition loggable :: "config \<Rightarrow> resolved_frame_view \<Rightarrow> bool" where
  "loggable cfg v \<longleftrightarrow> callee_function_name v \<noteq> None \<and> caller_filename v \<noteq> None \<and>
     (callee_address v \<noteq> None \<longleftrightarrow> log_addr cfg)"

lemma loggable_fill:
  "\<not> filtered x \<Longrightarrow> log_addr_on w = log_addr cfg \<Longrightarrow> loggable cfg (fill_view w callee x l empty_view)"
  by (auto simp: loggable_def fill_view_def filtered_def empty_view_def)

lemma resolve_no_unwind_loggable:
  assumes "resolve_no_unwind n w interfere c f callee caller empty_view = (Some v, rest)"
    and "log_addr_on w = log_addr cfg"
  shows "loggable cfg v"
  using assms
  by (auto simp: resolve_no_unwind_def Let_def find_shared_name_def emplace_name_def case_prod_beta
      intro!: loggable_fill split: prod.splits option.splits if_splits)

definition resolved_by :: "hook_input \<Rightarrow> resolved_frame_view \<Rightarrow> bool" where
  "resolved_by inp v \<longleftrightarrow> (\<exists>c t c' t'. resolve_for_hook inp c t = (Some v, c', t'))"

lemma resolved_loggable:
  assumes "resolved_by inp v"
    and "log_addr_on (in_world (hi_resolver inp)) = log_addr cfg"
  shows "loggable cfg v"
  using assms(1) resolve_no_unwind_loggable [OF _ assms(2)]
  by (auto simp: resolved_by_def resolve_for_hook_def resolve_def Let_def split: if_splits prod.splits)

section \<open>Fields a step leaves alone\<close>

lemma header_fields [simp]:
  "file_id (snd (write_run_separator_header io tid t)) = file_id t"
  "registered (snd (write_run_separator_header io tid t)) = registered t"
  "trace_fp (snd (write_run_separator_header io tid t)) = trace_fp t"
  "open_attempted (snd (write_run_separator_header io tid t)) = open_attempted t"
  by (simp_all add: write_run_separator_header_def case_prod_beta Let_def)

lemma seed_fields [simp]:
  "file_id (seed_cursor cfg io t) = file_id t"
  "registered (seed_cursor cfg io t) = registered t"
  "trace_fp (seed_cursor cfg io t) = trace_fp t"
  "open_attempted (seed_cursor cfg io t) = open_attempted t"
  by (simp_all add: seed_cursor_def)

lemma write_line_fields [simp]:
  "registered (write_line cfg r l t) = registered t"
  "file_id (write_line cfg r l t) = file_id t"
  "trace_fp (write_line cfg r l t) = trace_fp t"
  "open_attempted (write_line cfg r l t) = open_attempted t"
  "patch_fd (write_line cfg r l t) = patch_fd t"
  by (simp_all add: write_line_def split: write_result.split)

lemma push_fields [simp]:
  "registered (push_record cfg inp key b base start t) = registered t"
  "file_id (push_record cfg inp key b base start t) = file_id t"
  "trace_fp (push_record cfg inp key b base start t) = trace_fp t"
  "open_attempted (push_record cfg inp key b base start t) = open_attempted t"
  by (simp_all add: push_record_def)

lemma log_call_file_fields [simp]:
  "registered (log_call cfg inp v t) = registered t"
  "file_id (log_call cfg inp v t) = file_id t"
  "trace_fp (log_call cfg inp v t) = trace_fp t"
  "open_attempted (log_call cfg inp v t) = open_attempted t"
  by (simp_all add: log_call_def Let_def case_prod_beta)

section \<open>Steps outside the records and the file\<close>

definition same_file :: "thread_state \<Rightarrow> thread_state \<Rightarrow> bool" where
  "same_file t t' \<longleftrightarrow>
     frames t' = frames t \<and> current_stack_depth t' = current_stack_depth t \<and>
     file_bytes t' = file_bytes t \<and> cursor t' = cursor t \<and> cursor_valid t' = cursor_valid t \<and>
     trace_fp t' = trace_fp t \<and> patch_fd t' = patch_fd t \<and> open_attempted t' = open_attempted t \<and>
     registered t' = registered t \<and> thread_time t' = thread_time t \<and> file_id t' = file_id t"

lemma same_file_refl [simp, intro]: "same_file t t"
  by (simp add: same_file_def)

lemma same_file_trans: "same_file t t' \<Longrightarrow> same_file t' t'' \<Longrightarrow> same_file t t''"
  by (simp add: same_file_def)

lemma same_file_steps [simp]:
  "same_file t (t\<lparr>in_instrumentation := b\<rparr>)"
  "same_file t (t\<lparr>frame_overflow_count := n\<rparr>)"
  "same_file t (resolve_thread_stack_bounds stack t)"
  "same_file t (snd (hook_level inp t))"
  "same_file t (snd (make_room inp t))"
  "same_file t (snd (snd (resolve_for_hook inp c t)))"
  by (auto simp: same_file_def resolve_thread_stack_bounds_def hook_level_def make_room_def
      resolve_for_hook_def Let_def case_prod_beta split: option.split)

text \<open>After a \<open>FILE*\<close> was handed out, the file is writable until the hook ends.\<close>

definition writable :: "trace_globals \<Rightarrow> thread_state \<Rightarrow> bool" where
  "writable g t \<longleftrightarrow> trace_ready g \<and> \<not> shutdown_complete g \<and> trace_fp t"

lemma register_file_globals:
  "trace_ready (fst (snd (register_file io g t))) = trace_ready g"
  "shutdown_complete (fst (snd (register_file io g t))) = shutdown_complete g"
  by (simp_all add: register_file_def)

lemma open_file_globals:
  "trace_ready (fst (snd (open_this_thread_file cfg io g t))) = trace_ready g"
  "shutdown_complete (fst (snd (open_this_thread_file cfg io g t))) = shutdown_complete g"
  by (simp_all add: open_this_thread_file_def Let_def case_prod_beta register_file_globals)

lemma get_thread_fp_writable:
  "get_thread_fp cfg io g t = (threw, fp, g', t') \<Longrightarrow> \<not> threw \<Longrightarrow> fp \<Longrightarrow> writable g' t'"
  using open_file_globals [of cfg io g t]
  by (auto simp: get_thread_fp_def writable_def Let_def case_prod_beta split: if_splits)

lemma pops_fields:
  assumes "pops cfg t t'"
  shows "trace_fp t' = trace_fp t" "current_stack_depth t' \<le> current_stack_depth t"
    "patch_fd t' = patch_fd t" "open_attempted t' = open_attempted t" "registered t' = registered t"
    "cursor t' = cursor t" "cursor_valid t' = cursor_valid t" "thread_time t' = thread_time t"
    "file_id t' = file_id t" "in_instrumentation t' = in_instrumentation t"
  using assms by (auto simp: pops_def popped_to_def logged_count_def)

lemma writable_pops: "writable g t \<Longrightarrow> pops cfg t t' \<Longrightarrow> writable g t'"
  by (simp add: writable_def pops_fields)

lemma writable_same: "writable g t \<Longrightarrow> same_file t t' \<Longrightarrow> writable g t'"
  by (simp add: writable_def same_file_def)

lemma advances_depth: "advances cfg t t' \<Longrightarrow> current_stack_depth t' \<le> current_stack_depth t"
  by (auto simp: advances_def advances_by_def logged_count_def)

fun call_input :: "runtime_call \<Rightarrow> runtime_input" where
  "call_input (Throw inp type) = inp"
| "call_input (Rethrow inp) = inp"
| "call_input (Rethrow_exception inp type) = inp"
| "call_input (Begin_catch inp) = inp"
| "call_input (Terminate inp) = inp"

section \<open>The interface\<close>

locale step_invariant =
  fixes cfg :: config
    and good_io :: "open_input \<Rightarrow> bool"
    and good_hook :: "hook_input \<Rightarrow> bool"
    and fits :: "thread_state \<Rightarrow> bool"
    and I :: "trace_globals \<Rightarrow> thread_state \<Rightarrow> bool"
  assumes same: "\<lbrakk>I g t; same_file t t'\<rbrakk> \<Longrightarrow> I g t'"
    and popped: "\<lbrakk>I g t; pops cfg t t'\<rbrakk> \<Longrightarrow> I g t'"
    and opened: "\<lbrakk>I g t; good_io io; get_thread_fp cfg io g t = (threw, fp, g', t')\<rbrakk> \<Longrightarrow> I g' t'"
    and event_written: "\<lbrakk>I g t; good_io io; writable g t;
      pretty_time_into (io_render io) (thread_time t) PRETTY_TIME_BUF_SIZE now = (text, tc)\<rbrakk> \<Longrightarrow>
      I g (write_line cfg result line (t\<lparr>thread_time := tc\<rparr>))"
    and pushed: "I g t \<Longrightarrow> I g (push_record cfg inp key False None 0 t)"
    and logged_pushed: "\<lbrakk>I g t; good_hook inp; fits t; writable g t; resolved_by inp v\<rbrakk> \<Longrightarrow>
      I g (push_record cfg inp key True base (cursor t) (log_call cfg inp v t))"
    and good_open: "good_hook inp \<Longrightarrow> good_io (hi_open inp)"
    and fits_down: "\<lbrakk>fits t; current_stack_depth t' \<le> current_stack_depth t\<rbrakk> \<Longrightarrow> fits t'"
begin

lemma reconcile_enter_keeps:
  assumes "I g t"
  shows "I g (snd (snd (snd (reconcile_enter cfg inp c t))))"
proof -
  let ?t2 = "snd (hook_level inp (resolve_thread_stack_bounds (hi_stack inp) t))"
  have a: "I g ?t2" using assms same same_file_steps(3,4) by blast
  let ?key = "\<lparr>key_callee = hi_callee inp, key_caller = hi_caller inp,
      key_level = fst (hook_level inp (resolve_thread_stack_bounds (hi_stack inp) t))\<rparr>"
  have "I g (reclaim_dead_records cfg (uncaught_exceptions inp)
      (dead_records_on_enter (frames ?t2) ?key (thread_bounds ?t2)) at_enter ?t2)"
    by (rule popped [OF a reclaim_dead_records_pops [OF on_enter.dead_le]])
  from popped [OF this reclaim_on_enter_pops] show ?thesis
    by (simp add: reconcile_enter_def case_prod_beta Let_def)
qed

lemma enter_with_slot_keeps:
  assumes "I g t" "good_hook inp" "fits t"
  shows "I (fst (snd (enter_with_slot cfg inp c g t))) (snd (snd (enter_with_slot cfg inp c g t)))"
proof -
  obtain threw key c1 t1 where r: "reconcile_enter cfg inp c t = (threw, key, c1, t1)"
    by (metis prod_cases4)
  have i1: "I g t1" using reconcile_enter_keeps [OF assms(1), of inp c] r by simp
  have d1: "current_stack_depth t1 \<le> current_stack_depth t"
    using advances_depth [OF reconcile_enter_advances [of cfg t inp c]] r by simp
  obtain ot fp g2 t2 where f: "get_thread_fp cfg (hi_open inp) g t1 = (ot, fp, g2, t2)"
    by (metis prod_cases4)
  have i2: "I g2 t2" by (rule opened [OF i1 good_open [OF assms(2)] f])
  have d2: "current_stack_depth t2 \<le> current_stack_depth t"
    using advances_depth [OF get_thread_fp_advances [of cfg t1 "hi_open inp" g]] f d1 by simp
  obtain view c3 t3 where v: "resolve_for_hook inp c1 t2 = (view, c3, t3)"
    by (metis prod_cases3)
  have s3: "same_file t2 t3" using same_file_steps(6) [of t2 inp c1] v by simp
  have i3: "I g2 t3" by (rule same [OF i2 s3])
  show ?thesis
  proof (cases "threw \<or> ot \<or> \<not> fp \<or> view = None")
    case True
    then show ?thesis
      using r f v pushed [OF i1] pushed [OF i2] pushed [OF i3]
      by (cases threw; cases "ot \<or> \<not> fp") (auto simp: enter_with_slot_def Let_def)
  next
    case False
    then obtain w where w: "view = Some w" by auto
    let ?t4 = "reclaim_dead_inlined_records_above_parent cfg (uncaught_exceptions inp) key
        (caller_function_base w) at_enter t3"
    have p: "pops cfg t3 ?t4" by (rule reclaim_above_parent_pops)
    have "writable g2 ?t4"
      using get_thread_fp_writable [OF f] False writable_same [OF _ s3] writable_pops [OF _ p]
      by blast
    moreover have "fits ?t4"
      using fits_down [OF assms(3)] pops_fields(2) [OF p] s3 d2 by (simp add: same_file_def)
    moreover have "resolved_by inp w" using v w unfolding resolved_by_def by blast
    ultimately have "I g2 (push_record cfg inp key True (callee_base_name w) (cursor ?t4)
        (log_call cfg inp w ?t4))"
      by (intro logged_pushed [OF popped [OF i3 p] assms(2)])
    moreover have "enter_with_slot cfg inp c g t = (c3, g2, push_record cfg inp key True
        (callee_base_name w) (cursor ?t4) (log_call cfg inp w ?t4))"
      using False w r f v by (simp add: enter_with_slot_def Let_def)
    ultimately show ?thesis by simp
  qed
qed

lemma enter_hook_keeps:
  assumes "I g t" "good_hook inp" "fits t" "enter_hook cfg inp c g t = (c', g', t')"
  shows "I g' t'"
proof (cases "in_instrumentation t \<or> frame_overflow_count t > 0")
  case True
  have "same_file t (t\<lparr>frame_overflow_count := n, in_instrumentation := b\<rparr>)" for n b
    by (simp add: same_file_def)
  with True show ?thesis using assms same by (auto simp: enter_hook_def Let_def split: if_splits)
next
  case False
  let ?t = "t\<lparr>in_instrumentation := True\<rparr>"
  obtain slot t1 where m: "make_room inp ?t = (slot, t1)" by fastforce
  have s: "same_file t t1"
    using same_file_trans [OF same_file_steps(1) same_file_steps(5) [of ?t inp]] m by simp
  have i1: "I g t1" by (rule same [OF assms(1) s])
  have f1: "fits t1" using fits_down [OF assms(3)] s by (simp add: same_file_def)
  obtain c2 g2 t2 where e: "enter_with_slot cfg inp c g t1 = (c2, g2, t2)" by (metis prod_cases3)
  have i2: "I g2 t2" using enter_with_slot_keeps [OF i1 assms(2) f1, of c] e by simp
  have "I g2 (t2\<lparr>in_instrumentation := False\<rparr>)"
    "I g (t1\<lparr>frame_overflow_count := n, in_instrumentation := False\<rparr>)" for n
    using same [OF i2] same [OF i1] by (simp_all add: same_file_def)
  with False m e assms(4) show ?thesis
    by (cases slot) (auto simp: enter_hook_def Let_def)
qed

lemma exit_with_record_keeps:
  assumes "I g t" "frames t \<noteq> []"
  shows "I g (exit_with_record cfg inp t)"
proof -
  let ?t1 = "snd (hook_level inp t)"
  let ?n = "length (frames ?t1) - 1 - exit_index inp (fst (hook_level inp t)) ?t1"
  let ?t2 = "reclaim_dead_records cfg (uncaught_exceptions inp) ?n at_exit ?t1"
  have fr: "frames ?t1 = frames t" by (simp add: hook_level_def case_prod_beta Let_def)
  have le: "?n \<le> length (frames ?t1)" by simp
  have "I g ?t2"
    by (rule popped [OF same [OF assms(1) same_file_steps(4)] reclaim_dead_records_pops [OF le]])
  moreover have "frames ?t2 \<noteq> []"
  proof -
    obtain kept where k: "frames ?t1 = kept @ drop (length (frames ?t1) - ?n) (frames ?t1)"
      "frames ?t2 = kept"
      using reclaim_dead_records_popped [OF le, of cfg "uncaught_exceptions inp" at_exit]
      unfolding popped_to_def by fastforce
    from arg_cong [OF k(1), of length] have "length (frames ?t1) = length kept + ?n" by simp
    moreover have "0 < length (frames ?t1)" using assms(2) fr by simp
    ultimately have "0 < length kept" by linarith
    then show ?thesis using k(2) by simp
  qed
  ultimately have "I g (pop_own_record cfg inp ?t2)"
    by (intro popped [OF _ pop_own_record_pops])
  then show ?thesis by (simp add: exit_with_record_def case_prod_beta Let_def)
qed

lemma exit_hook_keeps:
  assumes "I g t"
  shows "I g (exit_hook cfg inp t)"
proof -
  have a: "I g (t\<lparr>in_instrumentation := True, frame_overflow_count := n, in_instrumentation := b\<rparr>)"
    "I g (t\<lparr>in_instrumentation := b\<rparr>)" for n b
    by (rule same [OF assms]; simp add: same_file_def)+
  show ?thesis
  proof (cases "in_instrumentation t \<or> frame_overflow_count t > 0 \<or> frames t = []")
    case True
    then show ?thesis using assms a by (auto simp: exit_hook_def Let_def)
  next
    case False
    then have "I g (exit_with_record cfg inp (t\<lparr>in_instrumentation := True\<rparr>))"
      by (intro exit_with_record_keeps a) simp
    from same [OF this same_file_steps(1)] False show ?thesis by (simp add: exit_hook_def Let_def)
  qed
qed

lemma write_event_line_keeps:
  assumes "I g t" "good_io (ei_open inp)"
    and "write_event_line cfg inp v label suf cw tname w site g t = (threw, g', t')"
  shows "I g' t'"
proof -
  obtain ot fp g1 t1 where f: "get_thread_fp cfg (ei_open inp) g t = (ot, fp, g1, t1)"
    by (metis prod_cases4)
  have i1: "I g1 t1" by (rule opened [OF assms(1,2) f])
  show ?thesis
  proof (cases "ot \<or> \<not> fp")
    case True
    then show ?thesis using assms(3) f i1 by (auto simp: write_event_line_def Let_def)
  next
    case False
    then have w: "writable g1 t1" using get_thread_fp_writable [OF f] by blast
    obtain text_now tc where "pretty_time_into (io_render (ei_open inp)) (thread_time t1)
        PRETTY_TIME_BUF_SIZE (ei_clock inp) = (text_now, tc)" by fastforce
    with event_written [OF i1 assms(2) w this] False assms(3) f show ?thesis
      by (auto simp: write_event_line_def Let_def)
  qed
qed

lemma throw_line_keeps:
  "I g t \<Longrightarrow> good_io (ei_open inp) \<Longrightarrow>
   throw_line cfg inp kind tname w at g t = (threw, g', t') \<Longrightarrow> I g' t'"
  by (cases kind) (auto simp: throw_line_def dest: write_event_line_keeps)

lemma on_throw_keeps:
  assumes "I g t" "good_io (ei_open inp)"
    and "on_throw cfg inp kind type w site (c, names, g) t = ((c', names', g'), t')"
  shows "I g' t'"
proof -
  let ?t = "t\<lparr>in_instrumentation := True\<rparr>"
  have i: "I g ?t" "I g (?t\<lparr>in_instrumentation := False\<rparr>)"
    using same [OF assms(1)] by (simp_all add: same_file_def)
  have l: "I g1 (t1\<lparr>in_instrumentation := False\<rparr>)"
    if "throw_line cfg inp kind tname w at g ?t = (threw, g1, t1)" for tname at threw g1 t1
    by (rule same [OF throw_line_keeps [OF i(1) assms(2) that] same_file_steps(1)])
  show ?thesis
    using assms(1,3) i
    by (auto simp: on_throw_def Let_def dest: l split: if_splits prod.splits option.splits)
qed

lemma on_terminate_keeps:
  assumes "I g t" "good_io (ei_open inp)"
    and "on_terminate cfg inp reason type w site (c, names, g) t = ((c', names', g'), t')"
  shows "I g' t'"
proof -
  let ?t = "t\<lparr>in_instrumentation := True\<rparr>"
  have i: "I g ?t" "I g (?t\<lparr>in_instrumentation := False\<rparr>)"
    using same [OF assms(1)] by (simp_all add: same_file_def)
  have l: "I g1 (t1\<lparr>in_instrumentation := False\<rparr>)"
    if "write_event_line cfg inp v label suf cw tname w site g ?t = (threw, g1, t1)"
    for v label suf cw tname w site threw g1 t1
    by (rule same [OF write_event_line_keeps [OF i(1) assms(2) that] same_file_steps(1)])
  show ?thesis
    using assms(1,3) i
    unfolding on_terminate_def Let_def
    by (auto dest: l split: if_splits prod.splits option.splits)
qed

lemma reclaim_unwound_keeps: "I g t \<Longrightarrow> I g (reclaim_unwound cfg inp level t)"
  unfolding reclaim_unwound_def
  by (erule popped) (rule reclaim_dead_records_pops [OF on_catch.dead_le])

lemma catch_terminating_keeps:
  assumes "I g t" "good_io (ei_open inp)"
    and "catch_terminating cfg inp tname w site frame g t = (threw, g', t')"
  shows "I g' t'"
  using assms(3) unfolding catch_terminating_def Let_def
  by (rule write_event_line_keeps [OF reclaim_unwound_keeps [OF same [OF assms(1) same_file_steps(3)]]
        assms(2)])

lemma catch_handled_keeps:
  assumes "I g t" "good_io (ei_open inp)"
    and "catch_handled cfg inp tname w site frame at c g t = (c', g', t')"
  shows "I g' t'"
proof -
  let ?t1 = "resolve_thread_stack_bounds (ei_stack inp) t"
  let ?l = "event_level inp site frame ?t1"
  let ?t2 = "reclaim_unwound cfg inp ?l ?t1"
  obtain threw c1 t3 where r: "reclaim_dead_inlined_records_on_catch cfg (ei_resolver inp)
      (ei_uncaught inp) ?l (site - 1) c ?t2 = (threw, c1, t3)" by (metis prod_cases3)
  have "I g ?t2" by (rule reclaim_unwound_keeps [OF same [OF assms(1) same_file_steps(3)]])
  from popped [OF this reclaim_on_catch_pops [of cfg ?t2 "ei_resolver inp" "ei_uncaught inp" ?l "site - 1" c]]
  have i3: "I g t3" using r by simp
  show ?thesis
    using assms(3) r i3 write_event_line_keeps [OF i3 assms(2)]
    by (auto simp: catch_handled_def Let_def split: if_splits prod.splits)
qed

lemma on_catch_keeps:
  assumes "I g t" "good_io (ei_open inp)"
    and "on_catch cfg inp type w dep site frame (c, names, g) t = (b, (c', names', g'), t')"
  shows "I g' t'"
proof -
  let ?t = "t\<lparr>in_instrumentation := True\<rparr>"
  have i: "I g ?t" "I g (?t\<lparr>in_instrumentation := False\<rparr>)"
    using same [OF assms(1)] by (simp_all add: same_file_def)
  have l: "I g1 (t1\<lparr>in_instrumentation := False\<rparr>)"
    if "catch_terminating cfg inp tname w site frame g ?t = (threw, g1, t1)" for tname w threw g1 t1
    by (rule same [OF catch_terminating_keeps [OF i(1) assms(2) that] same_file_steps(1)])
  have l': "I g1 (t1\<lparr>in_instrumentation := False\<rparr>)"
    if "catch_handled cfg inp tname w site frame at c1 g ?t = (c2, g1, t1)" for tname w at c1 c2 g1 t1
    by (rule same [OF catch_handled_keeps [OF i(1) assms(2) that] same_file_steps(1)])
  show ?thesis
    using assms(1,3) i
    unfolding on_catch_def Let_def
    by (auto dest: l l' split: if_splits prod.splits option.splits)
qed

lemma runtime_step_keeps:
  assumes "runtime_step cfg call (ist, (c, names, g), t) = Some (ist', (c', names', g'), t')"
    and "I g t" "good_io (ei_open (ri_event (call_input call)))"
  shows "I g' t'"
  using assms
  by (cases call)
    (auto simp: cslg_cxa_throw_def cslg_cxa_rethrow_def cslg_rethrow_exception_def
      cslg_cxa_begin_catch_def cslg_terminate_def Let_def
      split: if_splits option.splits prod.splits
      intro: on_throw_keeps on_terminate_keeps on_catch_keeps)

end

end
