(* ===== verification/TracerScope.thy ===== *)
theory TracerScope
  imports Interposers
begin

text \<open>
  The scope over the re-entrancy guard (\<open>include/tracerScope.h\<close>) and what runs inside it: the public entry
  points of the resolver (\<open>get_call_stack\<close> and \<open>resolve\<close> of \<open>src/callStack.cpp\<close>) and the program's own
  \<open>what()\<close> in the throw and the catch interposer (\<open>src/exceptions.cpp\<close>). Code that runs inside a scope may
  be instrumented, so hooks and runtime calls happen there, and it may resolve addresses itself; the
  properties are that hooks and calls do nothing, that lookups do what they do anywhere else, and
  that the guard is what it was when the scope ends, however scopes nest.
\<close>

section \<open>The scope\<close>

record tracer_scope =
  previous :: bool

definition open_scope :: "thread_state \<Rightarrow> tracer_scope \<times> thread_state" where
  "open_scope t = (let (before, t) = enter_no_instrument_scope t in (\<lparr>previous = before\<rparr>, t))"

definition close_scope :: "tracer_scope \<Rightarrow> thread_state \<Rightarrow> thread_state" where
  "close_scope scope t = exit_no_instrument_scope (previous scope) t"

lemmas scope_defs =
  open_scope_def close_scope_def enter_no_instrument_scope_def exit_no_instrument_scope_def

lemma scope_guards [simp]:
  "in_instrumentation (snd (open_scope t))"
  "close_scope (fst (open_scope t)) (snd (open_scope t)) = t"
  by (simp_all add: scope_defs)

section \<open>The resolver's public entry points\<close>

text \<open>
  \<open>instrumentation::resolve\<close> and \<open>get_call_stack\<close>, called by the program. An exception leaves through the
  scope, whose destructor restores the guard. \<open>frames_before\<close> frames of a stack are resolved before the
  one whose lookup throws, if one does.
\<close>

datatype api_call =
    Resolve_frame resolver_input string addr addr
  | Capture_stack resolver_input nat string "addr list"

definition api_resolve ::
    "resolver_input \<Rightarrow> string \<Rightarrow> addr \<Rightarrow> addr \<Rightarrow> caches \<Rightarrow> thread_state
       \<Rightarrow> resolved_frame option outcome \<times> caches \<times> thread_state" where
  "api_resolve r now callee caller c t =
     (let (scope, t) = open_scope t
      in if resolve_throws r then (Threw, in_interfere r c, close_scope scope t)
         else let (view, c, fronts, acts) =
                resolve (in_world r) (in_interfere r) c (thread_fronts t) callee caller empty_view
              in (Returned (map_option (own_frame now) view), c,
                  close_scope scope (t\<lparr>thread_fronts := fronts\<rparr>)))"

definition api_call_stack ::
    "resolver_input \<Rightarrow> nat \<Rightarrow> string \<Rightarrow> addr list \<Rightarrow> caches \<Rightarrow> thread_state
       \<Rightarrow> resolved_frame option list outcome \<times> caches \<times> thread_state" where
  "api_call_stack r frames_before now chain c t =
     (let (scope, t) = open_scope t
      in if resolve_throws r
         then let (res, c, fronts) = resolve_stack (in_world r) now (in_interfere r) c (thread_fronts t)
                    (grow_stack chain 0) [1..<Suc frames_before]
              in (Threw, in_interfere r c, close_scope scope (t\<lparr>thread_fronts := fronts\<rparr>))
         else case get_call_stack (in_world r) now (in_interfere r) c (thread_fronts t) chain of
                Threw \<Rightarrow> (Threw, c, close_scope scope t)
              | Returned (res, c, fronts) \<Rightarrow>
                  (Returned res, c, close_scope scope (t\<lparr>thread_fronts := fronts\<rparr>)))"

fun api_step :: "api_call \<Rightarrow> caches \<Rightarrow> thread_state \<Rightarrow> caches \<times> thread_state" where
  "api_step (Resolve_frame r now callee caller) c t = snd (api_resolve r now callee caller c t)"
| "api_step (Capture_stack r frames_before now chain) c t =
     snd (api_call_stack r frames_before now chain c t)"

lemma api_step_thread:
  "snd (api_step call c t) = t\<lparr>thread_fronts := thread_fronts (snd (api_step call c t))\<rparr>"
  by (cases call)
    (auto simp: api_resolve_def api_call_stack_def scope_defs Let_def split: prod.split outcome.split)

text \<open>A lookup reads and writes nothing of the thread but its front caches.\<close>

lemma api_step_guard:
  "api_step call c (t\<lparr>in_instrumentation := b\<rparr>) =
     (case api_step call c t of (c', t') \<Rightarrow> (c', t'\<lparr>in_instrumentation := b\<rparr>))"
  by (cases call)
    (auto simp: api_resolve_def api_call_stack_def scope_defs Let_def split: prod.split outcome.split)

section \<open>Code inside a scope\<close>

text \<open>
  What the tracer sees of the code in a scope: its hooks, its runtime calls, its calls of the public
  entry points and the scopes it opens.
\<close>

datatype scoped_act =
    Hook_entered hook_input
  | Hook_left hook_input
  | Runtime_called runtime_call
  | Api_called api_call
  | Scope_opened "scoped_act list"

function run_acts :: "config \<Rightarrow> scoped_act list \<Rightarrow> interposed \<Rightarrow> interposed option" where
  "run_acts cfg [] s = Some s"
| "run_acts cfg (Hook_entered inp # as) (ist, (c, names, g), t) =
     (case enter_hook cfg inp c g t of (c, g, t) \<Rightarrow> run_acts cfg as (ist, (c, names, g), t))"
| "run_acts cfg (Hook_left inp # as) (ist, sh, t) = run_acts cfg as (ist, sh, exit_hook cfg inp t)"
| "run_acts cfg (Runtime_called call # as) s =
     (case runtime_step cfg call s of None \<Rightarrow> None | Some s' \<Rightarrow> run_acts cfg as s')"
| "run_acts cfg (Api_called call # as) (ist, (c, names, g), t) =
     (case api_step call c t of (c, t) \<Rightarrow> run_acts cfg as (ist, (c, names, g), t))"
| "run_acts cfg (Scope_opened inner # as) (ist, sh, t) =
     (case open_scope t of
        (scope, t) \<Rightarrow>
          (case run_acts cfg inner (ist, sh, t) of
             None \<Rightarrow> None
           | Some (ist, sh, t) \<Rightarrow> run_acts cfg as (ist, sh, close_scope scope t)))"
  by pat_completeness auto
termination
  by (relation "measure (\<lambda>(cfg, acts, s). size_list size acts)") auto

text \<open>Every runtime call in the code has a definition of the runtime to go to.\<close>

fun act_forwards :: "scoped_act \<Rightarrow> bool" where
  "act_forwards (Hook_entered inp) \<longleftrightarrow> True"
| "act_forwards (Hook_left inp) \<longleftrightarrow> True"
| "act_forwards (Runtime_called call) \<longleftrightarrow> forwards call"
| "act_forwards (Api_called call) \<longleftrightarrow> True"
| "act_forwards (Scope_opened inner) \<longleftrightarrow> list_all act_forwards inner"

text \<open>The lookups the code makes, in order, and a thread making them outside of any scope.\<close>

fun lookups_in :: "scoped_act \<Rightarrow> api_call list" where
  "lookups_in (Api_called call) = [call]"
| "lookups_in (Scope_opened inner) = concat (map lookups_in inner)"
| "lookups_in act = []"

definition lookups_of :: "scoped_act list \<Rightarrow> api_call list" where
  "lookups_of acts = concat (map lookups_in acts)"

lemma lookups_of_simps [simp]:
  "lookups_of [] = []"
  "lookups_of (act # acts) = lookups_in act @ lookups_of acts"
  "lookups_in (Scope_opened inner) = lookups_of inner"
  by (simp_all add: lookups_of_def)

declare lookups_in.simps(2) [simp del]

fun api_calls :: "api_call list \<Rightarrow> interposed \<Rightarrow> interposed" where
  "api_calls [] s = s"
| "api_calls (call # calls) (ist, (c, names, g), t) =
     (let (c, t) = api_step call c t in api_calls calls (ist, (c, names, g), t))"

lemma api_calls_append: "api_calls (xs @ ys) s = api_calls ys (api_calls xs s)"
  by (induction xs s rule: api_calls.induct) (simp_all add: case_prod_beta Let_def)

text \<open>Only the shared caches and the thread's front caches may change, whether or not the guard is set.\<close>

definition with_guard :: "bool \<Rightarrow> interposed \<Rightarrow> interposed" where
  "with_guard b s = (case s of (ist, sh, t) \<Rightarrow> (ist, sh, t\<lparr>in_instrumentation := b\<rparr>))"

lemma api_calls_guard: "api_calls calls (with_guard b s) = with_guard b (api_calls calls s)"
proof (induction calls s rule: api_calls.induct)
  case (2 call calls ist c names g t)
  then show ?case by (auto simp: with_guard_def api_step_guard split: prod.split)
qed simp

lemma api_step_fronts: "\<exists>c' f. api_step call c t = (c', t\<lparr>thread_fronts := f\<rparr>)"
  using api_step_thread [of call c t] by (metis prod.collapse)

lemma api_calls_result:
  "\<exists>c' f. \<forall>ist names g. api_calls calls (ist, (c, names, g), t) =
     (ist, (c', names, g), t\<lparr>thread_fronts := f\<rparr>)"
proof (induction calls arbitrary: c t)
  case Nil
  show ?case by (intro exI [of _ c] exI [of _ "thread_fronts t"]) simp
next
  case (Cons call calls)
  obtain c1 f1 where s: "api_step call c t = (c1, t\<lparr>thread_fronts := f1\<rparr>)" using api_step_fronts by blast
  obtain c2 f2 where "\<forall>ist names g. api_calls calls (ist, (c1, names, g), t\<lparr>thread_fronts := f1\<rparr>) =
      (ist, (c2, names, g), t\<lparr>thread_fronts := f1, thread_fronts := f2\<rparr>)"
    using Cons.IH by blast
  then show ?case by (intro exI [of _ c2] exI [of _ f2]) (simp add: s)
qed

lemma guarded_hooks [simp]:
  "in_instrumentation t \<Longrightarrow> enter_hook cfg inp c g t = (c, g, t)"
  "in_instrumentation t \<Longrightarrow> exit_hook cfg inp t = t"
  by (simp_all add: enter_hook_def exit_hook_def)

lemma guarded_call [simp]:
  "in_instrumentation t \<Longrightarrow>
   runtime_step cfg call (ist, sh, t) = (if forwards call then Some (ist, sh, t) else None)"
  by (cases call) (simp_all add: cslg_cxa_throw_def cslg_cxa_rethrow_def cslg_rethrow_exception_def
      cslg_cxa_begin_catch_def cslg_terminate_def silent_def)

lemma guarded_scope [simp]:
  "in_instrumentation t \<Longrightarrow> open_scope t = (\<lparr>previous = True\<rparr>, t)"
  "in_instrumentation t \<Longrightarrow> close_scope \<lparr>previous = True\<rparr> t = t"
  by (simp_all add: scope_defs)

abbreviation guarded :: "interposed \<Rightarrow> bool" where
  "guarded s \<equiv> in_instrumentation (snd (snd s))"

lemma guarded_api [simp]: "guarded s \<Longrightarrow> guarded (api_calls calls s)"
proof -
  assume g: "guarded s"
  obtain ist c names g t where s: "s = (ist, (c, names, g), t)" by (metis prod.collapse)
  obtain c' f where "api_calls calls s = (ist, (c', names, g), t\<lparr>thread_fronts := f\<rparr>)"
    using api_calls_result [of calls c t] s by blast
  with g s show ?thesis by simp
qed

lemma guarded_acts:
  "guarded s \<Longrightarrow>
   run_acts cfg acts s = (if list_all act_forwards acts then Some (api_calls (lookups_of acts) s) else None)"
proof (induction cfg acts s rule: run_acts.induct)
  case (4 cfg call as s)
  then show ?case by (cases s) auto
next
  case (5 cfg call as ist c names g t)
  obtain c1 f where s: "api_step call c t = (c1, t\<lparr>thread_fronts := f\<rparr>)" using api_step_fronts by blast
  with "5.IH" [OF s [symmetric]] "5.prems" show ?case by simp
next
  case (6 cfg inner as ist sh t)
  then have t: "in_instrumentation t" by simp
  show ?case
  proof (cases "list_all act_forwards inner")
    case True
    obtain ist' sh' t' where r: "api_calls (lookups_of inner) (ist, sh, t) = (ist', sh', t')"
      by (metis prod_cases3)
    then have t': "in_instrumentation t'" using guarded_api [of "(ist, sh, t)" "lookups_of inner"] t by simp
    have "run_acts cfg inner (ist, sh, t) = Some (ist', sh', t')"
      using "6.IH"(1) [of "\<lparr>previous = True\<rparr>" t] t True r by simp
    with "6.IH"(2) [of "\<lparr>previous = True\<rparr>" t, OF _ this refl refl] t t' True r show ?thesis
      by (simp add: api_calls_append)
  next
    case False
    with "6.IH"(1) [of "\<lparr>previous = True\<rparr>" t] t show ?thesis by simp
  qed
qed simp_all

section \<open>The program's \<open>what()\<close>\<close>

text \<open>
  The text of a thrown object, asked for in a scope; \<open>acts\<close> is what its \<open>what()\<close> does, which runs
  only when the object has one. The throw and the catch interposer, with the code that runs in them.
\<close>

definition what_of_thrown ::
    "config \<Rightarrow> runtime_input \<Rightarrow> string option \<Rightarrow> scoped_act list \<Rightarrow> interposed
       \<Rightarrow> (string option \<times> interposed) option" where
  "what_of_thrown cfg inp type acts s =
     (let (ist, sh, t) = s;
          (scope, t) = open_scope t;
          text = std_exception_what type (ri_text inp)
      in case run_acts cfg (if text = None then [] else acts) (ist, sh, t) of
           None \<Rightarrow> None
         | Some (ist, sh, t) \<Rightarrow> Some (sanitized_what text, ist, sh, close_scope scope t))"

definition cslg_cxa_throw_running ::
    "config \<Rightarrow> runtime_input \<Rightarrow> string option \<Rightarrow> scoped_act list \<Rightarrow> interposed \<Rightarrow> interposed option" where
  "cslg_cxa_throw_running cfg inp type acts s =
     (let (ist, sh, t) = s in
      if next_definition (ri_linker inp) ''__cxa_throw'' = None then cannot_forward
      else if silent ist t then Some (ist, sh, t)
      else case what_of_thrown cfg inp type acts (ist, sh, t) of
             None \<Rightarrow> None
           | Some (w, ist, sh, t) \<Rightarrow>
               let (sh, t) = on_throw cfg (ri_event inp) primary \<lparr>et_info = type, et_label = None\<rparr> w
                               (ri_return inp - 1) sh t
               in Some (ist, sh, t))"

definition cslg_cxa_begin_catch_running ::
    "config \<Rightarrow> runtime_input \<Rightarrow> scoped_act list \<Rightarrow> interposed \<Rightarrow> interposed option" where
  "cslg_cxa_begin_catch_running cfg inp acts s =
     (let (ist, sh, t) = s in
      if next_definition (ri_linker inp) ''__cxa_begin_catch'' = None then cannot_forward
      else if silent ist t then Some (ist, sh, t)
      else
        let type = \<lparr>et_info = ri_current_type inp,
                    et_label = foreign_exception_label (ri_object inp)\<rparr>;
            ist = ist\<lparr>t_last_caught_label := et_label type\<rparr>
        in case (if is_native_primary_exception (ri_object inp)
                 then what_of_thrown cfg inp (et_info type) acts (ist, sh, t)
                 else Some (None, ist, sh, t)) of
             None \<Rightarrow> None
           | Some (w, ist, sh, t) \<Rightarrow>
               (case catch_means_terminate (ri_linker inp) (ri_return inp) of
                  Some reason \<Rightarrow>
                    let (sh, t) = on_terminate cfg (ri_event inp) reason type w None sh t
                    in Some (ist\<lparr>t_terminating := True\<rparr>, sh, t)
                | None \<Rightarrow>
                    let (terminating, sh, t) =
                          on_catch cfg (ri_event inp) type w
                            (is_native_dependent_exception (ri_object inp))
                            (ri_return inp) (ri_frame inp) sh t
                    in Some (if terminating then ist\<lparr>t_terminating := True\<rparr> else ist, sh, t)))"

lemma sanitized_none [simp]: "sanitized_what None = None"
  by (simp add: sanitized_what_def)

lemma what_of_thrown_result:
  "what_of_thrown cfg inp type acts s =
     (if std_exception_what type (ri_text inp) = None then Some (None, s)
      else if list_all act_forwards acts
      then Some (sanitized_what (std_exception_what type (ri_text inp)), api_calls (lookups_of acts) s)
      else None)"
proof -
  obtain ist c names g t where s: "s = (ist, (c, names, g), t)" by (metis prod.collapse)
  let ?u = "t\<lparr>in_instrumentation := True\<rparr>"
  have open_t: "open_scope t = (\<lparr>previous = in_instrumentation t\<rparr>, ?u)" by (simp add: scope_defs)
  obtain c' f where r: "api_calls (lookups_of acts) s = (ist, (c', names, g), t\<lparr>thread_fronts := f\<rparr>)"
    using api_calls_result [of "lookups_of acts" c t] s by blast
  have "(ist, (c, names, g), ?u) = with_guard True s" by (simp add: s with_guard_def)
  then have "api_calls (lookups_of acts) (ist, (c, names, g), ?u) =
      (ist, (c', names, g), ?u\<lparr>thread_fronts := f\<rparr>)"
    by (simp add: api_calls_guard r) (simp add: with_guard_def)
  with guarded_acts [of "(ist, (c, names, g), ?u)" cfg] show ?thesis
    by (cases "std_exception_what type (ri_text inp)")
      (simp_all add: what_of_thrown_def s open_t r [unfolded s] scope_defs)
qed

section \<open>Property\<close>

text \<open>Whether a throw or a catch asks the object for its text.\<close>

definition throw_asks :: "runtime_input \<Rightarrow> string option \<Rightarrow> interposed \<Rightarrow> bool" where
  "throw_asks inp type s = (case s of (ist, sh, t) \<Rightarrow>
     \<not> silent ist t \<and> std_exception_what type (ri_text inp) \<noteq> None)"

definition catch_asks :: "runtime_input \<Rightarrow> interposed \<Rightarrow> bool" where
  "catch_asks inp s \<longleftrightarrow> throw_asks inp (ri_current_type inp) s \<and> is_native_primary_exception (ri_object inp)"

lemma what_throws:
  "cslg_cxa_throw_running cfg inp type acts s =
     (if \<not> throw_asks inp type s then cslg_cxa_throw cfg inp type s
      else if list_all act_forwards acts
      then cslg_cxa_throw cfg inp type (api_calls (lookups_of acts) s)
      else None)"
proof -
  obtain ist c names g t where s: "s = (ist, (c, names, g), t)" by (metis prod.collapse)
  obtain c' f where r: "\<And>ist names g. api_calls (lookups_of acts) (ist, (c, names, g), t) =
      (ist, (c', names, g), t\<lparr>thread_fronts := f\<rparr>)"
    using api_calls_result [of "lookups_of acts" c t] by blast
  show ?thesis
    by (cases "std_exception_what type (ri_text inp)"; cases "list_all act_forwards acts")
      (simp_all add: cslg_cxa_throw_running_def cslg_cxa_throw_def throw_asks_def s r silent_def
        what_of_thrown_result cannot_forward_def)
qed

lemma what_catches:
  "cslg_cxa_begin_catch_running cfg inp acts s =
     (if \<not> catch_asks inp s then cslg_cxa_begin_catch cfg inp s
      else if list_all act_forwards acts
      then cslg_cxa_begin_catch cfg inp (api_calls (lookups_of acts) s)
      else None)"
proof -
  obtain ist c names g t where s: "s = (ist, (c, names, g), t)" by (metis prod.collapse)
  obtain c' f where r: "\<And>ist names g. api_calls (lookups_of acts) (ist, (c, names, g), t) =
      (ist, (c', names, g), t\<lparr>thread_fronts := f\<rparr>)"
    using api_calls_result [of "lookups_of acts" c t] by blast
  show ?thesis
    by (cases "std_exception_what (ri_current_type inp) (ri_text inp)";
        cases "list_all act_forwards acts"; cases "is_native_primary_exception (ri_object inp)";
        cases "catch_means_terminate (ri_linker inp) (ri_return inp)")
      (simp_all add: cslg_cxa_begin_catch_running_def cslg_cxa_begin_catch_def catch_asks_def
        throw_asks_def s r silent_def what_of_thrown_result cannot_forward_def case_prod_beta Let_def)
qed


end
