(* ===== verification/TraceProcess.thy ===== *)
theory TraceProcess
  imports StepInvariants TracerScope
begin

text \<open>
  The process: its threads, each with the tracer's state for it, and what they share. A step is one
  thread's hook, runtime call, end, or the start or shutdown of the tracer; threads interleave in
  any order between steps, and what other threads do to the resolver's caches during a step is part
  of the step's input. The invariants are proved for every reachable process.
\<close>

section \<open>Processes and steps\<close>

record process =
  p_caches :: caches
  p_names :: type_names
  p_globals :: trace_globals
  p_threads :: "nat \<Rightarrow> thread_state"
  p_interposers :: "nat \<Rightarrow> interposer_state"

text \<open>Thread \<open>i\<close> owns the file object \<open>i\<close>; its trace file may exist from an earlier run.\<close>

definition initial_process :: "(nat \<Rightarrow> string) \<Rightarrow> process" where
  "initial_process existing =
     \<lparr>p_caches = empty_caches, p_names = Map.empty, p_globals = initial_globals,
      p_threads = (\<lambda>i. fresh_thread i (existing i)), p_interposers = (\<lambda>_. initial_interposer)\<rparr>"

datatype process_op =
    Begin begin_input
  | Enter nat hook_input
  | Exit nat hook_input
  | Runtime nat runtime_call
  | Api nat api_call
  | Shutdown nat
  | Thread_end nat

text \<open>None is an abort. The main thread is thread 0.\<close>

fun process_step :: "config \<Rightarrow> process_op \<Rightarrow> process \<Rightarrow> process option" where
  "process_step cfg (Begin bi) p =
     (case trace_begin cfg bi (p_globals p) (p_threads p 0) of
        None \<Rightarrow> None
      | Some (g, t) \<Rightarrow> Some (p\<lparr>p_globals := g, p_threads := (p_threads p)(0 := t)\<rparr>))"
| "process_step cfg (Enter i inp) p =
     (let (c, g, t) = enter_hook cfg inp (p_caches p) (p_globals p) (p_threads p i)
      in Some (p\<lparr>p_caches := c, p_globals := g, p_threads := (p_threads p)(i := t)\<rparr>))"
| "process_step cfg (Exit i inp) p =
     Some (p\<lparr>p_threads := (p_threads p)(i := exit_hook cfg inp (p_threads p i))\<rparr>)"
| "process_step cfg (Runtime i call) p =
     (case runtime_step cfg call
             (p_interposers p i, (p_caches p, p_names p, p_globals p), p_threads p i) of
        None \<Rightarrow> None
      | Some (ist, (c, names, g), t) \<Rightarrow>
          Some (p\<lparr>p_caches := c, p_names := names, p_globals := g,
                  p_threads := (p_threads p)(i := t),
                  p_interposers := (p_interposers p)(i := ist)\<rparr>))"
| "process_step cfg (Api i call) p =
     (let (c, t) = api_step call (p_caches p) (p_threads p i)
      in Some (p\<lparr>p_caches := c, p_threads := (p_threads p)(i := t)\<rparr>))"
| "process_step cfg (Shutdown i) p =
     (let (g, t) = trace_shutdown (p_globals p) (p_threads p i)
      in Some (p\<lparr>p_globals := g, p_threads := (p_threads p)(i := t)\<rparr>))"
| "process_step cfg (Thread_end i) p =
     (let (g, t) = close_thread_file (p_globals p) (p_threads p i)
      in Some (p\<lparr>p_globals := g, p_threads := (p_threads p)(i := t)\<rparr>))"

fun process_run :: "config \<Rightarrow> process_op list \<Rightarrow> process \<Rightarrow> process option" where
  "process_run cfg [] p = Some p"
| "process_run cfg (op # ops) p =
     (case process_step cfg op p of None \<Rightarrow> None | Some p' \<Rightarrow> process_run cfg ops p')"

text \<open>The constructor runs once; the interposers exist in builds with LOG_EXCEPTIONS only.\<close>

fun admissible :: "config \<Rightarrow> process_op \<Rightarrow> process \<Rightarrow> bool" where
  "admissible cfg (Begin bi) p \<longleftrightarrow> \<not> trace_ready (p_globals p)"
| "admissible cfg (Runtime i call) p \<longleftrightarrow> log_exceptions cfg"
| "admissible cfg _ p \<longleftrightarrow> True"

text \<open>\<open>env\<close> restricts what the environment of a step may be.\<close>

inductive reachable ::
    "config \<Rightarrow> (process_op \<Rightarrow> process \<Rightarrow> bool) \<Rightarrow> (nat \<Rightarrow> string) \<Rightarrow> process \<Rightarrow> bool"
  for cfg env existing where
  initial: "reachable cfg env existing (initial_process existing)"
| step: "\<lbrakk>reachable cfg env existing p; admissible cfg op p; env op p;
          process_step cfg op p = Some p'\<rbrakk> \<Longrightarrow> reachable cfg env existing p'"

inductive_cases reachable_cases: "reachable cfg env existing p"

fun allowed_run :: "config \<Rightarrow> (process_op \<Rightarrow> process \<Rightarrow> bool) \<Rightarrow> process_op list \<Rightarrow> process \<Rightarrow> bool" where
  "allowed_run cfg env [] p \<longleftrightarrow> True"
| "allowed_run cfg env (op # ops) p \<longleftrightarrow>
     admissible cfg op p \<and> env op p \<and>
     (case process_step cfg op p of None \<Rightarrow> True | Some p' \<Rightarrow> allowed_run cfg env ops p')"

lemma reachable_run:
  "reachable cfg env existing p \<Longrightarrow> allowed_run cfg env ops p \<Longrightarrow> process_run cfg ops p = Some p' \<Longrightarrow>
   reachable cfg env existing p'"
  by (induction ops arbitrary: p) (auto split: option.splits intro: reachable.step)

text \<open>Every step acts on one thread.\<close>

fun op_thread :: "process_op \<Rightarrow> nat" where
  "op_thread (Begin bi) = 0"
| "op_thread (Enter i inp) = i"
| "op_thread (Exit i inp) = i"
| "op_thread (Runtime i call) = i"
| "op_thread (Api i call) = i"
| "op_thread (Shutdown i) = i"
| "op_thread (Thread_end i) = i"

text \<open>What a step of each kind that may fail or return several results comes from.\<close>

lemma begin_stepE:
  assumes "process_step cfg (Begin bi) p = Some p'"
  obtains g t where "trace_begin cfg bi (p_globals p) (p_threads p 0) = Some (g, t)"
    and "p' = p\<lparr>p_globals := g, p_threads := (p_threads p)(0 := t)\<rparr>"
  using assms by (auto split: option.splits)

lemma runtime_stepE:
  assumes "process_step cfg (Runtime i call) p = Some p'"
  obtains ist c names g t where "runtime_step cfg call
      (p_interposers p i, (p_caches p, p_names p, p_globals p), p_threads p i) = Some (ist, (c, names, g), t)"
    and "p_threads p' i = t" "p_globals p' = g"
  using assms by (auto split: option.splits)

lemma api_step_result:
  assumes "process_step cfg (Api i call) p = Some p'"
  shows "p_threads p' i = snd (api_step call (p_caches p) (p_threads p i))" "p_globals p' = p_globals p"
  using assms by (auto simp: Let_def split: prod.splits)

text \<open>
  A throw or a catch that runs a \<open>what()\<close> is a run of the process: the lookups the \<open>what()\<close> makes, as public
  calls of the thread, and then the throw or the catch. So what holds of every process holds of
  processes with such objects too.
\<close>

definition seen_by :: "nat \<Rightarrow> process \<Rightarrow> interposed" where
  "seen_by i p = (p_interposers p i, (p_caches p, p_names p, p_globals p), p_threads p i)"

lemma api_run:
  "\<exists>p'. process_run cfg (map (Api i) calls @ ops) p = process_run cfg ops p' \<and>
     seen_by i p' = api_calls calls (seen_by i p)"
proof (induction calls arbitrary: p)
  case (Cons call calls)
  obtain c t where s: "api_step call (p_caches p) (p_threads p i) = (c, t)" by fastforce
  let ?p = "p\<lparr>p_caches := c, p_threads := (p_threads p)(i := t)\<rparr>"
  have "seen_by i ?p = (p_interposers p i, (c, p_names p, p_globals p), t)" by (simp add: seen_by_def)
  with Cons.IH [of ?p] s show ?case by (simp add: seen_by_def)
qed auto

lemma running_what_is_a_run:
  assumes "list_all act_forwards acts"
  shows "throw_asks inp type (seen_by i p) \<Longrightarrow>
      cslg_cxa_throw_running cfg inp type acts (seen_by i p) =
        map_option (seen_by i)
          (process_run cfg (map (Api i) (lookups_of acts) @ [Runtime i (Throw inp type)]) p)"
    and "catch_asks inp (seen_by i p) \<Longrightarrow>
      cslg_cxa_begin_catch_running cfg inp acts (seen_by i p) =
        map_option (seen_by i)
          (process_run cfg (map (Api i) (lookups_of acts) @ [Runtime i (Begin_catch inp)]) p)"
proof -
  have step: "map_option (seen_by i) (process_run cfg [Runtime i call] q) = runtime_step cfg call (seen_by i q)"
    for call q by (auto simp: seen_by_def split: option.split)
  show "cslg_cxa_throw_running cfg inp type acts (seen_by i p) =
      map_option (seen_by i)
        (process_run cfg (map (Api i) (lookups_of acts) @ [Runtime i (Throw inp type)]) p)"
    if "throw_asks inp type (seen_by i p)"
    using api_run [of cfg i "lookups_of acts" "[Runtime i (Throw inp type)]" p]
      step [of "Throw inp type"] what_throws [of cfg inp type acts "seen_by i p"] that assms by force
  show "cslg_cxa_begin_catch_running cfg inp acts (seen_by i p) =
      map_option (seen_by i)
        (process_run cfg (map (Api i) (lookups_of acts) @ [Runtime i (Begin_catch inp)]) p)"
    if "catch_asks inp (seen_by i p)"
    using api_run [of cfg i "lookups_of acts" "[Runtime i (Begin_catch inp)]" p]
      step [of "Begin_catch inp"] what_catches [of cfg inp acts "seen_by i p"] that assms by force
qed

lemma other_threads_unchanged:
  "process_step cfg op p = Some p' \<Longrightarrow> j \<noteq> op_thread op \<Longrightarrow> p_threads p' j = p_threads p j"
  by (cases op) (auto simp: Let_def split: option.splits prod.splits)

section \<open>The bookkeeping of every thread\<close>

lemma trace_begin_result: 
  assumes "trace_begin cfg bi g t = Some (g', t')"
  shows "\<exists>tid base cache. g' = g\<lparr>main_tid := tid, base_path := base, trace_ready := True\<rparr> \<and>
    t' = t\<lparr>thread_time := cache, cached_tid := tid, in_instrumentation := False\<rparr>"
proof -
  define now where "now = pretty_time (bi_render bi) (thread_time t) (bi_clock bi)"
  define t1 where "t1 = (if line_patching cfg then t\<lparr>in_instrumentation := True, thread_time := snd now\<rparr>
     else t\<lparr>in_instrumentation := True\<rparr>)"
  define ct where "ct = current_tid (bi_gettid bi) t1"
  define base where "base = make_absolute_trace_path (resolve_base_trace_path (bi_env bi)) (bi_cwd bi)"
  have "trace_begin cfg bi g t =
      (if line_patching cfg \<and> length (fst now) \<noteq> PRETTY_TIME_LENGTH then None
       else if log_exceptions cfg \<and> (case verify_interposers (bi_active bi) (bi_linker bi) (bi_own bi) of
             Inl fatal \<Rightarrow> True | Inr _ \<Rightarrow> False) then None
       else Some (g\<lparr>main_tid := fst ct, base_path := base, trace_ready := True\<rparr>,
                  (snd ct)\<lparr>in_instrumentation := False\<rparr>))"
    by (simp add: trace_begin_def Let_def case_prod_beta now_def t1_def ct_def base_def)
  then have g': "g' = g\<lparr>main_tid := fst ct, base_path := base, trace_ready := True\<rparr>"
    and t': "t' = (snd ct)\<lparr>in_instrumentation := False\<rparr>"
    using assms by (simp_all split: if_split_asm)
  have "snd ct = t1\<lparr>cached_tid := fst ct\<rparr>" by (simp add: ct_def current_tid_def Let_def)
  moreover have "\<exists>cache. t1 = t\<lparr>in_instrumentation := True, thread_time := cache\<rparr>"
  proof (cases "line_patching cfg")
    case False
    then have "t1 = t\<lparr>in_instrumentation := True, thread_time := thread_time t\<rparr>" by (simp add: t1_def)
    then show ?thesis by blast
  qed (auto simp: t1_def)
  ultimately obtain cache where "t' = t\<lparr>thread_time := cache, cached_tid := fst ct, in_instrumentation := False\<rparr>"
    using t' by auto
  with g' show ?thesis by blast
qed
lemma trace_begin_fields:
  assumes "trace_begin cfg bi g t = Some (g', t')"
  shows "trace_ready g'" "open_files g' = open_files g" "shutdown_complete g' = shutdown_complete g"
    "registered t' = registered t" "file_id t' = file_id t" "trace_fp t' = trace_fp t"
    "open_attempted t' = open_attempted t" "file_bytes t' = file_bytes t" "frames t' = frames t"
    "current_stack_depth t' = current_stack_depth t" "cursor t' = cursor t"
    "cursor_valid t' = cursor_valid t" "patch_fd t' = patch_fd t"
  using trace_begin_result [OF assms] by auto

lemma tracer_ok_begin: "tracer_ok t \<Longrightarrow> trace_begin cfg bi g t = Some (g', t') \<Longrightarrow> tracer_ok t'"
  by (auto simp: tracer_ok_def dest: trace_begin_result)

lemma tracer_ok_shutdown: "tracer_ok t \<Longrightarrow> trace_shutdown g t = (g', t') \<Longrightarrow> tracer_ok t'"
  by (auto simp: trace_shutdown_def tracer_ok_def Let_def split: if_splits)

lemma tracer_ok_close: "tracer_ok t \<Longrightarrow> close_thread_file g t = (g', t') \<Longrightarrow> tracer_ok t'"
  by (auto simp: close_thread_file_def tracer_ok_def Let_def split: if_splits)

lemma tracer_ok_api: "tracer_ok t \<Longrightarrow> tracer_ok (snd (api_step call c t))"
  by (subst api_step_thread) (simp add: tracer_ok_def)

lemma api_step_same_file: "same_file t (snd (api_step call c t))"
  by (subst api_step_thread) (simp add: same_file_def)

lemma tracer_ok_step:
  assumes "process_step cfg op p = Some p'" "tracer_ok (p_threads p (op_thread op))"
  shows "tracer_ok (p_threads p' (op_thread op))"
proof (cases op)
  case (Runtime i call)
  from assms(1) [unfolded Runtime] obtain ist c names g t where r: "runtime_step cfg call
      (p_interposers p i, (p_caches p, p_names p, p_globals p), p_threads p i) = Some (ist, (c, names, g), t)"
    and p': "p_threads p' i = t" "p_globals p' = g" by (rule runtime_stepE)
  from r have "advances cfg (p_threads p i) t" by (rule runtime_step_advances)
  then show ?thesis using p' tracer_ok_advances assms(2) Runtime by simp
next
  case (Enter i inp)
  then show ?thesis
    using assms enter_hook_ok [of "p_threads p i" cfg inp "p_caches p" "p_globals p"]
    by (auto simp: Let_def split: prod.splits)
next
  case (Api i call)
  with assms tracer_ok_api show ?thesis by (simp add: api_step_result(1))
qed (use assms in \<open>auto simp: Let_def exit_hook_ok tracer_ok_begin
       dest: tracer_ok_shutdown tracer_ok_close split: prod.splits option.splits\<close>)

section \<open>The program's calls as steps of the process\<close>

text \<open>A call of the program into the tracer, by a hook, the runtime or the public interface.\<close>

fun is_call :: "process_op \<Rightarrow> bool" where
  "is_call (Enter i inp) \<longleftrightarrow> True"
| "is_call (Exit i inp) \<longleftrightarrow> True"
| "is_call (Runtime i call) \<longleftrightarrow> True"
| "is_call (Api i call) \<longleftrightarrow> True"
| "is_call _ \<longleftrightarrow> False"

fun op_good ::
    "(open_input \<Rightarrow> bool) \<Rightarrow> (hook_input \<Rightarrow> bool) \<Rightarrow> (thread_state \<Rightarrow> bool) \<Rightarrow> process_op \<Rightarrow> process \<Rightarrow> bool" where
  "op_good good_io good_hook fits (Enter i inp) p \<longleftrightarrow> good_hook inp \<and> fits (p_threads p i)"
| "op_good good_io good_hook fits (Runtime i call) p \<longleftrightarrow> good_io (ei_open (ri_event (call_input call)))"
| "op_good good_io good_hook fits _ p \<longleftrightarrow> True"

context step_invariant
begin

lemma hook_step_keeps:
  assumes "process_step cfg op p = Some p'" "is_call op" "op_good good_io good_hook fits op p"
    and "I (p_globals p) (p_threads p (op_thread op))"
  shows "I (p_globals p') (p_threads p' (op_thread op))"
proof (cases op)
  case (Enter i inp)
  obtain c g t where e: "enter_hook cfg inp (p_caches p) (p_globals p) (p_threads p i) = (c, g, t)"
    by (metis prod_cases3)
  have "I g t" using enter_hook_keeps [OF _ _ _ e] assms(3,4) Enter by simp
  with e assms(1) Enter show ?thesis by auto
next
  case (Runtime i call)
  from assms(1) [unfolded Runtime] obtain ist c names g t where r: "runtime_step cfg call
      (p_interposers p i, (p_caches p, p_names p, p_globals p), p_threads p i) = Some (ist, (c, names, g), t)"
    and p': "p_threads p' i = t" "p_globals p' = g" by (rule runtime_stepE)
  with runtime_step_keeps [OF r] assms(3,4) Runtime show ?thesis by simp
next
  case (Api i call)
  with same [OF assms(4) api_step_same_file] api_step_result assms(1) show ?thesis by simp
qed (use assms exit_hook_keeps in auto)

end

section \<open>The phase of the tracer\<close>

text \<open>It changes by the start and the shutdown only.\<close>

definition in_phase :: "bool \<Rightarrow> bool \<Rightarrow> trace_globals \<Rightarrow> thread_state \<Rightarrow> bool" where
  "in_phase ready over g t \<longleftrightarrow> trace_ready g = ready \<and> shutdown_complete g = over"

lemma in_phase_open:
  assumes "in_phase ready over g t" "get_thread_fp cfg io g t = (threw, fp, g', t')"
  shows "in_phase ready over g' t'"
proof -
  obtain threw' g1 t1 where o: "open_this_thread_file cfg io g t = (threw', g1, t1)"
    by (metis prod_cases3)
  then have "trace_ready g1 = trace_ready g" "shutdown_complete g1 = shutdown_complete g"
    using open_file_globals [of cfg io g t] by simp_all
  moreover have "g' = g \<or> g' = g1"
    using assms(2) o by (auto simp: get_thread_fp_def split: if_splits)
  ultimately show ?thesis using assms(1) by (auto simp: in_phase_def)
qed

interpretation phase: step_invariant cfg "\<lambda>_. True" "\<lambda>_. True" "\<lambda>_. True" "in_phase ready over"
  for cfg ready over
proof unfold_locales
  fix g t io threw fp g' t'
  assume "in_phase ready over g t" "get_thread_fp cfg io g t = (threw, fp, g', t')"
  then show "in_phase ready over g' t'" by (rule in_phase_open)
qed (simp_all add: in_phase_def)

section \<open>The registry of open files\<close>

text \<open>
  \<open>S\<close> are the other threads' entries, \<open>ready\<close> and \<open>done\<close> the tracer's phase, all of which a hook of
  one thread leaves alone.
\<close>

definition others :: "nat list \<Rightarrow> nat \<Rightarrow> nat set" where
  "others fs i = set fs - {i}"

lemma others_snoc [simp]: "others (fs @ [i]) i = others fs i"
  by (auto simp: others_def)

lemma others_remove [simp]: "others (remove1 i fs) i = others fs i"
  by (induction fs) (auto simp: others_def)

definition registry_ok :: "bool \<Rightarrow> bool \<Rightarrow> nat set \<Rightarrow> trace_globals \<Rightarrow> thread_state \<Rightarrow> bool" where
  "registry_ok ready over S g t \<longleftrightarrow>
     trace_ready g = ready \<and> shutdown_complete g = over \<and>
     distinct (open_files g) \<and> others (open_files g) (file_id t) = S \<and>
     (over \<longrightarrow> open_files g = []) \<and>
     (\<not> over \<longrightarrow> (file_id t \<in> set (open_files g) \<longleftrightarrow> registered t)) \<and>
     (registered t \<longrightarrow> trace_fp t) \<and> (trace_fp t \<longrightarrow> open_attempted t)"

lemma registry_cong:
  "registry_ok ready over S g t \<Longrightarrow> file_id t' = file_id t \<Longrightarrow> registered t' = registered t \<Longrightarrow>
   trace_fp t' = trace_fp t \<Longrightarrow> open_attempted t' = open_attempted t \<Longrightarrow> registry_ok ready over S g t'"
  by (simp add: registry_ok_def)

lemma registry_register:
  assumes "registry_ok ready over S g t" "\<not> registered t" "open_attempted t"
    and "file_id t' = file_id t" "\<not> registered t'" "trace_fp t'" "open_attempted t'"
    and "register_file io g t' = (threw, g', t'')"
  shows "registry_ok ready over S g' t''"
proof (cases "shutdown_complete g \<or> io_push_throws io")
  case True
  then have "g' = g" "registered t'' = registered t'" "file_id t'' = file_id t'"
    "open_attempted t'' = open_attempted t'"
    using assms(8) by (auto simp: register_file_def split: if_splits)
  with assms show ?thesis by (simp add: registry_ok_def)
next
  case False
  then have g: "g' = g\<lparr>open_files := open_files g @ [file_id t]\<rparr>" "t'' = t'\<lparr>registered := True\<rparr>"
    using assms(4,8) by (simp_all add: register_file_def)
  have "file_id t \<notin> set (open_files g)" using assms(1,2) False by (simp add: registry_ok_def)
  with assms(1,4,6,7) False show ?thesis by (simp add: g registry_ok_def)
qed

lemma registry_open:
  assumes "registry_ok ready over S g t" "get_thread_fp cfg io g t = (threw, fp, g', t')"
  shows "registry_ok ready over S g' t'"
proof (cases "trace_ready g \<and> \<not> shutdown_complete g \<and> \<not> open_attempted t")
  case False
  then have "g' = g" "t' = t" using assms(2) by (auto simp: get_thread_fp_def split: if_splits)
  with assms(1) show ?thesis by simp
next
  case True
  let ?t1 = "snd (current_tid (io_gettid io) (t\<lparr>open_attempted := True\<rparr>))"
  have u: "\<not> registered t" "\<not> trace_fp t" using assms(1) True by (auto simp: registry_ok_def)
  have t1: "file_id ?t1 = file_id t" "\<not> registered ?t1" "\<not> trace_fp ?t1" "open_attempted ?t1"
    using u by (simp_all add: current_tid_def Let_def)
  have attempted: "registry_ok ready over S g ?t1"
    using assms(1) t1 u by (simp add: registry_ok_def)
  let ?t2 = "?t1\<lparr>trace_fp := True, patch_fd := line_patching cfg \<and> io_reopen io\<rparr>"
  let ?tid = "fst (current_tid (io_gettid io) (t\<lparr>open_attempted := True\<rparr>))"
  let ?t3 = "snd (write_run_separator_header io ?tid ?t2)"
  have t3: "file_id ?t3 = file_id t" "\<not> registered ?t3" "trace_fp ?t3" "open_attempted ?t3"
    using t1 by simp_all
  have headed: "registry_ok ready over S g ?t3" using attempted t1 t3 by (simp add: registry_ok_def)
  have reg: "registry_ok ready over S (fst (snd (register_file io g (seed_cursor cfg io ?t3))))
      (snd (snd (register_file io g (seed_cursor cfg io ?t3))))"
    using registry_register [of ready over S g ?t1 "seed_cursor cfg io ?t3" io] attempted t1 t3
    by (simp add: prod_eq_iff)
  obtain threw' g1 t4 where o: "open_this_thread_file cfg io g t = (threw', g1, t4)"
    by (metis prod_cases3)
  have "registry_ok ready over S g1 t4"
    using o attempted headed reg True
    by (simp add: open_this_thread_file_def Let_def case_prod_beta split: if_splits; fastforce)
  moreover have "g' = g1" "t' = t4"
    using assms(2) o True by (simp_all add: get_thread_fp_def)
  ultimately show ?thesis by simp
qed

lemma registry_begin:
  assumes "registry_ok ready over S g t" "trace_begin cfg bi g t = Some (g', t')"
  shows "registry_ok True over S g' t'"
  using assms(1) by (simp add: registry_ok_def trace_begin_fields [OF assms(2)])

lemma registry_shutdown:
  assumes "registry_ok ready over S g t" "trace_shutdown g t = (g', t')"
  shows "registry_ok (trace_ready g') (shutdown_complete g') (others (open_files g') (file_id t)) g' t' \<and>
    file_id t' = file_id t"
proof (cases "shutdown_started g")
  case True
  with assms have "g' = g" "t' = t\<lparr>in_instrumentation := True\<rparr>"
    by (simp_all add: trace_shutdown_def Let_def)
  with assms(1) show ?thesis by (simp add: registry_ok_def)
next
  case False
  with assms have "g' = g\<lparr>shutdown_started := True, open_files := [], shutdown_complete := True\<rparr>"
    "t' = t\<lparr>in_instrumentation := True\<rparr>" by (simp_all add: trace_shutdown_def Let_def)
  with assms(1) show ?thesis by (simp add: registry_ok_def)
qed

lemma registry_close:
  assumes "registry_ok ready over S g t" "close_thread_file g t = (g', t')"
  shows "registry_ok ready over S g' t' \<and> file_id t' = file_id t"
proof (cases "trace_fp t \<and> registered t")
  case True
  with assms have "g' = g\<lparr>open_files := remove1 (file_id t) (open_files g)\<rparr>"
    "t' = t\<lparr>in_instrumentation := True, trace_fp := False, patch_fd := False, registered := False\<rparr>"
    by (simp_all add: close_thread_file_def Let_def)
  with assms(1) show ?thesis by (simp add: registry_ok_def)
next
  case False
  have reg: "registered t \<longrightarrow> trace_fp t" using assms(1) by (simp add: registry_ok_def)
  with False have "\<not> registered t" by blast
  moreover have "g' = g" "registered t' = registered t" "file_id t' = file_id t"
    "trace_fp t' \<longrightarrow> trace_fp t" "open_attempted t' = open_attempted t"
    using assms(2) False reg by (auto simp: close_thread_file_def Let_def split: if_split_asm)
  ultimately show ?thesis using assms(1) by (simp add: registry_ok_def)
qed

interpretation registry: step_invariant cfg "\<lambda>_. True" "\<lambda>_. True" "\<lambda>_. True"
    "registry_ok ready over S" for cfg ready over S
proof unfold_locales
  fix g t t' assume "registry_ok ready over S g t" "same_file t t'"
  then show "registry_ok ready over S g t'" by (simp add: registry_ok_def same_file_def)
next
  fix g t t' assume "registry_ok ready over S g t" "pops cfg t t'"
  then show "registry_ok ready over S g t'" by (simp add: registry_ok_def pops_fields)
next
  fix g t io threw fp g' t'
  assume "registry_ok ready over S g t" "get_thread_fp cfg io g t = (threw, fp, g', t')"
  then show "registry_ok ready over S g' t'" by (rule registry_open)
qed (simp_all add: registry_ok_def)

interpretation own_file: step_invariant cfg "\<lambda>_. True" "\<lambda>_. True" "\<lambda>_. True"
    "\<lambda>g t. file_id t = i" for cfg i
proof unfold_locales
  fix g t io threw fp g' t'
  assume "file_id t = i" "get_thread_fp cfg io g t = (threw, fp, g', t')"
  then show "file_id t' = i"
    by (auto simp: get_thread_fp_def open_this_thread_file_def register_file_def current_tid_def
        Let_def case_prod_beta split: if_splits)
qed (simp_all add: same_file_def pops_fields)

definition registry_invariant :: "process \<Rightarrow> bool" where
  "registry_invariant p \<longleftrightarrow>
     (\<forall>i. file_id (p_threads p i) = i \<and>
        registry_ok (trace_ready (p_globals p)) (shutdown_complete (p_globals p))
          (others (open_files (p_globals p)) i) (p_globals p) (p_threads p i))"

lemma registry_initial: "registry_invariant (initial_process existing)"
  by (simp add: registry_invariant_def registry_ok_def initial_process_def initial_globals_def
      fresh_thread_def)

text \<open>What one thread's step leaves of its own entry decides the others'.\<close>

lemma registry_others:
  assumes "registry_invariant p" "process_step cfg op p = Some p'" "i = op_thread op"
    and "file_id (p_threads p' i) = i"
    and "registry_ok (trace_ready (p_globals p')) (shutdown_complete (p_globals p'))
           (others (open_files (p_globals p')) i) (p_globals p') (p_threads p' i)"
    and "\<not> shutdown_complete (p_globals p') \<Longrightarrow>
           \<not> shutdown_complete (p_globals p) \<and>
           others (open_files (p_globals p')) i = others (open_files (p_globals p)) i"
  shows "registry_invariant p'"
  unfolding registry_invariant_def
proof
  fix j
  show "file_id (p_threads p' j) = j \<and>
      registry_ok (trace_ready (p_globals p')) (shutdown_complete (p_globals p'))
        (others (open_files (p_globals p')) j) (p_globals p') (p_threads p' j)"
  proof (cases "j = i")
    case True
    with assms(4,5) show ?thesis by simp
  next
    case False
    then have t: "p_threads p' j = p_threads p j"
      using other_threads_unchanged [OF assms(2)] assms(3) by simp
    have j: "file_id (p_threads p j) = j"
      "registry_ok (trace_ready (p_globals p)) (shutdown_complete (p_globals p))
         (others (open_files (p_globals p)) j) (p_globals p) (p_threads p j)"
      using assms(1) by (auto simp: registry_invariant_def)
    have mem: "j \<in> set (open_files (p_globals p')) \<longleftrightarrow> j \<in> set (open_files (p_globals p))"
      if "\<not> shutdown_complete (p_globals p')"
    proof -
      have "j \<in> others (open_files (p_globals p')) i \<longleftrightarrow> j \<in> others (open_files (p_globals p)) i"
        using assms(6) [OF that] by simp
      with False show ?thesis by (simp add: others_def)
    qed
    have own: "distinct (open_files (p_globals p'))"
      "shutdown_complete (p_globals p') \<longrightarrow> open_files (p_globals p') = []"
      using assms(5) by (simp_all add: registry_ok_def)
    have reg: "j \<in> set (open_files (p_globals p')) \<longleftrightarrow> registered (p_threads p j)"
      if "\<not> shutdown_complete (p_globals p')"
      using mem [OF that] j assms(6) [OF that] by (simp add: registry_ok_def)
    have fp: "registered (p_threads p j) \<longrightarrow> trace_fp (p_threads p j)"
      "trace_fp (p_threads p j) \<longrightarrow> open_attempted (p_threads p j)"
      using j by (simp_all add: registry_ok_def)
    from own reg fp j(1) show ?thesis
      unfolding registry_ok_def t by simp
  qed
qed

lemma registry_step:
  assumes "registry_invariant p" "process_step cfg op p = Some p'"
  shows "registry_invariant p'"
proof -
  let ?i = "op_thread op" and ?g = "p_globals p"
  let ?S = "others (open_files ?g) ?i"
  have ok: "registry_ok (trace_ready ?g) (shutdown_complete ?g) ?S ?g (p_threads p ?i)"
    and fid: "file_id (p_threads p ?i) = ?i"
    using assms(1) by (auto simp: registry_invariant_def)
  show ?thesis
  proof (cases "is_call op")
    case True
    have good: "op_good (\<lambda>_. True) (\<lambda>_. True) (\<lambda>_. True) op p" by (cases op) simp_all
    have r: "registry_ok (trace_ready ?g) (shutdown_complete ?g) ?S (p_globals p') (p_threads p' ?i)"
      by (rule registry.hook_step_keeps [OF assms(2) True good ok])
    have f: "file_id (p_threads p' ?i) = ?i"
      by (rule own_file.hook_step_keeps [OF assms(2) True good fid])
    have same: "trace_ready (p_globals p') = trace_ready ?g"
      "shutdown_complete (p_globals p') = shutdown_complete ?g"
      "others (open_files (p_globals p')) ?i = ?S"
      using r f by (simp_all add: registry_ok_def)
    show ?thesis
      by (rule registry_others [OF assms refl f]) (use r same in simp_all)
  next
    case False
    show ?thesis
    proof (cases op)
      case (Begin bi)
      from assms(2) [unfolded Begin] obtain g t
        where b: "trace_begin cfg bi ?g (p_threads p 0) = Some (g, t)"
          "p' = p\<lparr>p_globals := g, p_threads := (p_threads p)(0 := t)\<rparr>" by (rule begin_stepE)
      have r: "registry_ok True (shutdown_complete ?g) ?S g t"
        using registry_begin [OF _ b(1)] ok Begin by simp
      show ?thesis
        by (rule registry_others [OF assms refl])
          (use r b(2) Begin fid trace_begin_fields [OF b(1)] in simp_all)
    next
      case (Shutdown i)
      obtain g t where sd: "trace_shutdown ?g (p_threads p i) = (g, t)" by fastforce
      have r: "registry_ok (trace_ready g) (shutdown_complete g) (others (open_files g) i) g t"
        and f: "file_id t = i"
        using registry_shutdown [OF _ sd] ok fid Shutdown by auto
      have p': "p_globals p' = g" "p_threads p' i = t" using sd assms(2) Shutdown by auto
      have "\<not> shutdown_complete g \<Longrightarrow> g = ?g"
        using sd by (auto simp: trace_shutdown_def Let_def split: if_splits)
      then have "\<not> shutdown_complete g \<Longrightarrow>
          \<not> shutdown_complete ?g \<and> others (open_files g) i = others (open_files ?g) i" by simp
      then show ?thesis
        by (intro registry_others [OF assms, of i]) (use r f p' Shutdown in simp_all)
    next
      case (Thread_end i)
      obtain g t where cl: "close_thread_file ?g (p_threads p i) = (g, t)" by fastforce
      have r: "registry_ok (trace_ready ?g) (shutdown_complete ?g) ?S g t" and f: "file_id t = i"
        using registry_close [OF _ cl] ok fid Thread_end by auto
      have p': "p_globals p' = g" "p_threads p' i = t" using cl assms(2) Thread_end by auto
      have same: "others (open_files g) i = ?S" "trace_ready g = trace_ready ?g"
        "shutdown_complete g = shutdown_complete ?g"
        using r f by (simp_all add: registry_ok_def)
      show ?thesis
        by (intro registry_others [OF assms, of i]) (use r f p' same Thread_end in simp_all)
    qed (use False in simp_all)
  qed
qed

end
