(* ===== verification/TracePatches.thy ===== *)
theory TracePatches
  imports TraceProcess
begin

text \<open>
  The patch fields of open lines. As long as timestamps have their length, headers are written and the
  tree fits a line, every record's fields lie in its own line, still hold the placeholder and the
  glyph, and are no other record's; so what a pop rewrites is its own frame's line.
\<close>

section \<open>Hypotheses on the environment\<close>

definition timed_io :: "open_input \<Rightarrow> bool" where
  "timed_io io \<longleftrightarrow> (\<forall>s. length (io_render io s) = 19) \<and> \<not> io_header_throws io \<and>
     io_header io = Wrote_line"

definition timed_hook :: "config \<Rightarrow> hook_input \<Rightarrow> bool" where
  "timed_hook cfg inp \<longleftrightarrow> timed_io (hi_open inp) \<and> 0 \<le> hi_clock inp \<and>
     log_addr_on (in_world (hi_resolver inp)) = log_addr cfg"

definition tree_fits :: "config \<Rightarrow> thread_state \<Rightarrow> bool" where
  "tree_fits cfg t \<longleftrightarrow>
     tree_glyph_offset (current_stack_depth t + 1) (LINE_PREFIX_EXTRA cfg) + 3 < FORMAT_BUF_SIZE"

lemma tree_fits_down:
  "tree_fits cfg t \<Longrightarrow> current_stack_depth t' \<le> current_stack_depth t \<Longrightarrow> tree_fits cfg t'"
  by (auto simp: tree_fits_def tree_glyph_offset_def width_defs)

section \<open>The shape of the time cache\<close>

definition time_shape :: "time_cache \<Rightarrow> bool" where
  "time_shape tc \<longleftrightarrow> cached_size tc = length (cached_prefix tc) \<and> (cached_size tc = 0 \<or> cached_size tc = 19)"

lemma time_shape_step:
  assumes "time_shape tc" "\<forall>s. length (render s) = 19"
    and "pretty_time_into render tc PRETTY_TIME_BUF_SIZE tp = (now, tc')"
  shows "time_shape tc'" "0 \<le> tp \<Longrightarrow> length now = PRETTY_TIME_LENGTH"
proof -
  let ?c = "refresh_time_cache render tc tp"
  have c: "time_shape ?c" "cached_size ?c = 19" "length (cached_prefix ?c) = 19"
    using assms(1,2)
    by (auto simp: time_shape_def refresh_time_cache_def strftime_into_def width_defs Let_def)
  have now: "now = render_timestamp ?c PRETTY_TIME_BUF_SIZE tp" "tc' = ?c"
    using assms(3) by (auto simp: pretty_time_into_def width_defs Let_def)
  show "time_shape tc'" using c now by simp
  assume tp: "0 \<le> tp"
  then have "0 \<le> to_ms tp" by (simp add: to_ms_def trunc_div_def sgn_if)
  then have "length (printf_03ld (trunc_rem (to_ms tp) 1000)) = 3"
    using trunc_rem_bounds [of "to_ms tp" 1000] by (intro length_printf_03ld_nonneg) auto
  with c show "length now = PRETTY_TIME_LENGTH"
    unfolding now by (subst render_timestamp_take) (simp_all add: width_defs)
qed

lemma time_shape_pretty_time:
  "time_shape tc \<Longrightarrow> \<forall>s. length (render s) = 19 \<Longrightarrow> time_shape (snd (pretty_time render tc tp))"
  using time_shape_step(1) [of tc render tp] by (simp add: pretty_time_def prod_eq_iff)

section \<open>Open lines\<close>

definition open_line :: "config \<Rightarrow> string \<Rightarrow> frame_record \<Rightarrow> bool" where
  "open_line cfg f r \<longleftrightarrow>
     (logged r \<and> 0 \<le> line_start r \<longrightarrow>
      inside_file cfg r f \<and>
      (log_elapsed cfg \<longrightarrow>
       take DURATION_FIELD_WIDTH (drop (nat (line_start r) + PLACEHOLDER_OFFSET_IN_LINE) f)
         = DURATION_PLACEHOLDER) \<and>
      (log_exceptions cfg \<and> 1 \<le> line_depth r \<longrightarrow>
       f ! (nat (line_start r) + tree_glyph_offset (line_depth r) (LINE_PREFIX_EXTRA cfg)) = CHR ''|''))"

definition lines_ok :: "config \<Rightarrow> thread_state \<Rightarrow> bool" where
  "lines_ok cfg t \<longleftrightarrow>
     (\<forall>r \<in> set (frames t). open_line cfg (file_bytes t) r) \<and>
     sorted_wrt (\<lambda>r r'. patch_positions cfg r \<inter> patch_positions cfg r' = {}) (frames t)"

definition cursor_ok :: "config \<Rightarrow> thread_state \<Rightarrow> bool" where
  "cursor_ok cfg t \<longleftrightarrow>
     (line_patching cfg \<and> cursor_valid t \<and> trace_fp t \<longrightarrow> cursor t = int (length (file_bytes t)))"

definition file_ok :: "config \<Rightarrow> thread_state \<Rightarrow> bool" where
  "file_ok cfg t \<longleftrightarrow> lines_ok cfg t \<and> cursor_ok cfg t \<and> time_shape (thread_time t) \<and>
     (trace_fp t \<longrightarrow> open_attempted t)"

lemma file_ok_fresh: "file_ok cfg (fresh_thread i existing)"
  by (simp add: file_ok_def lines_ok_def cursor_ok_def fresh_thread_def time_shape_def
      zero_time_cache_def)

lemma open_line_inside: "open_line cfg f r \<Longrightarrow> inside_file cfg r f"
  by (cases "logged r \<and> 0 \<le> line_start r") (auto simp: open_line_def inside_file_def patch_positions_def)

text \<open>The fields of a record's line depend on the bytes at its positions only.\<close>

definition duration_field_of :: "frame_record \<Rightarrow> string \<Rightarrow> string" where
  "duration_field_of r f =
     take DURATION_FIELD_WIDTH (drop (nat (line_start r) + PLACEHOLDER_OFFSET_IN_LINE) f)"

definition glyph_of :: "config \<Rightarrow> frame_record \<Rightarrow> string \<Rightarrow> char" where
  "glyph_of cfg r f = f ! (nat (line_start r) + tree_glyph_offset (line_depth r) (LINE_PREFIX_EXTRA cfg))"

lemma patch_fields_cong:
  assumes "logged r" "0 \<le> line_start r" "inside_file cfg r f" "length f \<le> length f'"
    and "\<And>i. i \<in> patch_positions cfg r \<Longrightarrow> f' ! i = f ! i"
  shows "log_elapsed cfg \<Longrightarrow> duration_field_of r f' = duration_field_of r f"
    and "log_exceptions cfg \<Longrightarrow> 1 \<le> line_depth r \<Longrightarrow> glyph_of cfg r f' = glyph_of cfg r f"
proof -
  let ?o = "nat (line_start r) + PLACEHOLDER_OFFSET_IN_LINE"
  show "duration_field_of r f' = duration_field_of r f" if e: "log_elapsed cfg"
    unfolding duration_field_of_def
  proof (rule nth_equalityI)
    have in_S: "{?o ..< ?o + DURATION_FIELD_WIDTH} \<subseteq> patch_positions cfg r"
      using assms(1,2) e by (auto simp: patch_positions_def)
    then have "?o + DURATION_FIELD_WIDTH - 1 < length f"
      using assms(3) by (auto simp: inside_file_def subset_iff width_defs)
    then have fits: "?o + DURATION_FIELD_WIDTH \<le> length f" by (simp add: width_defs)
    then show "length (take DURATION_FIELD_WIDTH (drop ?o f')) = length (take DURATION_FIELD_WIDTH (drop ?o f))"
      using assms(4) by simp
    fix i assume "i < length (take DURATION_FIELD_WIDTH (drop ?o f'))"
    then have i: "i < DURATION_FIELD_WIDTH" by simp
    then have "?o + i \<in> patch_positions cfg r" using in_S by auto
    with i fits assms(4,5) show "take DURATION_FIELD_WIDTH (drop ?o f') ! i = take DURATION_FIELD_WIDTH (drop ?o f) ! i"
      by simp
  qed
  show "glyph_of cfg r f' = glyph_of cfg r f" if "log_exceptions cfg" "1 \<le> line_depth r"
    unfolding glyph_of_def using assms(1,2) that by (intro assms(5)) (simp add: patch_positions_def)
qed

text \<open>A line stays open when the bytes of its fields stay.\<close>

lemma open_line_cong:
  assumes "open_line cfg f r" "length f \<le> length f'"
    and "\<And>i. i \<in> patch_positions cfg r \<Longrightarrow> f' ! i = f ! i"
  shows "open_line cfg f' r"
proof (cases "logged r \<and> 0 \<le> line_start r")
  case False
  then show ?thesis by (auto simp: open_line_def)
next
  case True
  have inside: "inside_file cfg r f" by (rule open_line_inside [OF assms(1)])
  with True patch_fields_cong [OF _ _ inside assms(2,3)] inside_file_grow [OF inside assms(2)] assms(1)
  show ?thesis by (simp add: open_line_def duration_field_of_def glyph_of_def)
qed

lemma lines_ok_advances:
  assumes "lines_ok cfg t" "advances cfg t t'"
  shows "lines_ok cfg t'"
proof -
  obtain dead where d: "advances_by cfg dead t t'" using assms(2) by (auto simp: advances_def)
  then have fr: "frames t = frames t' @ dead" by (simp add: advances_by_def)
  have "\<forall>r \<in> set dead. inside_file cfg r (file_bytes t)"
    using assms(1) fr open_line_inside by (auto simp: lines_ok_def)
  with d have len: "length (file_bytes t) \<le> length (file_bytes t')"
    and p: "patched_within (dead_positions cfg dead) (file_bytes t)
      (take (length (file_bytes t)) (file_bytes t'))"
    by (auto simp: advances_by_def)
  have "open_line cfg (file_bytes t') r" if r: "r \<in> set (frames t')" for r
  proof (rule open_line_cong [OF _ len])
    show o: "open_line cfg (file_bytes t) r" using assms(1) r fr by (simp add: lines_ok_def)
    fix i assume i: "i \<in> patch_positions cfg r"
    then have "i < length (file_bytes t)" using open_line_inside [OF o] by (auto simp: inside_file_def)
    moreover have "i \<notin> dead_positions cfg dead"
      using assms(1) fr r i by (auto simp: lines_ok_def sorted_wrt_append dead_positions_def)
    ultimately show "file_bytes t' ! i = file_bytes t ! i"
      using p by (auto simp: patched_within_def)
  qed
  then show ?thesis using assms(1) fr by (simp add: lines_ok_def sorted_wrt_append)
qed

lemma popped_length:
  assumes "lines_ok cfg t" "pops cfg t t'"
  shows "length (file_bytes t') = length (file_bytes t)"
proof -
  obtain kept dead b where d: "frames t = kept @ dead" "file_bytes t' = b"
    "(\<forall>r \<in> set dead. inside_file cfg r (file_bytes t)) \<longrightarrow>
       patched_within (\<Union>r \<in> set dead. patch_positions cfg r) (file_bytes t) b"
    using assms(2) unfolding pops_def popped_to_def by force
  have "\<forall>r \<in> set dead. inside_file cfg r (file_bytes t)"
    using assms(1) d(1) open_line_inside by (auto simp: lines_ok_def)
  with d show ?thesis by (simp add: patched_within_def)
qed

lemma file_ok_popped: "file_ok cfg t \<Longrightarrow> pops cfg t t' \<Longrightarrow> file_ok cfg t'"
  using lines_ok_advances [OF _ pops_advances, of cfg t t'] popped_length [of cfg t t']
  by (simp add: file_ok_def cursor_ok_def pops_fields)

section \<open>Opening and events\<close>

lemma file_ok_write:
  assumes "file_ok cfg t" "trace_fp t" "time_shape tc"
  shows "file_ok cfg (write_line cfg result line (t\<lparr>thread_time := tc\<rparr>))"
proof -
  have "lines_ok cfg (t\<lparr>thread_time := tc\<rparr>)" using assms(1) by (simp add: file_ok_def lines_ok_def)
  then have "lines_ok cfg (write_line cfg result line (t\<lparr>thread_time := tc\<rparr>))"
    by (rule lines_ok_advances [OF _ write_line_advances])
  then show ?thesis
    using assms
    by (auto simp: file_ok_def cursor_ok_def write_line_def split: write_result.split)
qed

lemma header_effect:
  assumes "timed_io io" "time_shape (thread_time t)"
  shows "fst (write_run_separator_header io tid t) = False"
    and "time_shape (thread_time (snd (write_run_separator_header io tid t)))"
  using assms time_shape_pretty_time [of "thread_time t" "io_render io" "io_clock io"]
  by (simp_all add: timed_io_def write_run_separator_header_def case_prod_beta Let_def)

lemma cursor_ok_seed: "trace_fp t \<Longrightarrow> cursor_ok cfg (seed_cursor cfg io t)"
  by (simp add: cursor_ok_def seed_cursor_def)

lemma thread_time_seed [simp]: "thread_time (seed_cursor cfg io t) = thread_time t"
  by (simp add: seed_cursor_def)

lemma register_effect:
  "cursor_ok cfg t \<Longrightarrow> cursor_ok cfg (snd (snd (register_file io g t)))"
  "thread_time (snd (snd (register_file io g t))) = thread_time t"
  by (simp_all add: cursor_ok_def register_file_def)

lemma open_file_ok:
  assumes "file_ok cfg t" "timed_io io" "\<not> trace_fp t"
  shows "file_ok cfg (snd (snd (open_this_thread_file cfg io g t)))"
proof -
  let ?ct = "current_tid (io_gettid io) (t\<lparr>open_attempted := True\<rparr>)"
  let ?t1 = "snd ?ct"
  have t1: "\<not> trace_fp ?t1" "thread_time ?t1 = thread_time t"
    using assms(3) by (simp_all add: current_tid_def Let_def)
  let ?t2 = "?t1\<lparr>trace_fp := True, patch_fd := line_patching cfg \<and> io_reopen io\<rparr>"
  let ?t3 = "snd (write_run_separator_header io (fst ?ct) ?t2)"
  have time: "time_shape (thread_time ?t2)" using assms(1) t1 by (simp add: file_ok_def)
  note h = header_effect [OF assms(2) time, of "fst ?ct"]
  have fp: "trace_fp ?t3"
    by (simp add: write_run_separator_header_def case_prod_beta Let_def)
  have "lines_ok cfg (snd (snd (open_this_thread_file cfg io g t)))"
    using assms(1) lines_ok_advances [OF _ open_file_advances] by (simp add: file_ok_def)
  moreover have "cursor_ok cfg t" "cursor_ok cfg ?t1" using assms(3) t1 by (simp_all add: cursor_ok_def)
  with assms(1) t1 h register_effect(1) [OF cursor_ok_seed [OF fp, of cfg io], of io g]
  have "cursor_ok cfg (snd (snd (open_this_thread_file cfg io g t))) \<and>
      time_shape (thread_time (snd (snd (open_this_thread_file cfg io g t))))"
    by (simp add: open_this_thread_file_def case_prod_beta Let_def file_ok_def register_effect(2))
  moreover have "open_attempted (snd (snd (open_this_thread_file cfg io g t)))"
    using assms(1)
    by (simp add: open_this_thread_file_def case_prod_beta Let_def current_tid_def register_file_def
        write_run_separator_header_def seed_cursor_def)
  ultimately show ?thesis by (simp add: file_ok_def)
qed

lemma file_ok_get_fp:
  assumes "file_ok cfg t" "timed_io io" "get_thread_fp cfg io g t = (threw, fp, g', t')"
  shows "file_ok cfg t'"
proof (cases "trace_ready g \<and> \<not> shutdown_complete g \<and> \<not> open_attempted t")
  case False
  then have "t' = t" using assms(3) by (auto simp: get_thread_fp_def split: if_splits)
  with assms(1) show ?thesis by simp
next
  case True
  obtain threw' g1 t1 where o: "open_this_thread_file cfg io g t = (threw', g1, t1)"
    by (metis prod_cases3)
  have "\<not> trace_fp t" using assms(1) True by (auto simp: file_ok_def)
  from open_file_ok [OF assms(1,2) this, of g] o have "file_ok cfg t1" by simp
  moreover have "t' = t1" using assms(3) o True by (simp add: get_thread_fp_def)
  ultimately show ?thesis by simp
qed

section \<open>The line of a call\<close>

lemma length_prefix:
  assumes "loggable cfg v" "length now = PRETTY_TIME_LENGTH"
  shows "length (prefix_text now (DURATION_SPLICE cfg) (callee_address v)) =
     TIMESTAMP_PREFIX_WIDTH + LINE_PREFIX_EXTRA cfg"
proof -
  have "length (address_text (callee_address v)) = (if log_addr cfg then ADDR_COLUMN_WIDTH else 0)"
    using assms(1) by (cases "callee_address v") (auto simp: loggable_def len_simps)
  then show ?thesis
    using assms(2) by (simp add: prefix_text_def LINE_PREFIX_EXTRA_def DURATION_SPLICE_def width_defs)
qed

lemma call_line_layout:
  assumes "loggable cfg v" "length now = PRETTY_TIME_LENGTH"
    and "tree_glyph_offset depth (LINE_PREFIX_EXTRA cfg) + 3 < FORMAT_BUF_SIZE"
  obtains rest where "call_line cfg v now depth =
      prefix_text now (DURATION_SPLICE cfg) (callee_address v) @ glyph_text depth @ rest"
    "rest \<noteq> []" "last rest = newline"
proof -
  let ?v = "v\<lparr>timestamp := now\<rparr>"
  obtain site where site: "call_site_text ?v = Some site"
    using assms(1) by (auto simp: loggable_def call_site_text_def)
  note lp = length_prefix [OF assms(1,2)]
  have "fst (call_line_start FORMAT_BUF_SIZE ?v depth (DURATION_SPLICE cfg)) =
      prefix_text (timestamp ?v) (DURATION_SPLICE cfg) (callee_address ?v) @ glyph_text depth"
    using assms(3) lp by (intro call_line_start_fits [OF capacity_ok_buf]) (auto simp: tree_glyph_offset_def width_defs)
  moreover obtain extra where "put_clamped site (call_line_start FORMAT_BUF_SIZE ?v depth (DURATION_SPLICE cfg)) =
      fst (call_line_start FORMAT_BUF_SIZE ?v depth (DURATION_SPLICE cfg)) @ extra"
    using put_clamped_prefix [OF call_line_start_ok [OF capacity_ok_buf]] by blast
  ultimately have "call_line cfg v now depth =
      prefix_text now (DURATION_SPLICE cfg) (callee_address v) @ glyph_text depth @ extra @ [newline]"
    by (simp add: call_line_def format_into_start [OF capacity_ok_buf] site)
  then show thesis by (rule that) simp_all
qed

text \<open>A record located at the start of a line just written has its fields in it.\<close>

lemma written_line_open:
  assumes "loggable cfg v" "length now = PRETTY_TIME_LENGTH"
    and "tree_glyph_offset (line_depth r) (LINE_PREFIX_EXTRA cfg) + 3 < FORMAT_BUF_SIZE"
    and "line_start r = int (length f)"
  shows "open_line cfg (f @ call_line cfg v now (line_depth r)) r"
    and "\<forall>i \<in> patch_positions cfg r. length f \<le> i"
proof -
  obtain rest where line: "call_line cfg v now (line_depth r) =
      prefix_text now (DURATION_SPLICE cfg) (callee_address v) @ glyph_text (line_depth r) @ rest"
    "rest \<noteq> []"
    using call_line_layout [OF assms(1,2,3)] by metis
  let ?p = "prefix_text now (DURATION_SPLICE cfg) (callee_address v)"
  let ?L = "call_line cfg v now (line_depth r)"
  note lp = length_prefix [OF assms(1,2)]
  have elapsed: "take DURATION_FIELD_WIDTH (drop PLACEHOLDER_OFFSET_IN_LINE ?L) = DURATION_PLACEHOLDER"
    "PLACEHOLDER_OFFSET_IN_LINE + DURATION_FIELD_WIDTH \<le> length ?L" if "log_elapsed cfg"
  proof -
    have l: "?L = (''['' @ now @ ''] '') @ DURATION_PLACEHOLDER @
        ('' '' @ address_text (callee_address v) @ glyph_text (line_depth r) @ rest)"
      using that
      by (simp add: line prefix_text_def DURATION_SPLICE_def DURATION_PLACEHOLDER_def)
    have w: "length (''['' @ now @ ''] '') = PLACEHOLDER_OFFSET_IN_LINE"
      "length DURATION_PLACEHOLDER = DURATION_FIELD_WIDTH"
      using assms(2) by (simp_all add: width_defs DURATION_PLACEHOLDER_def)
    show "take DURATION_FIELD_WIDTH (drop PLACEHOLDER_OFFSET_IN_LINE ?L) = DURATION_PLACEHOLDER"
      unfolding l by (rule field_at(1) [OF w])
    show "PLACEHOLDER_OFFSET_IN_LINE + DURATION_FIELD_WIDTH \<le> length ?L"
      unfolding l by (rule field_at(2) [OF w])
  qed
  have glyph: "?L ! tree_glyph_offset (line_depth r) (LINE_PREFIX_EXTRA cfg) = CHR ''|''"
    "tree_glyph_offset (line_depth r) (LINE_PREFIX_EXTRA cfg) < length ?L" if "1 \<le> line_depth r"
  proof -
    have o: "tree_glyph_offset (line_depth r) (LINE_PREFIX_EXTRA cfg) =
        length (?p @ tree_text (line_depth r))"
      by (simp add: lp len_simps tree_glyph_offset_def width_defs)
    have "?L = (?p @ tree_text (line_depth r)) @ CHR ''|'' # ''_ '' @ rest"
      using that by (simp add: line glyph_text_def)
    then show "?L ! tree_glyph_offset (line_depth r) (LINE_PREFIX_EXTRA cfg) = CHR ''|''"
      "tree_glyph_offset (line_depth r) (LINE_PREFIX_EXTRA cfg) < length ?L"
      unfolding o by (simp_all only: nth_append_length) simp
  qed
  show "\<forall>i \<in> patch_positions cfg r. length f \<le> i"
    using assms(4) by (auto simp: patch_positions_def)
  have "inside_file cfg r (f @ ?L)"
    using elapsed(2) glyph(2) assms(4) by (auto simp: inside_file_def patch_positions_def)
  then show "open_line cfg (f @ ?L) r"
    using elapsed(1) glyph(1) assms(4) by (simp add: open_line_def nth_append)
qed

lemma lines_ok_push:
  assumes "lines_ok cfg t" "frames t' = frames t @ [r]" "file_bytes t' = file_bytes t @ extra"
    and "open_line cfg (file_bytes t') r"
    and "\<forall>i \<in> patch_positions cfg r. length (file_bytes t) \<le> i"
  shows "lines_ok cfg t'"
proof -
  have "open_line cfg (file_bytes t') r'" if "r' \<in> set (frames t)" for r'
  proof (rule open_line_cong [of cfg "file_bytes t"])
    show o: "open_line cfg (file_bytes t) r'" using assms(1) that by (simp add: lines_ok_def)
    fix i assume "i \<in> patch_positions cfg r'"
    then show "file_bytes t' ! i = file_bytes t ! i"
      using open_line_inside [OF o] assms(3) by (auto simp: inside_file_def nth_append)
  qed (simp add: assms(3))
  moreover have "patch_positions cfg r' \<inter> patch_positions cfg r = {}" if "r' \<in> set (frames t)" for r'
  proof -
    have "inside_file cfg r' (file_bytes t)"
      using assms(1) that open_line_inside by (auto simp: lines_ok_def)
    then show ?thesis using assms(5) by (fastforce simp: inside_file_def)
  qed
  ultimately show ?thesis using assms(1,2,4) by (simp add: lines_ok_def sorted_wrt_append)
qed

lemma unlocated_open [simp]: "line_start r < 0 \<Longrightarrow> open_line cfg f r"
  "line_start r < 0 \<Longrightarrow> patch_positions cfg r = {}"
  by (simp_all add: open_line_def patch_positions_def)

lemma file_ok_push_unlogged:
  assumes "file_ok cfg t"
  shows "file_ok cfg (push_record cfg inp key False None 0 t)"
proof -
  let ?r = "new_record cfg inp key False None 0 t"
  have r: "line_start ?r < 0" by (simp add: new_record_def Let_def)
  have "lines_ok cfg (push_record cfg inp key False None 0 t)"
  proof (rule lines_ok_push)
    show "lines_ok cfg t" using assms by (simp add: file_ok_def)
    show "frames (push_record cfg inp key False None 0 t) = frames t @ [?r]"
      "file_bytes (push_record cfg inp key False None 0 t) = file_bytes t @ []"
      by (simp_all add: push_record_def)
    show "open_line cfg (file_bytes (push_record cfg inp key False None 0 t)) ?r"
      "\<forall>i \<in> patch_positions cfg ?r. length (file_bytes t) \<le> i"
      using r by simp_all
  qed
  with assms show ?thesis by (simp add: file_ok_def cursor_ok_def push_record_def)
qed

lemma file_ok_push_logged:
  assumes "file_ok cfg t" "timed_hook cfg inp" "tree_fits cfg t" "trace_fp t" "loggable cfg v"
  shows "file_ok cfg (push_record cfg inp key True base (cursor t) (log_call cfg inp v t))"
proof -
  obtain now tc where time: "pretty_time_into (io_render (hi_open inp)) (thread_time t)
      PRETTY_TIME_BUF_SIZE (hi_clock inp) = (now, tc)" by fastforce
  have render: "\<forall>s. length (io_render (hi_open inp) s) = 19" "0 \<le> hi_clock inp"
    using assms(2) by (simp_all add: timed_hook_def timed_io_def)
  have shape: "time_shape (thread_time t)" using assms(1) by (simp add: file_ok_def)
  have now: "time_shape tc" "length now = PRETTY_TIME_LENGTH"
    using time_shape_step [OF shape render(1) time] render(2) by simp_all
  let ?d = "current_stack_depth t + 1"
  let ?line = "call_line cfg v now ?d"
  let ?t2 = "log_call cfg inp v t"
  have t2: "?t2 = write_line cfg (hi_write inp) ?line
      (t\<lparr>thread_time := tc, current_stack_depth := ?d\<rparr>)"
    by (simp add: log_call_def time Let_def)
  let ?r = "new_record cfg inp key True base (cursor t) ?t2"
  have d2: "current_stack_depth ?t2 = ?d" by simp
  have grown: "file_bytes ?t2 = file_bytes t @
      (case hi_write inp of Wrote_line \<Rightarrow> ?line | Wrote_short bytes \<Rightarrow> bytes)"
    by (simp add: t2 write_line_def split: write_result.split)
  have "open_line cfg (file_bytes ?t2) ?r \<and> (\<forall>i \<in> patch_positions cfg ?r. length (file_bytes t) \<le> i)"
  proof (cases "line_patching cfg \<and> cursor_valid ?t2")
    case False
    then have "line_start ?r = - 1" by (auto simp: new_record_def Let_def)
    then show ?thesis by simp
  next
    case True
    then have w: "hi_write inp = Wrote_line" and cv: "cursor_valid t"
      by (auto simp: t2 write_line_def split: write_result.splits)
    have c: "cursor t = int (length (file_bytes t))"
      using assms(1,4) True cv by (simp add: file_ok_def cursor_ok_def)
    have r: "line_start ?r = int (length (file_bytes t))" "line_depth ?r = ?d"
      using True c d2 by (simp_all add: new_record_def Let_def)
    have fits: "tree_glyph_offset (line_depth ?r) (LINE_PREFIX_EXTRA cfg) + 3 < FORMAT_BUF_SIZE"
      using assms(3) by (simp add: r tree_fits_def)
    have "file_bytes ?t2 = file_bytes t @ call_line cfg v now (line_depth ?r)"
      using grown w r(2) by simp
    then show ?thesis
      using written_line_open [OF assms(5) now(2) fits r(1)] by simp
  qed
  then have located: "open_line cfg (file_bytes ?t2) ?r"
    "\<forall>i \<in> patch_positions cfg ?r. length (file_bytes t) \<le> i" by blast+
  have "lines_ok cfg (push_record cfg inp key True base (cursor t) ?t2)"
  proof (rule lines_ok_push)
    show "lines_ok cfg t" using assms(1) by (simp add: file_ok_def)
    show "frames (push_record cfg inp key True base (cursor t) ?t2) = frames t @ [?r]"
      by (simp add: push_record_def)
    show "file_bytes (push_record cfg inp key True base (cursor t) ?t2) = file_bytes t @
        (case hi_write inp of Wrote_line \<Rightarrow> ?line | Wrote_short bytes \<Rightarrow> bytes)"
      using grown by (simp add: push_record_def)
    show "open_line cfg (file_bytes (push_record cfg inp key True base (cursor t) ?t2)) ?r"
      using located(1) by (simp add: push_record_def)
  qed (rule located(2))
  moreover have "cursor_ok cfg ?t2 \<and> time_shape (thread_time ?t2)"
    using assms(1,4) now(1)
    by (auto simp: t2 write_line_def file_ok_def cursor_ok_def split: write_result.split)
  moreover have "trace_fp ?t2 \<longrightarrow> open_attempted ?t2" using assms(1) by (simp add: file_ok_def)
  ultimately show ?thesis by (simp add: file_ok_def cursor_ok_def push_record_def)
qed

interpretation patches: step_invariant cfg timed_io "timed_hook cfg" "tree_fits cfg"
    "\<lambda>g t. file_ok cfg t" for cfg
proof unfold_locales
  fix g t t' assume "file_ok cfg t" "same_file t t'"
  then show "file_ok cfg t'" by (simp add: file_ok_def lines_ok_def cursor_ok_def same_file_def)
next
  fix g t t' assume "file_ok cfg t" "pops cfg t t'"
  then show "file_ok cfg t'" by (rule file_ok_popped)
next
  fix g t io threw fp g' t'
  assume "file_ok cfg t" "timed_io io" "get_thread_fp cfg io g t = (threw, fp, g', t')"
  then show "file_ok cfg t'" by (rule file_ok_get_fp)
next
  fix g t io now tx tc result line
  assume "file_ok cfg t" "timed_io io" "writable g t"
    "pretty_time_into (io_render io) (thread_time t) PRETTY_TIME_BUF_SIZE now = (tx, tc)"
  then show "file_ok cfg (write_line cfg result line (t\<lparr>thread_time := tc\<rparr>))"
    using time_shape_step(1) [of "thread_time t" "io_render io" now tx tc]
    by (intro file_ok_write) (simp_all add: file_ok_def timed_io_def writable_def)
next
  fix g t inp key base v
  assume "file_ok cfg t" "timed_hook cfg inp" "tree_fits cfg t" "writable g t" "resolved_by inp v"
  then show "file_ok cfg (push_record cfg inp key True base (cursor t) (log_call cfg inp v t))"
    using resolved_loggable [of inp v cfg]
    by (intro file_ok_push_logged) (simp_all add: timed_hook_def writable_def)
next
  fix g t inp key assume "file_ok cfg t"
  then show "file_ok cfg (push_record cfg inp key False None 0 t)" by (rule file_ok_push_unlogged)
next
  fix inp assume "timed_hook cfg inp"
  then show "timed_io (hi_open inp)" by (simp add: timed_hook_def)
next
  fix t t' :: thread_state assume "tree_fits cfg t" "current_stack_depth t' \<le> current_stack_depth t"
  then show "tree_fits cfg t'" by (rule tree_fits_down)
qed

end
