(* ===== verification/FrameExit.thy ===== *)
theory FrameExit
  imports FrameReconcile
begin

text \<open>
  Which record \<open>exiting_record_index\<close> takes for a frame that exits
  (\<open>include/frameReconcile.h\<close>): its own one when the records with its callee and caller form one
  run above it, for a normally called and for a tail-called exit hook, and a history of mutual
  recursion, where they do not, in which it takes another frame's.
\<close>

section \<open>The searches\<close>

lemma topmost_same_site_bound: "topmost_same_site records key i = Some j \<Longrightarrow> j \<le> i"
  by (induction i) (auto split: if_splits)

lemma identical_level_bound: "identical_level records key i best \<le> max i best"
  by (induction i) (auto simp: le_max_iff_disj split: if_splits)

lemma closest_below_bound: "closest_below records key i best f \<le> max i best"
proof (induction i arbitrary: best f)
  case (Suc i)
  show ?case
    using Suc [of "Suc i" True] Suc [of best f] by (auto simp: max_def split: if_splits)
qed simp

lemma exiting_index_bound: "records \<noteq> [] \<Longrightarrow> exiting_record_index records key tail b < length records"
proof -
  assume ne: "records \<noteq> []"
  have "closest_below records key j j False \<le> length records - 1 \<and>
      identical_level records key j j \<le> length records - 1"
    if "topmost_same_site records key (length records - 1) = Some j" for j
    using topmost_same_site_bound [OF that] closest_below_bound [of records key j j False]
      identical_level_bound [of records key j j] by auto
  then have "exiting_record_index records key tail b \<le> length records - 1"
    by (auto simp: exiting_record_index_def Let_def split: option.splits)
  also have "\<dots> < length records" using ne by (cases records) auto
  finally show ?thesis .
qed

lemma topmost_same_site_at:
  "same_activation_site (records ! j) key \<Longrightarrow> j \<le> i \<Longrightarrow>
   (\<And>k. j < k \<Longrightarrow> k \<le> i \<Longrightarrow> \<not> same_activation_site (records ! k) key) \<Longrightarrow>
   topmost_same_site records key i = Some j"
  by (induction i) (auto simp: le_Suc_eq)

text \<open>The run of a frame: index \<open>j\<close> is its own record, \<open>first\<close> the topmost of its call site.\<close>

definition own_run :: "'a act_record_scheme list \<Rightarrow> frame_key \<Rightarrow> nat \<Rightarrow> nat \<Rightarrow> bool" where
  "own_run records key j first \<longleftrightarrow>
     j \<le> first \<and> first < length records \<and>
     (\<forall>k. j \<le> k \<and> k \<le> first \<longrightarrow> same_activation_site (records ! k) key) \<and>
     (\<forall>k. first < k \<and> k < length records \<longrightarrow> \<not> same_activation_site (records ! k) key)"

lemma own_run_first:
  "own_run records key j first \<Longrightarrow> topmost_same_site records key (length records - 1) = Some first"
  by (intro topmost_same_site_at) (auto simp: own_run_def)

lemma identical_level_run:
  "j \<le> i \<Longrightarrow> (\<And>k. j \<le> k \<Longrightarrow> k \<le> i \<Longrightarrow> same_activation_site (records ! k) key) \<Longrightarrow>
   rec_level (records ! j) = key_level key \<Longrightarrow>
   (\<And>k. j < k \<Longrightarrow> k \<le> i \<Longrightarrow> rec_level (records ! k) \<noteq> key_level key) \<Longrightarrow>
   identical_level records key i best = j"
proof (induction i)
  case (Suc i)
  then show ?case by (cases "j = Suc i") (auto simp: le_Suc_eq)
qed simp

lemma closest_below_rest:
  "(\<And>k. k \<le> i \<Longrightarrow> same_activation_site (records ! k) key \<Longrightarrow> key_level key \<le> rec_level (records ! k)) \<Longrightarrow>
   closest_below records key i best f = best"
proof (induction i)
  case (Suc i)
  have "\<not> closer_below records key (Suc i) best f" if "same_activation_site (records ! Suc i) key"
    using Suc.prems [of "Suc i"] that by (auto simp: closer_below_def)
  with Suc show ?case by simp
next
  case 0
  then show ?case by (auto simp: closer_below_def)
qed

lemma closest_below_run:
  assumes "rec_level (records ! j) < key_level key"
    and "\<And>k. k < j \<Longrightarrow> same_activation_site (records ! k) key \<Longrightarrow> key_level key \<le> rec_level (records ! k)"
  shows "j \<le> i \<Longrightarrow> (\<And>k. j \<le> k \<Longrightarrow> k \<le> i \<Longrightarrow> same_activation_site (records ! k) key) \<Longrightarrow>
   (\<And>k. j < k \<Longrightarrow> k \<le> i \<Longrightarrow> rec_level (records ! k) < rec_level (records ! j)) \<Longrightarrow>
   (f \<Longrightarrow> rec_level (records ! best) < rec_level (records ! j)) \<Longrightarrow>
   closest_below records key i best f = j"
proof (induction i arbitrary: best f)
  case 0
  then show ?case using assms(1) by (auto simp: closer_below_def)
next
  case (Suc i)
  show ?case
  proof (cases "j = Suc i")
    case True
    have "closest_below records key i (Suc i) True = Suc i"
      using assms(2) True by (intro closest_below_rest) auto
    then show ?thesis using Suc.prems True assms(1) by (auto simp: closer_below_def)
  next
    case False
    then have "closest_below records key i (Suc i) True = j" "closest_below records key i best f = j"
      using Suc.prems by (auto intro!: Suc.IH)
    then show ?thesis using Suc.prems False by auto
  qed
qed

text \<open>A stack cut at the frame's own record, the run above it and the records above the run.\<close>

lemma own_run_split:
  assumes "\<forall>r \<in> set (own # run). same_activation_site r key"
    and "\<forall>r \<in> set others. \<not> same_activation_site r key"
  shows "own_run (outer @ own # run @ others) key (length outer) (length outer + length run)"
  using assms by (auto simp: own_run_def nth_append nth_Cons split: nat.splits)

lemma nth_in_run:
  "length outer < k \<Longrightarrow> k \<le> length outer + length run \<Longrightarrow>
   (outer @ own # run @ others) ! k \<in> set run"
  by (auto simp: nth_append nth_Cons split: nat.splits)

section \<open>Properties\<close>

text \<open>
  C19. A normally called exit hook finds the frame's own record: when the records above it with its
  callee and caller form one run (recursion through one call site), none of them has the frame's
  level, and both that level and the top record's lie on the thread's own stack, the index found is
  the own record's.
\<close>

theorem exit_finds_own_record:
  assumes "records = outer @ own # run @ others"
    and "\<forall>r \<in> set (own # run). same_activation_site r key"
    and "\<forall>r \<in> set others. \<not> same_activation_site r key"
    and "rec_level own = key_level key" "\<forall>r \<in> set run. rec_level r \<noteq> key_level key"
    and "on_thread_stack bounds (key_level key)"
    and "on_thread_stack bounds (rec_level (last records))"
  shows "exiting_record_index records key False bounds = length outer"
proof -
  let ?first = "length outer + length run"
  have run: "own_run records key (length outer) ?first"
    unfolding assms(1) by (rule own_run_split [OF assms(2,3)])
  have "identical_level records key ?first ?first = length outer"
    using run assms(4,5) nth_in_run [of outer _ run own others]
    by (intro identical_level_run) (auto simp: own_run_def assms(1))
  then show ?thesis
    using assms(1,6,7) own_run_first [OF run]
    by (simp add: exiting_record_index_def last_conv_nth)
qed

text \<open>Recursion through call site 20: three activations, the two above the outermost skipped.\<close>

definition recursion_records :: "act_record list" where
  "recursion_records = [rec3 1 10 900, rec3 2 20 800, rec3 2 20 700, rec3 2 20 600]"

theorem exit_finds_own_record_witness:
  "exiting_record_index recursion_records
     \<lparr>key_callee = 2, key_caller = 20, key_level = 800\<rparr> False unknown_bounds = 1"
  using exit_finds_own_record [of recursion_records "[rec3 1 10 900]" "rec3 2 20 800"
      "[rec3 2 20 700, rec3 2 20 600]" "[]" "\<lparr>key_callee = 2, key_caller = 20, key_level = 800\<rparr>"
      unknown_bounds]
  by (simp add: recursion_records_def rec3_def on_thread_stack_def unknown_bounds_def
      same_activation_site_def)

text \<open>
  A tail-called exit hook, whose level is the caller's, finds the frame's own record too: it is
  the closest one below that level, dead deeper levels lying further below and live outer
  activations of the same call site at or above it.
\<close>

theorem exit_finds_own_record_tail_called:
  assumes "records = outer @ own # run @ others"
    and "\<forall>r \<in> set (own # run). same_activation_site r key"
    and "\<forall>r \<in> set others. \<not> same_activation_site r key"
    and "rec_level own < key_level key" "\<forall>r \<in> set run. rec_level r < rec_level own"
    and "\<forall>r \<in> set outer. same_activation_site r key \<longrightarrow> key_level key \<le> rec_level r"
    and "on_thread_stack bounds (key_level key)"
    and "on_thread_stack bounds (rec_level (last records))"
  shows "exiting_record_index records key True bounds = length outer"
proof -
  let ?first = "length outer + length run"
  have run: "own_run records key (length outer) ?first"
    unfolding assms(1) by (rule own_run_split [OF assms(2,3)])
  have "closest_below records key ?first ?first False = length outer"
    using run assms(4,5,6) nth_in_run [of outer _ run own others]
    by (intro closest_below_run) (auto simp: own_run_def assms(1) nth_append)
  then show ?thesis
    using assms(1,7,8) own_run_first [OF run]
    by (simp add: exiting_record_index_def last_conv_nth)
qed

theorem exit_finds_own_record_tail_called_witness:
  "exiting_record_index recursion_records
     \<lparr>key_callee = 2, key_caller = 20, key_level = 800\<rparr> True unknown_bounds = 2"
  using exit_finds_own_record_tail_called [of recursion_records "[rec3 1 10 900, rec3 2 20 800]"
      "rec3 2 20 700" "[rec3 2 20 600]" "[]" "\<lparr>key_callee = 2, key_caller = 20, key_level = 800\<rparr>"
      unknown_bounds]
  by (simp add: recursion_records_def rec3_def on_thread_stack_def unknown_bounds_def
      same_activation_site_def)

definition mutual_recursion_records :: "act_record list" where
  "mutual_recursion_records =
     [rec3 1 10 900, rec3 2 20 800, rec3 1 30 600, rec3 2 20 500, rec3 1 30 400]"

text \<open>
  Mutual recursion defeats the search: functions 1 and 2 call each other, a non-local jump leaves
  the two innermost frames for the frame of level 600, and that frame exits normally. Its own
  record is at index 2, with its callee, its caller and its exact level, yet the index found is 4:
  a dead frame's record is taken for it and the dead one between them stays.
\<close>

theorem exit_mistaken_in_mutual_recursion:
  "let records = mutual_recursion_records;
       key = \<lparr>key_callee = 1, key_caller = 30, key_level = 600\<rparr>
   in levels_sorted records \<and> all_on_stack unknown_bounds records \<and>
      same_activation_site (records ! 2) key \<and> rec_level (records ! 2) = key_level key \<and>
      exiting_record_index records key False unknown_bounds = 4"
proof -
  have "exiting_record_index mutual_recursion_records
      \<lparr>key_callee = 1, key_caller = 30, key_level = 600\<rparr> False unknown_bounds = 4"
    by code_simp
  then show ?thesis
    by (simp add: Let_def mutual_recursion_records_def rec3_def levels_sorted_def all_on_stack_def
        on_thread_stack_def unknown_bounds_def same_activation_site_def)
qed

text \<open>
  The search by name pops only records that share the level, sit above the topmost record with the
  name and do not carry it; it pops all of those, and nothing when no record of the level at the
  top has the name.
\<close>

theorem above_match_pops_exactly:
  assumes "records = below @ [found] @ popped"
    and "\<forall>r \<in> set popped. rec_level r = level \<and> \<not> matches r"
    and "rec_level found = level" "matches found"
  shows "dead_records_above_match records level matches = length popped \<and>
         (\<forall>any. (\<forall>r \<in> set (level_group any level). \<not> matches r) \<longrightarrow>
            dead_records_above_match any level matches = 0)"
proof
  have up: "takeWhile (\<lambda>r. rec_level r = level) (rev popped @ found # rev below) =
      rev popped @ found # takeWhile (\<lambda>r. rec_level r = level) (rev below)"
    using assms(2,3) by (subst takeWhile_append2) auto
  then have group: "level_group records level =
      rev popped @ found # takeWhile (\<lambda>r. rec_level r = level) (rev below)"
    by (simp add: assms(1) level_group_def)
  then have "takeWhile (\<lambda>r. \<not> matches r) (level_group records level) = rev popped"
    using assms(2,4) by (simp only:) (subst takeWhile_append2, auto)
  then show "dead_records_above_match records level matches = length popped"
    using group assms(4) by (auto simp: dead_records_above_match_reference)
qed (auto simp: dead_records_above_match_reference)

theorem above_match_pops_exactly_witness:
  "dead_records_above_match [rec3 1 10 800, rec3 2 10 800, rec3 3 10 800] 800
     (\<lambda>r. rec_callee r = 1) = 2"
  using above_match_pops_exactly [of "[rec3 1 10 800, rec3 2 10 800, rec3 3 10 800]" "[]"
      "rec3 1 10 800" "[rec3 2 10 800, rec3 3 10 800]" 800 "\<lambda>r. rec_callee r = 1"]
  by (simp add: rec3_def)

end
