(* ===== verification/ResolverCaches.thy ===== *)
theory ResolverCaches
  imports Resolver
begin

text \<open>
  Correctness of the resolver's memory. The interface \<open>shared_cache\<close> states what a two-phase lookup
  relies on: a map that only grows, whoever adds to it. Its lemmas are proved once and interpreted on
  the resolver's maps. The properties: answers are permanent and the same on every thread, every
  lookup only adds to the shared state, the loader is never called with the mutex held, and a
  captured stack is complete as far as an \<open>int\<close> can count its frames.
\<close>

section \<open>Caches that only grow\<close>

locale shared_cache =
  fixes get :: "'c \<Rightarrow> addr \<Rightarrow> 'v option"
    and put :: "'c \<Rightarrow> addr \<Rightarrow> 'v \<Rightarrow> 'c"
    and grow :: "'c \<Rightarrow> 'c \<Rightarrow> bool"
  assumes get_put: "get (put c k v) k = Some v"
    and put_grow: "get c k = None \<Longrightarrow> grow c (put c k v)"
    and grow_get: "grow c c' \<Longrightarrow> get c k = Some v \<Longrightarrow> get c' k = Some v"
    and grow_refl: "grow c c"
    and grow_trans: "grow c c' \<Longrightarrow> grow c' c'' \<Longrightarrow> grow c c''"
begin

lemma two_phase_settled:
  "get c k = Some v \<Longrightarrow> two_phase get put ask compute interfere c k = (v, c, [Acquire, Release])"
  by (simp add: two_phase_def log_defs)

lemma two_phase_settles:
  assumes "\<And>c. grow c (interfere c)"
    and "\<And>i c. grow c (snd (compute i c))"
    and "\<And>i c. get (snd (compute i c)) k = get c k"
  shows "get (fst (snd (two_phase get put ask compute interfere c k))) k =
           Some (fst (two_phase get put ask compute interfere c k))"
    and "grow c (fst (snd (two_phase get put ask compute interfere c k)))"
proof -
  show "get (fst (snd (two_phase get put ask compute interfere c k))) k =
           Some (fst (two_phase get put ask compute interfere c k))"
    by (simp add: two_phase_def Let_def case_prod_beta get_put split: option.split)
  show "grow c (fst (snd (two_phase get put ask compute interfere c k)))"
  proof -
    let ?c1 = "interfere c"
    let ?c2 = "snd (compute (fst (ask k [Acquire, Release])) ?c1)"
    have "grow c ?c2" by (rule grow_trans [OF assms(1,2)])
    moreover have "grow ?c2 (put ?c2 k v)" if "get ?c1 k = None" for v
      using that assms(3) by (intro put_grow) simp
    ultimately have "grow c (put ?c2 k v)" if "get ?c1 k = None" for v
      using that by (blast intro: grow_trans)
    with assms(1) show ?thesis
      by (auto simp: two_phase_def log_defs Let_def case_prod_beta grow_refl split: option.split)
  qed
qed

lemma settled_answer_permanent:
  assumes "get c k = Some v" "grow c c'"
  shows "fst (two_phase get put ask compute interfere c' k) = v"
  using grow_get [OF assms(2,1)] by (simp add: two_phase_def)

end

definition caches_grow :: "caches \<Rightarrow> caches \<Rightarrow> bool" where
  "caches_grow c c' \<longleftrightarrow>
     files_grow (cached_files c) (cached_files c') \<and>
     name_cache c \<subseteq>\<^sub>m name_cache c' \<and> frame_name_cache c \<subseteq>\<^sub>m frame_name_cache c' \<and>
     location_cache c \<subseteq>\<^sub>m location_cache c' \<and> inline_chain_cache c \<subseteq>\<^sub>m inline_chain_cache c'"

lemma caches_grow_refl [simp, intro]: "caches_grow c c"
  by (simp add: caches_grow_def)

lemma caches_grow_trans: "caches_grow a b \<Longrightarrow> caches_grow b c \<Longrightarrow> caches_grow a c"
  by (auto simp: caches_grow_def intro: files_grow_trans map_le_trans)

lemma caches_grow_files [simp]:
  "files_grow (cached_files c) fs \<Longrightarrow> caches_grow c (c\<lparr>cached_files := fs\<rparr>)"
  by (simp add: caches_grow_def)

interpretation locations: shared_cache location_cache put_location caches_grow
  by unfold_locales
    (auto simp: put_location_def caches_grow_def map_le_def dom_def intro: files_grow_trans)

interpretation chains: shared_cache inline_chain_cache put_chain caches_grow
  by unfold_locales
    (auto simp: put_chain_def caches_grow_def map_le_def dom_def intro: files_grow_trans)

interpretation names: shared_cache "names_of n" "\<lambda>c k v. add_name n k v c" caches_grow for n
  by unfold_locales
    (auto simp: names_of_def add_name_def caches_grow_def map_le_def dom_def
      intro: files_grow_trans split: if_splits)

section \<open>What a lookup leaves behind\<close>

text \<open>A thread's front caches hold only what the shared maps hold.\<close>

definition fronts_ok :: "caches \<Rightarrow> fronts \<Rightarrow> bool" where
  "fronts_ok c f \<longleftrightarrow>
     front_valid (t_name_front f) \<and> front_valid (t_location_front f) \<and>
     cache_agrees front_find (\<lambda>_. True) (t_name_front f) (name_cache c) \<and>
     cache_agrees front_find (\<lambda>_. True) (t_location_front f) (location_cache c)"

lemma fronts_ok_empty: "fronts_ok c empty_fronts"
  by (simp add: fronts_ok_def empty_fronts_def front_valid_zero fc.agrees_empty)

lemma fronts_ok_mono: "fronts_ok c f \<Longrightarrow> caches_grow c c' \<Longrightarrow> fronts_ok c' f"
  by (auto simp: fronts_ok_def caches_grow_def intro: fc.agrees_mono)

lemma remember_name_ok:
  "fronts_ok c f \<Longrightarrow> names_of n c k = Some x \<Longrightarrow> fronts_ok c (remember_name n k x f)"
  by (auto simp: fronts_ok_def remember_name_def names_of_def intro!: fc.agrees_store)

lemma remember_location_ok:
  "fronts_ok c f \<Longrightarrow> location_cache c k = Some x \<Longrightarrow> fronts_ok c (remember_location n k x f)"
  by (auto simp: fronts_ok_def remember_location_def intro!: fc.agrees_store)

text \<open>The answer the shared maps determine, when they determine one.\<close>

definition settled_answer ::
    "name_of \<Rightarrow> world \<Rightarrow> caches \<Rightarrow> addr \<Rightarrow> addr \<Rightarrow> resolved_frame_view
       \<Rightarrow> resolved_frame_view option option" where
  "settled_answer n w c callee caller out =
     (case names_of n c callee of
        None \<Rightarrow> None
      | Some x \<Rightarrow>
          if filtered x then Some None
          else (case location_cache c caller of
                  None \<Rightarrow> None
                | Some l \<Rightarrow> Some (Some (fill_view w callee x l out))))"

lemma settled_mono:
  assumes "settled_answer n w c callee caller out = Some r" "caches_grow c c'"
    and "log_addr_on w' = log_addr_on w"
  shows "settled_answer n w' c' callee caller out = Some r"
proof -
  have fill: "fill_view w' callee x l out = fill_view w callee x l out" for x l
    by (simp add: fill_view_def assms(3))
  obtain x where x: "names_of n c callee = Some x"
    using assms(1) by (auto simp: settled_answer_def split: option.splits)
  then have x': "names_of n c' callee = Some x" by (rule names.grow_get [OF assms(2)])
  show ?thesis
  proof (cases "filtered x")
    case True
    with x x' assms(1) show ?thesis by (simp add: settled_answer_def)
  next
    case False
    then obtain l where l: "location_cache c caller = Some l"
      using assms(1) x by (auto simp: settled_answer_def split: option.splits)
    then have "location_cache c' caller = Some l" by (rule locations.grow_get [OF assms(2)])
    with x x' l False assms(1) show ?thesis by (simp add: settled_answer_def fill)
  qed
qed

lemma find_front_ok:
  assumes "fronts_ok c f"
  shows "fst (find_front n f callee caller) = Some x \<Longrightarrow> names_of n c callee = Some x"
    and "snd (find_front n f callee caller) = Some l \<Longrightarrow> location_cache c caller = Some l"
  using assms
  by (auto simp: find_front_def fronts_ok_def cache_agrees_def names_of_def split: if_splits)

lemma find_shared_name_ok:
  assumes "fronts_ok c f" "\<And>x. name = Some x \<Longrightarrow> names_of n c callee = Some x"
  shows "fst (find_shared_name n c f callee name) = names_of n c callee"
    and "fronts_ok c (snd (find_shared_name n c f callee name))"
  using assms
  by (auto simp: find_shared_name_def split: option.split intro: remember_name_ok)

lemma find_shared_location_ok:
  assumes "fronts_ok c f" "\<And>x. location = Some x \<Longrightarrow> location_cache c caller = Some x"
  shows "fst (find_shared_location n c f caller location) = location_cache c caller"
    and "fronts_ok c (snd (find_shared_location n c f caller location))"
  using assms
  by (auto simp: find_shared_location_def split: option.split intro: remember_location_ok)

lemma emplace_name_ok:
  assumes "fronts_ok c f" "\<And>x. name = Some x \<Longrightarrow> names_of n c callee = Some x"
    and "emplace_name n w info c f callee name = (x, c', f')"
  shows "names_of n c' callee = Some x" "caches_grow c c'" "fronts_ok c' f'"
proof -
  have "names_of n c' callee = Some x \<and> caches_grow c c' \<and> fronts_ok c' f'"
  proof (cases "names_of n c callee")
    case (Some y)
    then show ?thesis
      using assms by (auto simp: emplace_name_def split: option.splits intro: remember_name_ok)
  next
    case None
    let ?r = "resolve_function_name w (cached_files c) callee info n"
    let ?c = "c\<lparr>cached_files := snd ?r\<rparr>"
    have name: "name = None" using None assms(2) by (cases name) auto
    have e: "x = cache_name (fst ?r)" "c' = add_name n callee x ?c"
      "f' = remember_name n callee x f"
      using assms(3) None name by (auto simp: emplace_name_def Let_def case_prod_beta)
    have "caches_grow c ?c" using resolve_function_name_grow by simp
    moreover have "names_of n ?c callee = None"
      using None by (auto simp: names_of_def split: if_splits)
    then have "caches_grow ?c c'" unfolding e(2) by (rule names.put_grow)
    ultimately have g: "caches_grow c c'" by (rule caches_grow_trans)
    moreover have "names_of n c' callee = Some x" unfolding e(2) by (rule names.get_put)
    moreover have "fronts_ok c' f'"
      unfolding e(3) using fronts_ok_mono [OF assms(1) g] calculation(2) by (rule remember_name_ok)
    ultimately show ?thesis by blast
  qed
  then show "names_of n c' callee = Some x" "caches_grow c c'" "fronts_ok c' f'" by blast+
qed

lemma emplace_location_ok:
  assumes "fronts_ok c f" "\<And>x. location = Some x \<Longrightarrow> location_cache c caller = Some x"
    and "emplace_location n w info c f caller location = (x, c', f')"
  shows "location_cache c' caller = Some x" "caches_grow c c'" "fronts_ok c' f'"
proof -
  have "location_cache c' caller = Some x \<and> caches_grow c c' \<and> fronts_ok c' f'"
  proof (cases "location_cache c caller")
    case (Some y)
    then show ?thesis
      using assms by (auto simp: emplace_location_def split: option.splits intro: remember_location_ok)
  next
    case None
    let ?r = "resolve_filename_and_line w (cached_files c) caller info"
    let ?c = "c\<lparr>cached_files := snd ?r\<rparr>"
    have location: "location = None" using None assms(2) by (cases location) auto
    have e: "x = fst ?r" "c' = put_location ?c caller x" "f' = remember_location n caller x f"
      using assms(3) None location
      by (auto simp: emplace_location_def Let_def case_prod_beta put_location_def)
    have "caches_grow c ?c" using resolve_filename_and_line_grow by simp
    moreover have "location_cache ?c caller = None" using None by simp
    then have "caches_grow ?c c'" unfolding e(2) by (rule locations.put_grow)
    ultimately have g: "caches_grow c c'" by (rule caches_grow_trans)
    moreover have "location_cache c' caller = Some x" unfolding e(2) by (rule locations.get_put)
    moreover have "fronts_ok c' f'"
      unfolding e(3) using fronts_ok_mono [OF assms(1) g] calculation(2) by (rule remember_location_ok)
    ultimately show ?thesis by blast
  qed
  then show "location_cache c' caller = Some x" "caches_grow c c'" "fronts_ok c' f'" by blast+
qed

text \<open>A lookup that the shared maps can answer is answered from them, without the loader.\<close>

lemma resolve_settled:
  assumes ok: "fronts_ok c f" and r: "settled_answer n w c callee caller out = Some r"
  shows "\<exists>f' acts. resolve_no_unwind n w interfere c f callee caller out = (r, c, f', acts) \<and>
           fronts_ok c f' \<and> acts \<in> {[], [Acquire, Release]}"
proof -
  obtain name location where ff: "find_front n f callee caller = (name, location)"
    by (cases "find_front n f callee caller")
  note front = find_front_ok [OF ok, of n callee caller, unfolded ff, simplified]
  obtain f1 where s1: "find_shared_name n c f callee name = (names_of n c callee, f1)" "fronts_ok c f1"
    using find_shared_name_ok [OF ok front(1)] by (metis prod.collapse)
  obtain f2 where s2: "find_shared_location n c f1 caller location = (location_cache c caller, f2)"
      "fronts_ok c f2"
    using find_shared_location_ok [OF s1(2) front(2)] by (metis prod.collapse)
  obtain x where x: "names_of n c callee = Some x"
    using r by (auto simp: settled_answer_def split: option.splits)
  show ?thesis
  proof (cases "filtered x")
    case True
    with r x have "r = None" by (simp add: settled_answer_def)
    with True x show ?thesis
      using ok s1 front
      by (cases name; cases location) (auto simp: resolve_no_unwind_def ff log_defs Let_def)
  next
    case False
    with r x obtain l where l: "location_cache c caller = Some l" "r = Some (fill_view w callee x l out)"
      by (auto simp: settled_answer_def split: option.splits)
    with False x show ?thesis
      using ok s1 s2 front
      by (cases name; cases location) (auto simp: resolve_no_unwind_def ff log_defs Let_def)
  qed
qed

text \<open>
  After any lookup the shared maps determine its answer, and they only grew.
\<close>

lemma resolve_settles:
  assumes ok: "fronts_ok c f" and rely: "\<And>c. caches_grow c (interfere c)"
    and res: "resolve_no_unwind n w interfere c f callee caller out = (r, c', f', acts)"
  shows "settled_answer n w c' callee caller out = Some r \<and> caches_grow c c' \<and> fronts_ok c' f'"
proof (cases "settled_answer n w c callee caller out")
  case (Some r')
  with resolve_settled [OF ok Some, of interfere] res show ?thesis by auto
next
  case None
  obtain name location where ff: "find_front n f callee caller = (name, location)"
    by (cases "find_front n f callee caller")
  note front = find_front_ok [OF ok, of n callee caller, unfolded ff, simplified]
  obtain f1 where s1: "find_shared_name n c f callee name = (names_of n c callee, f1)" "fronts_ok c f1"
    using find_shared_name_ok [OF ok front(1)] by (metis prod.collapse)
  obtain f2 where s2: "find_shared_location n c f1 caller location = (location_cache c caller, f2)"
      "fronts_ok c f2"
    using find_shared_location_ok [OF s1(2) front(2)] by (metis prod.collapse)
  let ?name = "names_of n c callee" and ?location = "location_cache c caller"
  have live: "\<not> filtered x" if "?name = Some x" for x
    using None that by (auto simp: settled_answer_def)
  have open_half: "?name = None \<or> ?location = None"
    using None by (auto simp: settled_answer_def split: option.splits if_splits)
  have g: "caches_grow c (interfere c)" by (rule rely)
  let ?callee = "fst (ask_missing w (?name = None) callee [])"
  let ?caller = "fst (ask_missing w (?location = None) caller [])"
  obtain x c1 f3 where e1: "emplace_name n w ?callee (interfere c) f2 callee ?name = (x, c1, f3)"
    by (metis prod_cases3)
  have kept: "names_of n (interfere c) callee = Some y" if "?name = Some y" for y
    using names.grow_get [OF g that] .
  note n1 = emplace_name_ok [OF fronts_ok_mono [OF s2(2) g] kept e1]
  have g1: "caches_grow c c1" by (rule caches_grow_trans [OF g n1(2)])
  obtain l c2 f4 where e2: "emplace_location n w ?caller c1 f3 caller ?location = (l, c2, f4)"
    by (metis prod_cases3)
  have kept': "location_cache c1 caller = Some y" if "?location = Some y" for y
    using locations.grow_get [OF g1 that] .
  note l1 = emplace_location_ok [OF n1(3) kept' e2]
  define acts' where "acts' = [Acquire, Release] @
      ((if ?name = None then [Query_loader callee] else []) @
       (if ?location = None then [Query_loader caller] else [])) @ [Acquire, Release]"
  have "resolve_no_unwind n w interfere c f callee caller out =
      (if ?name = None \<and> filtered x then (None, c1, f3, acts')
       else (Some (fill_view w callee x l out), c2, f4, acts'))"
    using open_half live front s1(1) s2(1) e1 e2
    by (cases name; cases location; cases ?name; cases ?location)
      (auto simp: resolve_no_unwind_def ff acts'_def ask_missing_def log_defs Let_def)
  moreover have "\<not> filtered x" if "?name = Some y" for y
    using live [OF that] that e1 by (simp add: emplace_name_def)
  moreover have "names_of n c2 callee = Some x" using names.grow_get [OF l1(2) n1(1)] .
  moreover have "caches_grow c c2" by (rule caches_grow_trans [OF g1 l1(2)])
  ultimately show ?thesis
    using res n1 g1 l1
    by (cases ?name) (auto simp: settled_answer_def split: if_splits)
qed

section \<open>The mutex and the loader\<close>

text \<open>
  The order of actions: a thread acquires the mutex when it does not hold it, asks the loader only
  when it does not hold it, and has released it in the end.
\<close>

fun lock_order :: "bool \<Rightarrow> lock_action list \<Rightarrow> bool" where
  "lock_order held [] = (\<not> held)"
| "lock_order held (Acquire # acts) = (\<not> held \<and> lock_order True acts)"
| "lock_order held (Release # acts) = (held \<and> lock_order False acts)"
| "lock_order held (Query_loader a # acts) = (\<not> held \<and> lock_order held acts)"

lemma two_phase_lock_order:
  "lock_order False (snd (snd (two_phase get put (ask_loader w) compute interfere c k)))"
  by (simp add: two_phase_def log_defs Let_def case_prod_beta split: option.split)

text \<open>
  What the resolver does with an object asks the loader nothing: its functions compute the same
  whatever the loader would answer. Only \<open>query_address\<close> reads its answers.
\<close>

abbreviation loader :: "(addr \<Rightarrow> (dl_info \<times> addr option) option) \<Rightarrow> world \<Rightarrow> world" where
  "loader answers w \<equiv> w\<lparr>dladdr1 := answers\<rparr>"

named_theorems loaderless

lemma fields_loaderless [loaderless]:
  "cmdline_file (loader d w) = cmdline_file w" "maps_file (loader d w) = maps_file w"
  "create_state (loader d w) = create_state w" "add_file (loader d w) = add_file w"
  "backtrace_pcinfo (loader d w) = backtrace_pcinfo w"
  "backtrace_syminfo (loader d w) = backtrace_syminfo w"
  "cxa_demangle (loader d w) = cxa_demangle w"
  "on_clang (loader d w) = on_clang w" "log_addr_on (loader d w) = log_addr_on w"
  by simp_all

lemma files_loaderless [loaderless]:
  "library_path (loader d w) info = library_path w info"
  "argv0 (loader d w) fs = argv0 w fs"
  "register_object (loader d w) fs base bias path = register_object w fs base bias path"
  unfolding library_path_def argv0_def get_argv0_def register_object_def loaderless by simp_all

lemma path_loaderless [loaderless]: "object_file_path (loader d w) fs info = object_file_path w fs info"
  unfolding object_file_path_def loaderless by simp

lemma loaded_loaderless [loaderless]:
  "ensure_object_loaded (loader d w) fs info bias = ensure_object_loaded w fs info bias"
  unfolding ensure_object_loaded_def loaderless by simp

lemma names_loaderless [loaderless]:
  "demangle_cxa (loader d w) = demangle_cxa w"
  "look_up (loader d w) object address = look_up w object address"
  unfolding demangle_cxa_def look_up_def dwarf_entries_def fun_eq_iff loaderless by simp_all

lemma answers_loaderless [loaderless]:
  "innermost_base_name (loader d w) answer = innermost_base_name w answer"
  "name_in_object (loader d w) info object address n = name_in_object w info object address n"
  "location_in_object (loader d w) info answer = location_in_object w info answer"
  "corrected_location (loader d w) object address answer l = corrected_location w object address answer l"
  unfolding innermost_base_name_def name_in_object_def location_in_object_def corrected_location_def
    loaderless by simp_all

lemma chain_of_loaderless [loaderless]: "chain_of (loader d w) answer = chain_of w answer"
  unfolding chain_of_def loaderless by simp

lemma lookups_loaderless [loaderless]:
  "resolve_function_name (loader d w) fs address info n = resolve_function_name w fs address info n"
  "resolve_filename_and_line (loader d w) fs address info = resolve_filename_and_line w fs address info"
  "read_inline_chain (loader d w) fs address info = read_inline_chain w fs address info"
  unfolding resolve_function_name_def resolve_filename_and_line_def read_inline_chain_def loaderless
  by simp_all

lemma event_site_loaderless [loaderless]:
  "resolve_event_site_location (loader d w) fs address info =
     resolve_event_site_location w fs address info"
  unfolding resolve_event_site_location_def loaderless by simp

text \<open>What runs in the second section under the mutex.\<close>

lemma sections_loaderless [loaderless]:
  "emplace_name n (loader d w) info c f callee name = emplace_name n w info c f callee name"
  "emplace_location n (loader d w) info c f caller location = emplace_location n w info c f caller location"
  "locate_event_site (loader d w) address = locate_event_site w address"
  "chain_in_object (loader d w) address = chain_in_object w address"
  unfolding emplace_name_def emplace_location_def locate_event_site_def chain_in_object_def
    fun_eq_iff loaderless by simp_all

lemma fill_loaderless [loaderless]: "fill_view (loader d w) = fill_view w"
  unfolding fill_view_def fun_eq_iff loaderless by simp

text \<open>The loader's answers to the questions in a log; to any other question it answers \<open>other\<close>.\<close>

definition logged_answers ::
    "world \<Rightarrow> lock_action list \<Rightarrow> (addr \<Rightarrow> (dl_info \<times> addr option) option) \<Rightarrow> addr
       \<Rightarrow> (dl_info \<times> addr option) option" where
  "logged_answers w acts other a = (if Query_loader a \<in> set acts then dladdr1 w a else other a)"

lemma query_logged:
  "Query_loader a \<in> set acts \<Longrightarrow>
   query_address (loader (logged_answers w acts other) w) a = query_address w a"
  by (simp add: query_address_def logged_answers_def)

lemma two_phase_logged:
  assumes "two_phase get put (ask_loader w) compute interfere c k = (v, c', acts)"
  shows "two_phase get put (ask_loader (loader (logged_answers w acts other) w)) compute interfere c k =
           (v, c', acts)"
  using assms
  by (auto simp: two_phase_def log_defs Let_def case_prod_beta query_logged split: option.splits)

lemma resolve_logged:
  assumes "resolve_no_unwind n w interfere c f callee caller out = (r, c', f', acts)"
  shows "resolve_no_unwind n (loader (logged_answers w acts other) w) interfere c f callee caller out =
           (r, c', f', acts)"
proof -
  obtain name location where ff: "find_front n f callee caller = (name, location)" by fastforce
  obtain name1 f1 where s1: "find_shared_name n c f callee name = (name1, f1)" by fastforce
  obtain location1 f2 where s2: "find_shared_location n c f1 caller location = (location1, f2)" by fastforce
  show ?thesis
    using assms s1 s2
    by (cases name; cases location; cases name1; cases location1)
      (auto simp: resolve_no_unwind_def ff ask_missing_def log_defs query_logged loaderless
        Let_def split: if_splits prod.splits)
qed

lemma location_logged:
  assumes "resolve_location w interfere c address out = (view, c', acts)"
  shows "resolve_location (loader (logged_answers w acts other) w) interfere c address out = (view, c', acts)"
proof -
  obtain x c1 l where t: "two_phase location_cache put_location (ask_loader w)
      (locate_event_site w address) interfere c address = (x, c1, l)" by (metis prod_cases3)
  with assms have "acts = l" by (auto simp: resolve_location_def)
  with two_phase_logged [OF t, of other] t assms show ?thesis
    by (simp add: resolve_location_def loaderless)
qed

lemma chain_logged:
  assumes "resolve_inline_chain w interfere c address = (chain, c', acts)"
  shows "resolve_inline_chain (loader (logged_answers w acts other) w) interfere c address =
           (chain, c', acts)"
  using two_phase_logged assms unfolding resolve_inline_chain_def loaderless by fast

lemma resolve_lock_order:
  "lock_order False (snd (snd (snd (resolve_no_unwind n w interfere c f callee caller out))))"
  by (auto simp: resolve_no_unwind_def ask_missing_def log_defs Let_def split: prod.split option.split)

section \<open>Lookups only add\<close>

text \<open>
  Every lookup only adds to the shared state: no entry is changed or removed, the registry of
  files keeps its invariant, and the thread's front caches still agree with the shared maps.
\<close>

lemma lookups_grow:
  assumes "fronts_ok c f" "\<And>c. caches_grow c (interfere c)"
  shows "(case resolve_no_unwind n w interfere c f callee caller out of
            (r, c', f', acts) \<Rightarrow> caches_grow c c' \<and> fronts_ok c' f') \<and>
         (case resolve_location w interfere c address out of (v, c', acts) \<Rightarrow> caches_grow c c') \<and>
         (case resolve_inline_chain w interfere c address of (v, c', acts) \<Rightarrow> caches_grow c c')"
proof (intro conjI)
  show "case resolve_no_unwind n w interfere c f callee caller out of
            (r, c', f', acts) \<Rightarrow> caches_grow c c' \<and> fronts_ok c' f'"
    using resolve_settles [OF assms, of n w callee caller out] by (auto split: prod.split)
  show "case resolve_location w interfere c address out of (v, c', acts) \<Rightarrow> caches_grow c c'"
    unfolding resolve_location_def Let_def case_prod_beta fst_conv snd_conv
    by (rule locations.two_phase_settles(2) [OF assms(2)])
      (simp_all add: locate_event_site_def case_prod_beta resolve_event_site_location_grow)
  show "case resolve_inline_chain w interfere c address of (v, c', acts) \<Rightarrow> caches_grow c c'"
    unfolding resolve_inline_chain_def Let_def case_prod_beta fst_conv snd_conv
    by (rule chains.two_phase_settles(2) [OF assms(2)])
      (simp_all add: chain_in_object_def case_prod_beta read_inline_chain_grow)
qed

section \<open>Properties\<close>

text \<open>
  Answers are permanent, and the same for every thread: once any thread has looked a frame up,
  with others adding to the caches meanwhile, every later lookup of it, by any thread and whatever
  the loader and the files answer by then, gives the same frame (or is filtered again), leaves the
  shared state untouched and does not ask the loader.
\<close>

lemma resolver_answers_permanent:
  assumes "fronts_ok c f" "\<And>c. caches_grow c (interfere c)"
    and "resolve w interfere c f callee caller out = (answer, c', f', acts)"
    and "caches_grow c' later" "fronts_ok later other_fronts" "log_addr_on w' = log_addr_on w"
  shows "\<exists>f'' acts'. resolve w' interfere' later other_fronts callee caller out =
           (answer, later, f'', acts') \<and> acts' \<in> {[], [Acquire, Release]}"
proof -
  let ?site = "inside_call_instruction caller"
  have "settled_answer innermost_function w c' callee ?site out = Some answer"
    using resolve_settles [OF assms(1,2) assms(3) [unfolded resolve_def]] by simp
  then have "settled_answer innermost_function w' later callee ?site out = Some answer"
    using assms(4,6) by (rule settled_mono)
  from resolve_settled [OF assms(5) this, of interfere'] show ?thesis
    by (auto simp: resolve_def)
qed

text \<open>
  The first lookup of a frame, when no other thread interferes: the name and the call site are the
  ones resolved for the two addresses, and nothing is answered for a callee without a name.
\<close>

theorem first_lookup_resolves:
  assumes "fronts_ok c f" "names_of n c callee = None" "location_cache c caller = None"
  shows "fst (resolve_no_unwind n w id c f callee caller out) =
           (let (name, fs) = resolve_function_name w (cached_files c) callee
                               (query_address w callee) n;
                (location, _) = resolve_filename_and_line w fs caller (query_address w caller)
            in map_option (\<lambda>x. fill_view w callee (cache_name (Some x)) location out) name)"
proof -
  have "find_front n f callee caller = (None, None)"
    using find_front_ok [OF assms(1), of n callee caller] assms(2,3)
    by (cases "find_front n f callee caller") (metis fst_conv snd_conv option.exhaust option.distinct(1))
  moreover have "location_cache (add_name n callee x (c\<lparr>cached_files := fs\<rparr>)) caller = None"
    "cached_files (add_name n callee x (c\<lparr>cached_files := fs\<rparr>)) = fs" for x fs
    using assms(3) by (simp_all add: add_name_def)
  ultimately show ?thesis
    using assms(2,3)
    by (auto simp: resolve_no_unwind_def find_shared_name_def find_shared_location_def
        emplace_name_def emplace_location_def ask_missing_def log_defs Let_def case_prod_beta
        filtered_def cache_name_def
        split: option.split)
qed

text \<open>An executable with debug information, and its first lookup.\<close>

definition named_world :: world where
  "named_world = sample_world\<lparr>
     add_file := (\<lambda>_ _. Some (True, True, True)),
     dladdr1 := (\<lambda>_. Some (\<lparr>dli_fname = Some ''./demo'', dli_fbase = 4096, dli_sname = None\<rparr>, Some 0)),
     backtrace_pcinfo := (\<lambda>_ a. [\<lparr>pc_file = Some ''a.cpp'', pc_line = (if a = 64 then 3 else 7),
        pc_function = Some (if a = 64 then ''foo'' else ''main''), pc_oom = False\<rparr>])\<rparr>"

lemma first_lookup:
  "fst (resolve named_world id empty_caches empty_fronts 64 129 empty_view) =
     Some (empty_view\<lparr>callee_function_name := Some ''foo'', callee_base_name := Some ''foo'',
             caller_filename := Some ''a.cpp'', caller_line_number := Some 7,
             caller_function_base := Some ''main''\<rparr>)"
  by code_simp

theorem first_lookup_resolves_witness:
  "fst (resolve_no_unwind innermost_function named_world id empty_caches empty_fronts 64 128 empty_view) =
     (let (name, fs) = resolve_function_name named_world (cached_files empty_caches) 64
                         (query_address named_world 64) innermost_function;
          (location, _) = resolve_filename_and_line named_world fs 128 (query_address named_world 128)
      in map_option (\<lambda>x. fill_view named_world 64 (cache_name (Some x)) location empty_view) name)"
  by (rule first_lookup_resolves [OF fronts_ok_empty]) (simp_all add: empty_caches_def names_of_def)

text \<open>
  C22. The lock order. The loader takes a lock of its own and must not be asked while the resolver's
  mutex is held. (1) In the log of every lookup that returns, the mutex is taken only when it is
  free, the loader is asked only while it is free, and it is free in the end; (2) the log has every
  question whose answer matters: with a loader that answers the logged questions alike and all
  others in any other way, each lookup does the same; (3) what the lookups compute while they hold
  the mutex, down to registering the object's file, is the same whatever the loader would answer, so
  nothing there asks it. A lookup that runs out of memory leaves through the \<open>lock_guard\<close>'s
  destructor and is not covered.
\<close>

theorem loader_never_asked_under_mutex:
  "(case resolve_no_unwind n w interfere c f callee caller out of (r, c', f', acts) \<Rightarrow>
      lock_order False acts \<and>
      resolve_no_unwind n (w\<lparr>dladdr1 := logged_answers w acts other\<rparr>) interfere c f callee caller out =
        (r, c', f', acts)) \<and>
   (case resolve_location w interfere c address out of (view, c', acts) \<Rightarrow>
      lock_order False acts \<and>
      resolve_location (w\<lparr>dladdr1 := logged_answers w acts other\<rparr>) interfere c address out =
        (view, c', acts)) \<and>
   (case resolve_inline_chain w interfere c address of (chain, c', acts) \<Rightarrow>
      lock_order False acts \<and>
      resolve_inline_chain (w\<lparr>dladdr1 := logged_answers w acts other\<rparr>) interfere c address =
        (chain, c', acts)) \<and>
   emplace_name n (w\<lparr>dladdr1 := other\<rparr>) info c f callee name = emplace_name n w info c f callee name \<and>
   emplace_location n (w\<lparr>dladdr1 := other\<rparr>) info c f caller location =
     emplace_location n w info c f caller location \<and>
   locate_event_site (w\<lparr>dladdr1 := other\<rparr>) address info c = locate_event_site w address info c \<and>
   chain_in_object (w\<lparr>dladdr1 := other\<rparr>) address info c = chain_in_object w address info c"
proof (intro conjI)
  show "case resolve_no_unwind n w interfere c f callee caller out of (r, c', f', acts) \<Rightarrow>
      lock_order False acts \<and>
      resolve_no_unwind n (loader (logged_answers w acts other) w) interfere c f callee caller out =
        (r, c', f', acts)"
    using resolve_lock_order [of n w interfere c f callee caller out]
    by (auto split: prod.split dest: resolve_logged)
  show "case resolve_location w interfere c address out of (view, c', acts) \<Rightarrow>
      lock_order False acts \<and>
      resolve_location (loader (logged_answers w acts other) w) interfere c address out = (view, c', acts)"
    using two_phase_lock_order [of location_cache put_location w "locate_event_site w address"
        interfere c address]
    by (auto split: prod.split dest: location_logged) (auto simp: resolve_location_def split: prod.splits)
  show "case resolve_inline_chain w interfere c address of (chain, c', acts) \<Rightarrow>
      lock_order False acts \<and>
      resolve_inline_chain (loader (logged_answers w acts other) w) interfere c address = (chain, c', acts)"
    using two_phase_lock_order [of inline_chain_cache put_chain w "chain_in_object w address"
        interfere c address]
    by (auto split: prod.split dest: chain_logged) (auto simp: resolve_inline_chain_def)
qed (simp_all add: loaderless)

lemma stack_room_fits:
  assumes "k \<le> 21"
  shows "stack_room k \<le> 2097152000" "int_of_size (stack_room k) = int (stack_room k)"
proof -
  have "(2::nat) ^ k \<le> 2 ^ 21" using assms by (rule power_increasing) simp
  then show "stack_room k \<le> 2097152000" by (simp add: stack_room_def INITIAL_FRAMES_def)
  then show "int_of_size (stack_room k) = int (stack_room k)"
    by (intro int_of_size_small) (simp add: INT_MAX_def)
qed

lemma stack_room_overflows: "stack_room 22 = 4194304000" "int_of_size 4194304000 = - 100663296"
  by (simp_all add: stack_room_def INITIAL_FRAMES_def int_of_size_def)

lemma grow_stack_fits:
  assumes "length chain < stack_room 21" "k \<le> 21"
  shows "grow_stack chain k = chain"
  using assms(2)
proof (induction "21 - k" arbitrary: k rule: less_induct)
  case less
  note small = stack_room_fits(2) [OF less.prems]
  show ?case
  proof (cases "stack_room k \<le> length chain")
    case True
    then have "k \<noteq> 21" using assms(1) by auto
    then have "grow_stack chain (Suc k) = chain" using less by auto
    with True small show ?thesis by (subst grow_stack.simps) (simp add: backtrace_def Let_def)
  next
    case False
    with small show ?thesis by (subst grow_stack.simps) (simp add: backtrace_def Let_def)
  qed
qed

lemma grow_stack_overflows:
  assumes "2097152000 \<le> length chain" "k \<le> 22"
  shows "grow_stack chain k = []"
  using assms(2)
proof (induction "22 - k" arbitrary: k rule: less_induct)
  case less
  show ?case
  proof (cases "k = 22")
    case True
    show ?thesis
      unfolding True by (subst grow_stack.simps) (simp add: backtrace_def stack_room_overflows)
  next
    case False
    then have k: "k \<le> 21" using less.prems by simp
    have "grow_stack chain (Suc k) = []" using less k by auto
    with stack_room_fits [OF k] assms(1) show ?thesis
      by (subst grow_stack.simps) (simp add: backtrace_def)
  qed
qed

lemma length_resolve_stack: "length (fst (resolve_stack w now interfere c f stack is)) = length is"
  by (induction "is" arbitrary: c f) (simp_all add: case_prod_beta Let_def)

text \<open>
  C32. The buffer of a captured stack grows until it holds the whole call chain, and the result has
  one entry per frame above \<open>get_call_stack\<close> itself, for every chain of fewer than 2097152000 frames,
  the largest size of the buffer that fits an \<open>int\<close>. From there on the doubled size is negative
  as an \<open>int\<close>: nothing is captured, and the result is empty.
\<close>

theorem call_stack_complete:
  "get_call_stack w now interfere c f chain =
     (if chain = [] then Threw
      else if length chain < 2097152000
      then Returned (resolve_stack w now interfere c f chain [1..<length chain])
      else Returned ([], c, f)) \<and>
   length (fst (resolve_stack w now interfere c f chain [1..<length chain])) = length chain - 1"
proof -
  have room: "stack_room 21 = 2097152000" by (simp add: stack_room_def INITIAL_FRAMES_def)
  have "int_of_size INITIAL_FRAMES = 1000" by code_simp
  then have "length (backtrace chain (int_of_size INITIAL_FRAMES)) = 0 \<longleftrightarrow> chain = []"
    by (cases chain) (simp_all add: backtrace_def)
  moreover have "grow_stack chain 0 = (if length chain < 2097152000 then chain else [])"
    using grow_stack_fits [of chain 0] grow_stack_overflows [of chain 0] by (simp add: room)
  ultimately show ?thesis by (simp add: get_call_stack_def length_resolve_stack)
qed

end
