(* ===== verification/BalancedCalls.thy ===== *)
theory BalancedCalls
  imports TraceInvariant FrameExit ResolverCaches
begin

text \<open>
  Calls that return normally. For any tree of calls whose hooks see consistent levels, the tracer's
  bookkeeping after the calls is what it was before them, whatever failed inside the hooks: memory
  for records, the trace file, resolution, a write.
\<close>

section \<open>Levels that do not depend on the caches\<close>

text \<open>
  \<open>M\<close> gives the level rule of each hook site. A thread's memory of rules agrees with it.
\<close>

definition levels_agree :: "(addr \<Rightarrow> level_rule) \<Rightarrow> level_memory \<Rightarrow> bool" where
  "levels_agree M lm \<longleftrightarrow>
     level_cache_valid (level_cache lm) \<and>
     (\<forall>site rule. site \<noteq> 0 \<longrightarrow> level_cache_get (level_cache lm) site = Some rule \<longrightarrow> rule = M site) \<and>
     (\<forall>site rule. level_rules lm site = Some rule \<longrightarrow> rule = M site)"

lemma levels_agree_empty: "levels_agree M empty_level_memory"
  using levels.find_empty by (auto simp: levels_agree_def empty_level_memory_def levels.valid_empty)

lemma levels_agree_put:
  assumes "levels_agree M lm" "\<forall>site rule. rules site = Some rule \<longrightarrow> rule = M site"
  shows "levels_agree M (lm\<lparr>level_rules := rules,
           level_cache := level_cache_put (level_cache lm) site (M site)\<rparr>)"
proof -
  have v: "level_cache_valid (level_cache lm)" using assms(1) by (simp add: levels_agree_def)
  have "rule = M k" if "k \<noteq> 0" "level_cache_get (level_cache_put (level_cache lm) site (M site)) k = Some rule"
    for k rule
  proof (cases "k = site")
    case True
    then show ?thesis using that(2) levels.find_store_same [OF v, of site "M site"] by simp
  next
    case False
    from levels.find_store_other [OF v that(1) False that(2)] that(1) assms(1) show ?thesis
      by (simp add: levels_agree_def)
  qed
  with assms(2) levels.valid_store [OF v] show ?thesis by (simp add: levels_agree_def)
qed

lemma frame_level_agree:
  assumes "levels_agree M lm" "site \<noteq> 0" "measured_rule env site frame = M site"
  shows "fst (frame_level env lm site frame) = apply_level_rule (env_memory env) (M site) frame"
    and "levels_agree M (snd (frame_level env lm site frame))"
proof -
  have rules: "\<forall>s r. level_rules lm s = Some r \<longrightarrow> r = M s"
    using assms(1) by (simp add: levels_agree_def)
  have put: "levels_agree M (lm\<lparr>level_cache := level_cache_put (level_cache lm) site (M site)\<rparr>)"
    using levels_agree_put [OF assms(1) rules] by simp
  have hit: "slot_rule (level_cache lm ! level_slot site) = M site"
    if "slot_site (level_cache lm ! level_slot site) = site"
    using assms(1,2) that by (simp add: levels_agree_def level_cache_get_def Let_def)
  have miss: "levels_agree M (lm\<lparr>level_rules := (if emplace_fails env then level_rules lm
        else (level_rules lm)(site \<mapsto> M site)),
      level_cache := level_cache_put (level_cache lm) site (M site)\<rparr>)"
    using rules by (intro levels_agree_put [OF assms(1)]) auto
  have "fst (frame_level env lm site frame) = apply_level_rule (env_memory env) (M site) frame \<and>
        levels_agree M (snd (frame_level env lm site frame))"
  proof (cases "slot_site (level_cache lm ! level_slot site) = site")
    case True
    then show ?thesis using hit assms(1) by (simp add: frame_level_def Let_def)
  next
    case False
    show ?thesis
    proof (cases "level_rules lm site")
      case None
      then show ?thesis using False miss assms(3) by (simp add: frame_level_def Let_def)
    next
      case (Some rule)
      then have "rule = M site" using rules by blast
      with Some False put show ?thesis by (simp add: frame_level_def Let_def)
    qed
  qed
  then show "fst (frame_level env lm site frame) = apply_level_rule (env_memory env) (M site) frame"
    and "levels_agree M (snd (frame_level env lm site frame))" by blast+
qed

section \<open>Trees of calls\<close>

datatype call = Call (call_enter: hook_input) (call_inner: "call list") (call_exit: hook_input)

fun run_calls ::
    "config \<Rightarrow> call list \<Rightarrow> caches \<times> trace_globals \<times> thread_state
       \<Rightarrow> caches \<times> trace_globals \<times> thread_state" where
  "run_calls cfg [] s = s"
| "run_calls cfg (Call i inner e # rest) s =
     (let (c, g, t) = s;
          (c, g, t) = run_calls cfg inner (enter_hook cfg i c g t)
      in run_calls cfg rest (c, g, exit_hook cfg e t))"

definition input_level :: "(addr \<Rightarrow> level_rule) \<Rightarrow> hook_input \<Rightarrow> addr" where
  "input_level M inp =
     apply_level_rule (env_memory (hi_levels inp)) (M (hook_site inp)) (hook_frame inp)"

text \<open>The unwinder measures the site's rule, on the thread's stack with the bounds \<open>B\<close>.\<close>

definition truthful :: "(addr \<Rightarrow> level_rule) \<Rightarrow> stack_bounds \<Rightarrow> hook_input \<Rightarrow> bool" where
  "truthful M B inp \<longleftrightarrow>
     hook_site inp \<noteq> 0 \<and>
     measured_rule ((hi_levels inp)\<lparr>env_bounds := B\<rparr>) (hook_site inp) (hook_frame inp) =
       M (hook_site inp)"

definition bounds_reported :: "(addr \<times> addr) option \<Rightarrow> stack_bounds" where
  "bounds_reported stack = thread_bounds (resolve_thread_stack_bounds stack (fresh_thread 0 []))"

text \<open>
  A call under a parent of level \<open>L\<close>: the frame lies below the parent's. It returns normally when both
  hooks name the same callee and caller and the exit hook sees the frame's level, or the parent's
  when the compiler turned the hook's call into a jump.
\<close>

definition enters :: "(addr \<Rightarrow> level_rule) \<Rightarrow> stack_bounds \<Rightarrow> addr \<Rightarrow> hook_input \<Rightarrow> bool" where
  "enters M B L i \<longleftrightarrow>
     truthful M B i \<and> bounds_reported (hi_stack i) = B \<and>
     input_level M i < L \<and> on_thread_stack B (input_level M i)"

definition returns_normally ::
    "(addr \<Rightarrow> level_rule) \<Rightarrow> stack_bounds \<Rightarrow> addr \<Rightarrow> hook_input \<Rightarrow> hook_input \<Rightarrow> bool" where
  "returns_normally M B L i e \<longleftrightarrow>
     enters M B L i \<and> truthful M B e \<and>
     hi_callee e = hi_callee i \<and> hi_caller e = hi_caller i \<and>
     (if hook_site e = hi_caller e then input_level M e = L else input_level M e = input_level M i)"

lemma returns_enters: "returns_normally M B L i e \<Longrightarrow> enters M B L i"
  by (simp add: returns_normally_def)

fun all_return :: "(addr \<Rightarrow> level_rule) \<Rightarrow> stack_bounds \<Rightarrow> addr \<Rightarrow> call list \<Rightarrow> bool" where
  "all_return M B L [] = True"
| "all_return M B L (Call i inner e # rest) =
     (returns_normally M B L i e \<and> all_return M B (input_level M i) inner \<and> all_return M B L rest)"

section \<open>The state between calls\<close>

definition strictly_ordered :: "frame_record list \<Rightarrow> bool" where
  "strictly_ordered rs \<longleftrightarrow> sorted_wrt (\<lambda>below above. rec_level above < rec_level below) rs"

definition calm :: "(addr \<Rightarrow> level_rule) \<Rightarrow> stack_bounds \<Rightarrow> addr \<Rightarrow> thread_state \<Rightarrow> bool" where
  "calm M B L t \<longleftrightarrow>
     tracer_ok t \<and> levels_agree M (thread_levels t) \<and>
     thread_bounds t = (if stack_bounds_resolved t then B else unknown_bounds) \<and>
     (frames t \<noteq> [] \<longrightarrow> stack_bounds_resolved t) \<and>
     strictly_ordered (frames t) \<and> (\<forall>r \<in> set (frames t). L \<le> rec_level r)"

text \<open>What the steps of a hook after the reconciliation leave alone.\<close>

definition keeps :: "thread_state \<Rightarrow> thread_state \<Rightarrow> bool" where
  "keeps t t' \<longleftrightarrow>
     frames t' = frames t \<and> thread_levels t' = thread_levels t \<and> thread_bounds t' = thread_bounds t \<and>
     stack_bounds_resolved t' = stack_bounds_resolved t \<and>
     frame_overflow_count t' = frame_overflow_count t"

lemma keeps_trans: "keeps t t' \<Longrightarrow> keeps t' t'' \<Longrightarrow> keeps t t''"
  by (simp add: keeps_def)

lemma keeps_open: "keeps t (snd (snd (open_this_thread_file cfg io g t)))"
  by (simp add: open_this_thread_file_def register_file_def seed_cursor_def
      write_run_separator_header_def current_tid_def keeps_def case_prod_beta Let_def)

lemma keeps_get_thread_fp: "keeps t (snd (snd (snd (get_thread_fp cfg io g t))))"
  using keeps_open [of t cfg io g]
  by (simp add: get_thread_fp_def case_prod_beta Let_def keeps_def)

lemma keeps_resolve_for_hook: "keeps t (snd (snd (resolve_for_hook inp c t)))"
  by (simp add: resolve_for_hook_def case_prod_beta Let_def keeps_def)

lemma keeps_log_call: "keeps t (log_call cfg inp v t)"
  by (simp add: log_call_def write_line_def keeps_def case_prod_beta Let_def split: write_result.split)

lemma keeps_make_room: "keeps t (snd (make_room inp t))"
  by (simp add: make_room_def keeps_def)

section \<open>An enter under a live parent\<close>

lemma scan_top_none: "\<forall>r \<in> set rs. \<not> P r \<Longrightarrow> count_top P rs = 0"
  by (cases rs rule: rev_cases) auto

lemma enter_pops_nothing:
  assumes "\<forall>r \<in> set (frames t). l < rec_level r" "key_level key = l"
  shows "dead_records_on_enter (frames t) key b = 0"
proof -
  have "\<forall>r \<in> set (frames t). \<not> dead_on_enter key b r"
    using assms by (auto simp: dead_on_enter_def Let_def)
  then show ?thesis by (simp add: dead_records_on_enter_def scan_top_none)
qed

lemma reclaim_none [simp]: "reclaim_dead_records cfg u 0 place t = t"
  by (simp add: reclaim_dead_records_def)

lemma single_group_pops_nothing:
  assumes "strictly_ordered rs" "rs \<noteq> []"
  shows "dead_records_above_match rs (rec_level (last rs)) matches = 0"
proof -
  obtain ys y where rs: "rs = ys @ [y]" using assms(2) by (cases rs rule: rev_cases) auto
  have "\<forall>r \<in> set ys. rec_level r \<noteq> rec_level y"
    using assms(1) by (auto simp: rs strictly_ordered_def sorted_wrt_append)
  then have "level_group rs (rec_level (last rs)) = [y]"
    by (cases ys rule: rev_cases) (auto simp: rs level_group_def)
  then show ?thesis by (auto simp: dead_records_above_match_reference)
qed

lemma above_parent_pops_nothing:
  assumes "strictly_ordered (frames t)"
  shows "reclaim_dead_inlined_records_above_parent cfg u key base place t = t"
  using single_group_pops_nothing [OF assms]
  by (auto simp: reclaim_dead_inlined_records_above_parent_def reclaim_above_named_def Let_def
      split: option.split)

lemma bounds_reported_same:
  "\<not> stack_bounds_resolved t \<Longrightarrow> thread_bounds t = unknown_bounds \<Longrightarrow>
   thread_bounds (resolve_thread_stack_bounds stack t) = bounds_reported stack"
  by (simp add: bounds_reported_def resolve_thread_stack_bounds_def fresh_thread_def Let_def
      split: option.split)

definition hook_key :: "(addr \<Rightarrow> level_rule) \<Rightarrow> hook_input \<Rightarrow> frame_key" where
  "hook_key M inp =
     \<lparr>key_callee = hi_callee inp, key_caller = hi_caller inp, key_level = input_level M inp\<rparr>"

lemma hook_level_calm:
  assumes "levels_agree M (thread_levels t)" "thread_bounds t = B" "truthful M B inp"
  shows "fst (hook_level inp t) = input_level M inp"
    and "levels_agree M (thread_levels (snd (hook_level inp t)))"
  using frame_level_agree [OF assms(1), of "hook_site inp" "(hi_levels inp)\<lparr>env_bounds := B\<rparr>"
      "hook_frame inp"] assms(2,3)
  by (simp_all add: hook_level_def truthful_def input_level_def case_prod_beta Let_def)

lemma hook_level_fields [simp]:
  "frames (snd (hook_level inp t)) = frames t"
  "thread_bounds (snd (hook_level inp t)) = thread_bounds t"
  "stack_bounds_resolved (snd (hook_level inp t)) = stack_bounds_resolved t"
  "frame_overflow_count (snd (hook_level inp t)) = frame_overflow_count t"
  by (simp_all add: hook_level_def case_prod_beta Let_def)

lemma bounds_fields [simp]:
  "frames (resolve_thread_stack_bounds stack t) = frames t"
  "thread_levels (resolve_thread_stack_bounds stack t) = thread_levels t"
  "stack_bounds_resolved (resolve_thread_stack_bounds stack t)"
  "frame_overflow_count (resolve_thread_stack_bounds stack t) = frame_overflow_count t"
  by (simp_all add: resolve_thread_stack_bounds_def Let_def split: option.split)

text \<open>Under a live parent the reconciliation only measures the level.\<close>

lemma reconcile_calm_state:
  assumes calm: "calm M B L t" and inp: "truthful M B inp" "bounds_reported (hi_stack inp) = B"
    "input_level M inp < L"
  shows "reconcile_enter cfg inp c t = (False, hook_key M inp, c,
      snd (hook_level inp (resolve_thread_stack_bounds (hi_stack inp) t)))"
    and "thread_bounds (resolve_thread_stack_bounds (hi_stack inp) t) = B"
    and "levels_agree M (thread_levels (snd (hook_level inp (resolve_thread_stack_bounds (hi_stack inp) t))))"
proof -
  let ?t1 = "resolve_thread_stack_bounds (hi_stack inp) t"
  let ?t2 = "snd (hook_level inp ?t1)"
  show b: "thread_bounds ?t1 = B"
    using calm inp(2) bounds_reported_same [of t "hi_stack inp"]
    by (cases "stack_bounds_resolved t") (simp_all add: calm_def resolve_thread_stack_bounds_def)
  have agree: "levels_agree M (thread_levels ?t1)" using calm by (simp add: calm_def)
  note l = hook_level_calm [OF agree b inp(1)]
  show "levels_agree M (thread_levels ?t2)" by (rule l(2))
  have above: "\<forall>r \<in> set (frames ?t2). input_level M inp < rec_level r"
    using calm inp(3) by (fastforce simp: calm_def)
  have none: "dead_records_on_enter (frames ?t2) (hook_key M inp) B = 0"
    using enter_pops_nothing [OF above, of "hook_key M inp" B] by (simp add: hook_key_def)
  have "frames ?t2 = [] \<or> rec_level (last (frames ?t2)) \<noteq> key_level (hook_key M inp)"
    using above by (cases "frames ?t2" rule: rev_cases) (auto simp: hook_key_def)
  then have chain: "reclaim_dead_inlined_records_on_enter cfg (hi_resolver inp)
      (uncaught_exceptions inp) (hook_key M inp) (hook_site inp - 1) at_enter c ?t2 = (False, c, ?t2)"
    by (auto simp: reclaim_dead_inlined_records_on_enter_def)
  show "reconcile_enter cfg inp c t = (False, hook_key M inp, c, ?t2)"
    using none chain b l(1)
    by (simp add: reconcile_enter_def case_prod_beta Let_def hook_key_def)
qed

lemma reconcile_calm:
  assumes "calm M B L t" "truthful M B inp" "bounds_reported (hi_stack inp) = B" "input_level M inp < L"
  obtains t' where "reconcile_enter cfg inp c t = (False, hook_key M inp, c, t')"
    "frames t' = frames t" "levels_agree M (thread_levels t')" "thread_bounds t' = B"
    "stack_bounds_resolved t'" "frame_overflow_count t' = frame_overflow_count t"
  by (rule that [OF reconcile_calm_state(1) [OF assms]]) (simp_all add: reconcile_calm_state [OF assms])

text \<open>With a slot, an enter pushes its own record and pops none.\<close>

lemma enter_with_slot_calm:
  assumes calm: "calm M B L t" and inp: "truthful M B inp" "bounds_reported (hi_stack inp) = B"
    "input_level M inp < L"
  obtains r where
    "frames (snd (snd (enter_with_slot cfg inp c g t))) = frames t @ [r]"
    "rec_callee r = hi_callee inp" "rec_caller r = hi_caller inp" "rec_level r = input_level M inp"
    "levels_agree M (thread_levels (snd (snd (enter_with_slot cfg inp c g t))))"
    "thread_bounds (snd (snd (enter_with_slot cfg inp c g t))) = B"
    "stack_bounds_resolved (snd (snd (enter_with_slot cfg inp c g t)))"
    "frame_overflow_count (snd (snd (enter_with_slot cfg inp c g t))) = frame_overflow_count t"
proof -
  note result = that
  obtain t1 where r: "reconcile_enter cfg inp c t = (False, hook_key M inp, c, t1)"
    and t1: "frames t1 = frames t" "levels_agree M (thread_levels t1)" "thread_bounds t1 = B"
      "stack_bounds_resolved t1" "frame_overflow_count t1 = frame_overflow_count t"
    by (rule reconcile_calm [OF calm inp])
  obtain ot fp g2 t2 where f: "get_thread_fp cfg (hi_open inp) g t1 = (ot, fp, g2, t2)"
    by (metis prod_cases4)
  have k2: "keeps t1 t2" using keeps_get_thread_fp [of t1 cfg "hi_open inp" g] f by simp
  obtain view c3 t3 where v: "resolve_for_hook inp c t2 = (view, c3, t3)" by (metis prod_cases3)
  have k3: "keeps t1 t3" using keeps_trans [OF k2] keeps_resolve_for_hook [of t2 inp c] v by simp
  have ordered: "strictly_ordered (frames t3)" using calm t1 k3 by (simp add: calm_def keeps_def)
  have push: "thesis"
    if e: "enter_with_slot cfg inp c g t = (c', g', push_record cfg inp (hook_key M inp) b base st t')"
      and k: "keeps t1 t'" for c' g' b base st t'
    by (rule result [of "new_record cfg inp (hook_key M inp) b base st t'"])
      (use k t1 in \<open>simp_all add: e push_record_def keeps_def new_record_def hook_key_def Let_def\<close>)
  show thesis
  proof (cases "ot \<or> \<not> fp \<or> view = None")
    case True
    then show thesis
      using push k2 k3 r f v
      by (cases "ot \<or> \<not> fp") (auto simp: enter_with_slot_def Let_def)
  next
    case False
    then obtain w where w: "view = Some w" by auto
    have "enter_with_slot cfg inp c g t =
        (c3, g2, push_record cfg inp (hook_key M inp) True (callee_base_name w) (cursor t3)
                   (log_call cfg inp w t3))"
      using False w r f v
      by (simp add: enter_with_slot_def Let_def above_parent_pops_nothing [OF ordered])
    then show thesis using keeps_trans [OF k3 keeps_log_call] by (rule push)
  qed
qed

section \<open>The exit of the frame on top\<close>

lemma closest_below_kept:
  "\<forall>k \<le> i. \<not> rec_level (records ! k) < key_level key \<Longrightarrow>
   closest_below records key i best found = best"
  by (induction i) (auto simp: closer_below_def)

lemma exit_index_top:
  assumes "same_activation_site r key" "\<forall>x \<in> set rs. L \<le> rec_level x"
    and "if tail then key_level key = L \<and> rec_level r < L else key_level key = rec_level r"
  shows "exiting_record_index (rs @ [r]) key tail b = length rs"
proof -
  have first: "topmost_same_site (rs @ [r]) key (length rs) = Some (length rs)"
    using assms(1) by (cases rs rule: rev_cases) (simp_all add: nth_append)
  have "closest_below (rs @ [r]) key (length rs) (length rs) False = length rs" if tail
  proof (cases "length rs")
    case 0
    then show ?thesis by simp
  next
    case (Suc n)
    then have "\<forall>k \<le> n. (rs @ [r]) ! k \<in> set rs" by (simp add: nth_append)
    then have "\<forall>k \<le> n. \<not> rec_level ((rs @ [r]) ! k) < key_level key"
      using assms(2,3) that by (fastforce simp: not_less)
    then show ?thesis by (simp add: Suc closest_below_kept)
  qed
  moreover have "identical_level (rs @ [r]) key (length rs) (length rs) = length rs" if "\<not> tail"
    using assms(1,3) that by (cases "length rs") (auto simp: nth_append)
  ultimately show ?thesis
    using first by (auto simp: exiting_record_index_def Let_def)
qed

lemma exit_with_record_pops:
  assumes calm: "calm M B L t" "frames t = rs @ [r]" and rs: "\<forall>x \<in> set rs. L' \<le> rec_level x"
    and own: "same_activation_site r (hook_key M e)" and inp: "truthful M B e"
    and level: "if hook_site e = hi_caller e then input_level M e = L' \<and> rec_level r < L'
                else input_level M e = rec_level r"
  shows "exit_with_record cfg e t = pop_own_record cfg e (snd (hook_level e t))"
    and "levels_agree M (thread_levels (snd (hook_level e t)))"
proof -
  have res: "thread_bounds t = B" "levels_agree M (thread_levels t)"
    using calm by (simp_all add: calm_def)
  note l = hook_level_calm [OF res(2,1) inp]
  show "levels_agree M (thread_levels (snd (hook_level e t)))" by (rule l(2))
  have "exit_index e (fst (hook_level e t)) (snd (hook_level e t)) = length rs"
    unfolding exit_index_def l(1)
    using exit_index_top [OF own rs, of "hook_site e = hi_caller e" B] level
    by (simp add: calm(2) hook_key_def res)
  then show "exit_with_record cfg e t = pop_own_record cfg e (snd (hook_level e t))"
    by (simp add: exit_with_record_def case_prod_beta Let_def calm(2))
qed

lemma exit_with_record_calm:
  assumes calm: "calm M B L t" "frames t = rs @ [r]" and rs: "\<forall>x \<in> set rs. L' \<le> rec_level x"
    and own: "same_activation_site r (hook_key M e)" and inp: "truthful M B e"
    and level: "if hook_site e = hi_caller e then input_level M e = L' \<and> rec_level r < L'
                else input_level M e = rec_level r"
  shows "frames (exit_with_record cfg e t) = rs"
    and "levels_agree M (thread_levels (exit_with_record cfg e t))"
    and "thread_bounds (exit_with_record cfg e t) = B"
    and "stack_bounds_resolved (exit_with_record cfg e t)"
    and "frame_overflow_count (exit_with_record cfg e t) = frame_overflow_count t"
proof -
  let ?t1 = "snd (hook_level e t)"
  have res: "stack_bounds_resolved t" "thread_bounds t = B" using calm by (simp_all add: calm_def)
  note e = exit_with_record_pops(1) [OF assms, of cfg] and agree = exit_with_record_pops(2) [OF assms]
  obtain dead kept b where p: "pop_own_record cfg e ?t1 =
      ?t1\<lparr>frames := kept, current_stack_depth := current_stack_depth ?t1 - logged_count dead,
          file_bytes := b\<rparr>"
    using pop_own_record_pops [of ?t1 cfg e] calm(2) unfolding pops_def popped_to_def by auto
  have "frames (pop_own_record cfg e ?t1) = rs"
    by (simp add: pop_own_record_def Let_def calm(2) finish_line_def)
  then show "frames (exit_with_record cfg e t) = rs" by (simp add: e)
  show "levels_agree M (thread_levels (exit_with_record cfg e t))"
    "thread_bounds (exit_with_record cfg e t) = B"
    "stack_bounds_resolved (exit_with_record cfg e t)"
    "frame_overflow_count (exit_with_record cfg e t) = frame_overflow_count t"
    using agree by (simp_all add: e p res)
qed

section \<open>Balanced calls\<close>

definition settled :: "(addr \<Rightarrow> level_rule) \<Rightarrow> stack_bounds \<Rightarrow> addr \<Rightarrow> thread_state \<Rightarrow> bool" where
  "settled M B L t \<longleftrightarrow> \<not> in_instrumentation t \<and> calm M B L t"

lemma settledI:
  assumes "\<not> in_instrumentation t" "tracer_ok t" "levels_agree M (thread_levels t)"
    and "thread_bounds t = (if stack_bounds_resolved t then B else unknown_bounds)"
    and "frames t \<noteq> [] \<Longrightarrow> stack_bounds_resolved t"
    and "strictly_ordered (frames t)" "\<And>r. r \<in> set (frames t) \<Longrightarrow> L \<le> rec_level r"
  shows "settled M B L t"
  using assms by (simp add: settled_def calm_def)

text \<open>An enter either counts an overflow frame or pushes the frame's record.\<close>

lemma enter_above:
  "calm M B L t \<Longrightarrow> enters M B L i \<Longrightarrow> r \<in> set (frames t) \<Longrightarrow> input_level M i < rec_level r"
  by (fastforce simp: calm_def enters_def)

lemma enter_overflows:
  assumes "settled M B L t" "enters M B L i" "tracer_ok t'" "keeps (t\<lparr>in_instrumentation := True\<rparr>) t2"
    and "t' = (t2\<lparr>frame_overflow_count := frame_overflow_count t2 + 1\<rparr>)\<lparr>in_instrumentation := False\<rparr>"
  shows "settled M B (input_level M i) t' \<and> frames t' = frames t \<and>
    frame_overflow_count t' = frame_overflow_count t + 1"
proof -
  have calm: "calm M B L t" using assms(1) by (simp add: settled_def)
  show ?thesis
    using assms(3-5) calm enter_above [OF calm assms(2)]
    by (auto intro!: settledI simp: keeps_def calm_def less_imp_le)
qed

lemma enter_pushes:
  assumes s: "settled M B L t" and inp: "enters M B L i" and ok: "tracer_ok t'" and zero: "frame_overflow_count t = 0"
    and k: "keeps (t\<lparr>in_instrumentation := True\<rparr>) t2" "tracer_ok t2"
    and t': "t' = (snd (snd (enter_with_slot cfg i c g t2)))\<lparr>in_instrumentation := False\<rparr>"
  shows "settled M B (input_level M i) t' \<and> (\<exists>r. frames t' = frames t @ [r] \<and>
    same_activation_site r (hook_key M i) \<and> rec_level r = input_level M i \<and> frame_overflow_count t' = 0)"
proof -
  let ?t = "snd (snd (enter_with_slot cfg i c g t2))"
  have calm: "calm M B L t" using s by (simp add: settled_def)
  then have calm2: "calm M B L t2" using k by (simp add: calm_def keeps_def)
  have l: "input_level M i < L" "truthful M B i" "bounds_reported (hi_stack i) = B"
    using inp by (simp_all add: enters_def)
  obtain r where r: "frames ?t = frames t2 @ [r]" "rec_callee r = hi_callee i" "rec_caller r = hi_caller i"
    "rec_level r = input_level M i" "levels_agree M (thread_levels ?t)" "thread_bounds ?t = B"
    "stack_bounds_resolved ?t" "frame_overflow_count ?t = frame_overflow_count t2"
    by (rule enter_with_slot_calm [OF calm2 l(2,3,1)])
  have fr: "frames t' = frames t @ [r]" using r(1) k by (simp add: t' keeps_def)
  have ordered: "strictly_ordered (frames t')"
    using calm enter_above [OF calm inp] r(4) by (auto simp: fr strictly_ordered_def sorted_wrt_append calm_def)
  have "settled M B (input_level M i) t'"
    using ok r ordered enter_above [OF calm inp]
    by (intro settledI) (auto simp: t' less_imp_le fr [unfolded t', simplified])
  moreover have "same_activation_site r (hook_key M i)"
    using r by (simp add: same_activation_site_def hook_key_def)
  ultimately show ?thesis using fr r(4,8) k zero by (auto simp: t' keeps_def)
qed

lemma enter_hook_settled:
  assumes s: "settled M B L t" and inp: "enters M B L i"
    and step: "enter_hook cfg i c g t = (c', g', t')"
  shows "settled M B (input_level M i) t'"
    and "(frames t' = frames t \<and> frame_overflow_count t' = frame_overflow_count t + 1) \<or>
     (\<exists>r. frames t' = frames t @ [r] \<and> same_activation_site r (hook_key M i) \<and>
        rec_level r = input_level M i \<and> frame_overflow_count t = 0 \<and> frame_overflow_count t' = 0)"
proof -
  let ?t1 = "t\<lparr>in_instrumentation := True\<rparr>"
  have calm: "calm M B L t" and guard: "\<not> in_instrumentation t"
    using s by (simp_all add: settled_def)
  have ok': "tracer_ok t'"
    using enter_hook_ok [of t cfg i c g] step calm by (simp add: calm_def)
  obtain slot t2 where m: "make_room i ?t1 = (slot, t2)" by fastforce
  have k: "keeps ?t1 ?t1" "keeps ?t1 t2" using keeps_make_room [of ?t1 i] m by (simp_all add: keeps_def)
  have "tracer_ok ?t1" using calm by (simp add: calm_def)
  then have k2: "tracer_ok t2"
    using tracer_ok_advances [of ?t1 cfg t2] make_room_advances [of cfg ?t1 i] m by simp
  note over = enter_overflows [OF s inp ok']
  consider "frame_overflow_count t > 0" | "\<not> frame_overflow_count t > 0" "\<not> slot"
    | "\<not> frame_overflow_count t > 0" "slot" by blast
  then have "settled M B (input_level M i) t' \<and>
    ((frames t' = frames t \<and> frame_overflow_count t' = frame_overflow_count t + 1) \<or>
     (\<exists>r. frames t' = frames t @ [r] \<and> same_activation_site r (hook_key M i) \<and>
        rec_level r = input_level M i \<and> frame_overflow_count t = 0 \<and> frame_overflow_count t' = 0))"
  proof cases
    case 1
    then show ?thesis using over [OF k(1)] step guard by (auto simp: enter_hook_def Let_def)
  next
    case 2
    then show ?thesis using over [OF k(2)] step guard m by (auto simp: enter_hook_def Let_def)
  next
    case 3
    then have zero: "frame_overflow_count t = 0" using calm by (simp add: calm_def tracer_ok_def)
    have "t' = (snd (snd (enter_with_slot cfg i c g t2)))\<lparr>in_instrumentation := False\<rparr>"
      using step guard 3 m by (auto simp: enter_hook_def Let_def case_prod_beta)
    from enter_pushes [OF s inp ok' zero k(2) k2 this] zero show ?thesis by blast
  qed
  then show "settled M B (input_level M i) t'"
    and "(frames t' = frames t \<and> frame_overflow_count t' = frame_overflow_count t + 1) \<or>
     (\<exists>r. frames t' = frames t @ [r] \<and> same_activation_site r (hook_key M i) \<and>
        rec_level r = input_level M i \<and> frame_overflow_count t = 0 \<and> frame_overflow_count t' = 0)"
    by blast+
qed

lemma exit_hook_overflow:
  assumes "\<not> in_instrumentation t" "frame_overflow_count t > 0"
  shows "exit_hook cfg e t = t\<lparr>frame_overflow_count := frame_overflow_count t - 1\<rparr>"
  using assms by (simp add: exit_hook_def Let_def)

text \<open>The exit undoes what the enter did.\<close>

lemma exit_hook_settled:
  assumes s: "settled M B (input_level M i) t" and start: "settled M B L t0"
    and inp: "returns_normally M B L i e"
    and entered: "(frames t = frames t0 \<and> frame_overflow_count t = frame_overflow_count t0 + 1) \<or>
     (\<exists>r. frames t = frames t0 @ [r] \<and> same_activation_site r (hook_key M i) \<and>
        rec_level r = input_level M i \<and> frame_overflow_count t0 = 0 \<and> frame_overflow_count t = 0)"
  shows "settled M B L (exit_hook cfg e t) \<and> frames (exit_hook cfg e t) = frames t0 \<and>
     frame_overflow_count (exit_hook cfg e t) = frame_overflow_count t0"
proof -
  have calm: "calm M B (input_level M i) t" and guard: "\<not> in_instrumentation t"
    and calm0: "calm M B L t0"
    using s start by (simp_all add: settled_def)
  have ok: "tracer_ok (exit_hook cfg e t)"
    using exit_hook_ok [of t cfg e] calm by (simp add: calm_def)
  from entered show ?thesis
  proof
    assume o: "frames t = frames t0 \<and> frame_overflow_count t = frame_overflow_count t0 + 1"
    then have "frame_overflow_count t > 0" using calm0 by (simp add: calm_def tracer_ok_def)
    note x = exit_hook_overflow [OF guard this, of cfg e]
    show ?thesis
      using o ok calm calm0 guard
      by (auto simp: x calm_def intro!: settledI)
  next
    assume "\<exists>r. frames t = frames t0 @ [r] \<and> same_activation_site r (hook_key M i) \<and>
        rec_level r = input_level M i \<and> frame_overflow_count t0 = 0 \<and> frame_overflow_count t = 0"
    then obtain r where r: "frames t = frames t0 @ [r]" "same_activation_site r (hook_key M i)"
      "rec_level r = input_level M i" "frame_overflow_count t0 = 0" "frame_overflow_count t = 0" by blast
    let ?t = "t\<lparr>in_instrumentation := True\<rparr>"
    have calm': "calm M B (input_level M i) ?t" using calm by (simp add: calm_def)
    have rs: "\<forall>x \<in> set (frames t0). L \<le> rec_level x" using calm0 by (simp add: calm_def)
    have own: "same_activation_site r (hook_key M e)"
      using r(2) inp by (simp add: returns_normally_def same_activation_site_def hook_key_def)
    have level: "if hook_site e = hi_caller e then input_level M e = L \<and> rec_level r < L
        else input_level M e = rec_level r"
      using inp r(3) by (auto simp: returns_normally_def enters_def split: if_splits)
    have e: "truthful M B e" using inp by (simp add: returns_normally_def)
    have fr: "frames ?t = frames t0 @ [r]" using r(1) by simp
    note x = exit_with_record_calm [OF calm' fr rs own e level, of cfg]
    have "exit_hook cfg e t = (exit_with_record cfg e ?t)\<lparr>in_instrumentation := False\<rparr>"
      using guard r by (simp add: exit_hook_def Let_def)
    then show ?thesis
      using x ok r calm0 rs by (auto simp: calm_def intro!: settledI)
  qed
qed

lemma run_calls_settled:
  "run_calls cfg calls (c, g, t) = (c', g', t') \<Longrightarrow> settled M B L t \<Longrightarrow> all_return M B L calls \<Longrightarrow>
   settled M B L t' \<and> frames t' = frames t \<and> frame_overflow_count t' = frame_overflow_count t"
proof (induction cfg calls "(c, g, t)" arbitrary: c g t c' g' t' L rule: run_calls.induct)
  case (2 cfg i inner e rest)
  obtain c1 g1 t1 where enter: "enter_hook cfg i c g t = (c1, g1, t1)" by (metis prod_cases3)
  obtain c2 g2 t2 where inside: "run_calls cfg inner (c1, g1, t1) = (c2, g2, t2)"
    by (metis prod_cases3)
  have inp: "returns_normally M B L i e" and all: "all_return M B (input_level M i) inner"
    "all_return M B L rest" using "2.prems"(3) by simp_all
  note en = enter_hook_settled [OF "2.prems"(2) returns_enters [OF inp] enter]
  have mid: "settled M B (input_level M i) t2 \<and> frames t2 = frames t1 \<and>
      frame_overflow_count t2 = frame_overflow_count t1"
    using "2.hyps"(1) inside en(1) all(1) enter by metis
  have ex: "settled M B L (exit_hook cfg e t2) \<and> frames (exit_hook cfg e t2) = frames t \<and>
     frame_overflow_count (exit_hook cfg e t2) = frame_overflow_count t"
    by (rule exit_hook_settled [OF _ "2.prems"(2) inp]) (use mid en(2) in auto)
  have "run_calls cfg rest (c2, g2, exit_hook cfg e t2) = (c', g', t')"
    using "2.prems"(1) by (simp add: enter inside)
  with "2.hyps"(2) ex all(2) inside enter show ?case by (metis (no_types, lifting))
qed auto

section \<open>Property\<close>

text \<open>
  C3. Calls that return leave no trace in the bookkeeping: whatever fails inside the hooks (memory for a
  record, the caches, the file, a resolution, a write), and in every build, a tree of calls with
  consistent levels leaves the record stack, the depth and the count of overflow frames exactly
  as they were, and the guard cleared.
\<close>

theorem balanced_calls_restore:
  assumes "settled M B L t" "all_return M B L calls"
  shows "case run_calls cfg calls (c, g, t) of (c', g', t') \<Rightarrow>
           frames t' = frames t \<and> current_stack_depth t' = current_stack_depth t \<and>
           frame_overflow_count t' = frame_overflow_count t \<and> \<not> in_instrumentation t'"
proof -
  obtain c' g' t' where run: "run_calls cfg calls (c, g, t) = (c', g', t')" by (metis prod_cases3)
  note r = run_calls_settled [OF run assms]
  then have "tracer_ok t'" by (simp add: settled_def calm_def)
  moreover have "tracer_ok t" using assms(1) by (simp add: settled_def calm_def)
  ultimately show ?thesis using r by (simp add: run tracer_ok_def settled_def)
qed

definition sample_config :: config where
  "sample_config = \<lparr>log_elapsed = True, log_exceptions = True, log_addr = False\<rparr>"

definition sample_io :: open_input where
  "sample_io = \<lparr>io_gettid = 7, io_path_throws = False, io_open = True, io_fdopen = True,
     io_reopen = True, io_header_throws = False, io_header = Wrote_line, io_seekable = True, io_push_throws = False,
     io_render = (\<lambda>_. ''01-01-2025 12:00:00''), io_clock = 0\<rparr>"

definition plain_levels :: level_env where
  "plain_levels = \<lparr>on_x86 = True, env_bounds = unknown_bounds, env_memory = (\<lambda>_. 0),
     env_contexts = [], emplace_fails = False\<rparr>"

definition sample_hook :: "addr \<Rightarrow> addr \<Rightarrow> hook_input" where
  "sample_hook callee frame =
     \<lparr>hi_callee = callee, hi_caller = 129, hook_site = callee + 8, hook_frame = frame,
      hi_levels = plain_levels, reserve_throws = False, hi_stack = None, hi_open = sample_io,
      hi_resolver = \<lparr>in_world = named_world, in_interfere = id, resolve_throws = False,
                     chain_throws = False\<rparr>,
      hi_clock = 0, steady_now = 0, uncaught_exceptions = 0, hi_write = Wrote_line\<rparr>"

definition minimum_rule :: level_rule where
  "minimum_rule = \<lparr>rule_distance = MIN_LEVEL_DISTANCE, from_saved_frame_pointer = False\<rparr>"

text \<open>A call within a call, whose record finds no memory in the inner one.\<close>

definition sample_calls :: "call list" where
  "sample_calls =
     [Call (sample_hook 64 1000)
        [Call ((sample_hook 80 900)\<lparr>reserve_throws := True\<rparr>) [] (sample_hook 80 900)]
        (sample_hook 64 1000)]"

lemma settled_fresh: "settled M B L (fresh_thread fid existing)"
  using tracer_ok_fresh [of fid existing]
  by (auto intro!: settledI simp: fresh_thread_def levels_agree_empty strictly_ordered_def)

lemma unknown_on_stack: "on_thread_stack unknown_bounds p"
  by (simp add: on_thread_stack_def unknown_bounds_def)

lemma sample_level: "input_level (\<lambda>_. minimum_rule) (sample_hook callee frame) = frame + 24"
  by (simp add: input_level_def sample_hook_def minimum_rule_def apply_level_rule_def MIN_LEVEL_DISTANCE_def)

lemma sample_hook_returns:
  assumes "callee + 8 \<noteq> 0" "callee + 8 \<noteq> 129" "frame + 24 < L"
  shows "returns_normally (\<lambda>_. minimum_rule) unknown_bounds L (sample_hook callee frame) (sample_hook callee frame)"
proof -
  have "truthful (\<lambda>_. minimum_rule) unknown_bounds (sample_hook callee frame)"
    using assms(1) by (simp add: truthful_def sample_hook_def plain_levels_def measured_rule_def
        measure_level_rule_def minimum_rule_def Let_def)
  moreover have "bounds_reported None = unknown_bounds"
    by (simp add: bounds_reported_def resolve_thread_stack_bounds_def fresh_thread_def)
  moreover have "hi_stack (sample_hook callee frame) = None" "hi_caller (sample_hook callee frame) = 129"
    "hook_site (sample_hook callee frame) = callee + 8"
    by (simp_all add: sample_hook_def)
  ultimately show ?thesis
    using assms(2,3) by (simp add: returns_normally_def enters_def sample_level unknown_on_stack)
qed

text \<open>What the levels do not depend on.\<close>

lemma returns_updates [simp]:
  "returns_normally M B L (i\<lparr>reserve_throws := b\<rparr>) e = returns_normally M B L i e"
  "returns_normally M B L i (e\<lparr>uncaught_exceptions := u\<rparr>) = returns_normally M B L i e"
  "returns_normally M B L i (e\<lparr>steady_now := s\<rparr>) = returns_normally M B L i e"
  "input_level M (i\<lparr>reserve_throws := b\<rparr>) = input_level M i"
  by (simp_all add: returns_normally_def enters_def truthful_def input_level_def)

lemma sample_calls_return: "all_return (\<lambda>_. minimum_rule) unknown_bounds 2000 sample_calls"
  by (simp add: sample_calls_def sample_hook_returns sample_level)

theorem balanced_calls_restore_witness:
  "case run_calls sample_config sample_calls
          (empty_caches, initial_globals\<lparr>trace_ready := True\<rparr>, fresh_thread 0 []) of (c', g', t') \<Rightarrow>
     frames t' = [] \<and> current_stack_depth t' = - 1 \<and>
     frame_overflow_count t' = 0 \<and> \<not> in_instrumentation t'"
  using balanced_calls_restore [where t = "fresh_thread 0 []",
      OF settled_fresh sample_calls_return,
      where cfg = sample_config and c = empty_caches and g = "initial_globals\<lparr>trace_ready := True\<rparr>"]
  by (simp add: fresh_thread_def)

end
