(* ===== verification/TraceText.thy ===== *)
theory TraceText
  imports TracePatches BalancedCalls
begin

text \<open>
  The text of a trace. For a tree of calls that return, in which no output fails, the bytes appended to
  the thread's file are those of an abstract writer that knows neither records nor patches: one
  finished line per resolved call, in order and indented by its nesting.
\<close>

section \<open>Writing inside a line\<close>

lemma pwrite_mid:
  "length b = length b' \<Longrightarrow> pwrite_at (a @ b @ c) (length a) b' = a @ b' @ c"
  by (simp add: pwrite_at_def)

lemma pwrite_byte: "off < length l \<Longrightarrow> pwrite_at l off [c] = l[off := c]"
  by (simp add: pwrite_at_def upd_conv_take_nth_drop)

lemma pwrite_byte_at: "pwrite_at f off [c] ! off = c"
proof -
  have "length (take off (f @ replicate (off - length f) NUL)) = off" by simp
  then show ?thesis unfolding pwrite_at_def by (metis append_Cons nth_append_length)
qed

lemma pwrite_shifted:
  assumes "off + length bs \<le> length line"
  shows "pwrite_at (pre @ line @ post) (length pre + off) bs = pre @ pwrite_at line off bs @ post"
  using assms by (simp add: pwrite_at_def)

section \<open>The layout of a line\<close>

lemma put_clamped_split: "put_clamped text st = fst st @ put_clamped text ([], snd st)"
  by (simp add: put_clamped_def Let_def)

text \<open>A line whose prefix and tree fit: what follows the tree depends on the splice's length only.\<close>

lemma format_into_layout:
  assumes "capacity_ok cap" "call_site_text v = Some site"
    and "length (prefix_text (timestamp v) after (callee_address v)) + 3 * nat depth < cap"
  shows "the (format_into cap v depth after True) =
    prefix_text (timestamp v) after (callee_address v) @ glyph_text depth @
    put_clamped site ([], int cap -
      int (length (prefix_text (timestamp v) after (callee_address v)) + 3 * nat depth)) @ [newline]"
proof -
  let ?st = "call_line_start cap v depth after"
  have f: "fst ?st = prefix_text (timestamp v) after (callee_address v) @ glyph_text depth"
    by (rule call_line_start_fits [OF assms(1,3)])
  have "snd ?st = int cap - int (length (fst ?st))"
    using call_line_start_ok [OF assms(1), of v depth after] by (simp add: line_ok_def)
  then have "put_clamped site ?st = (prefix_text (timestamp v) after (callee_address v) @ glyph_text depth) @
      put_clamped site ([], int cap -
      int (length (prefix_text (timestamp v) after (callee_address v)) + 3 * nat depth))"
    by (subst put_clamped_split) (simp add: f length_glyph_text)
  then show ?thesis by (simp add: format_into_start [OF assms(1)] assms(2))
qed

section \<open>The finished line of a call\<close>

text \<open>
  What the line of a call reads after the call returned: its duration in the place of the
  placeholder, and the mark of an exception in the places of the flag and of the glyph.
\<close>

definition thrown :: "config \<Rightarrow> hook_input \<Rightarrow> hook_input \<Rightarrow> bool" where
  "thrown cfg i e \<longleftrightarrow> log_exceptions cfg \<and> uncaught_exceptions e > uncaught_exceptions i"

definition duration_column :: "config \<Rightarrow> hook_input \<Rightarrow> hook_input \<Rightarrow> string" where
  "duration_column cfg i e =
     (let field = format_duration_12chars (of_int (max 0 (steady_now e - steady_now i)))
      in if thrown cfg i e then set_duration_flag field FRAME_END_EXCEPTION else field)"

definition finished_line ::
    "config \<Rightarrow> hook_input \<Rightarrow> hook_input \<Rightarrow> resolved_frame_view \<Rightarrow> string \<Rightarrow> int \<Rightarrow> string" where
  "finished_line cfg i e v now depth =
     (let line = the (format_into FORMAT_BUF_SIZE (v\<lparr>timestamp := now\<rparr>) depth
                   (if log_elapsed cfg then duration_column cfg i e @ '' '' else []) True)
      in if thrown cfg i e \<and> 1 \<le> depth
         then line[tree_glyph_offset depth (LINE_PREFIX_EXTRA cfg) := FRAME_END_EXCEPTION] else line)"

lemma length_duration_column [simp]: "length (duration_column cfg i e) = DURATION_FIELD_WIDTH"
  by (simp add: duration_column_def set_duration_flag_def length_format_duration Let_def)

lemma line_room:
  assumes "loggable cfg v" "length now = PRETTY_TIME_LENGTH"
    and "tree_glyph_offset depth (LINE_PREFIX_EXTRA cfg) + 3 < FORMAT_BUF_SIZE"
    and "length sp = length (DURATION_SPLICE cfg)"
  shows "length (prefix_text now sp (callee_address v)) + 3 * nat depth < FORMAT_BUF_SIZE"
    and "length (prefix_text now sp (callee_address v)) = TIMESTAMP_PREFIX_WIDTH + LINE_PREFIX_EXTRA cfg"
  using assms(3,4) length_prefix [OF assms(1,2)]
  by (auto simp: prefix_text_def tree_glyph_offset_def width_defs)

text \<open>The same line with another splice of the same length.\<close>

lemma line_with_splice:
  assumes "loggable cfg v" "length now = PRETTY_TIME_LENGTH"
    and "tree_glyph_offset depth (LINE_PREFIX_EXTRA cfg) + 3 < FORMAT_BUF_SIZE"
  obtains rest where
    "\<And>sp. length sp = length (DURATION_SPLICE cfg) \<Longrightarrow>
       the (format_into FORMAT_BUF_SIZE (v\<lparr>timestamp := now\<rparr>) depth sp True) =
         (''['' @ now @ ''] '') @ sp @ address_text (callee_address v) @ glyph_text depth @ rest"
    "rest \<noteq> []"
proof -
  obtain site where site: "call_site_text (v\<lparr>timestamp := now\<rparr>) = Some site"
    using assms(1) by (auto simp: loggable_def call_site_text_def)
  have timestamp_now: "timestamp (v\<lparr>timestamp := now\<rparr>) = now"
    "callee_address (v\<lparr>timestamp := now\<rparr>) = callee_address v" by simp_all
  define rest where "rest = put_clamped site ([], int FORMAT_BUF_SIZE -
      int (TIMESTAMP_PREFIX_WIDTH + LINE_PREFIX_EXTRA cfg + 3 * nat depth)) @ [newline]"
  show thesis
  proof (rule that)
    fix sp :: string assume s: "length sp = length (DURATION_SPLICE cfg)"
    note r = line_room [OF assms s]
    show "the (format_into FORMAT_BUF_SIZE (v\<lparr>timestamp := now\<rparr>) depth sp True) =
         (''['' @ now @ ''] '') @ sp @ address_text (callee_address v) @ glyph_text depth @ rest"
      using format_into_layout [OF capacity_ok_buf site, of sp depth] r(1)
      by (simp only: timestamp_now r(2) rest_def) (simp add: prefix_text_def)
  qed (simp add: rest_def)
qed

text \<open>The two patches of an exit turn the written line into the finished one.\<close>

lemma duration_patch:
  assumes "loggable cfg v" "length now = PRETTY_TIME_LENGTH" "log_elapsed cfg"
    and "tree_glyph_offset depth (LINE_PREFIX_EXTRA cfg) + 3 < FORMAT_BUF_SIZE"
    and "length field = DURATION_FIELD_WIDTH"
  shows "pwrite_at (call_line cfg v now depth) PLACEHOLDER_OFFSET_IN_LINE field =
      the (format_into FORMAT_BUF_SIZE (v\<lparr>timestamp := now\<rparr>) depth (field @ '' '') True)"
    and "PLACEHOLDER_OFFSET_IN_LINE + DURATION_FIELD_WIDTH \<le> length (call_line cfg v now depth)"
proof -
  obtain rest where l: "\<And>sp. length sp = length (DURATION_SPLICE cfg) \<Longrightarrow>
       the (format_into FORMAT_BUF_SIZE (v\<lparr>timestamp := now\<rparr>) depth sp True) =
         (''['' @ now @ ''] '') @ sp @ address_text (callee_address v) @ glyph_text depth @ rest"
    using line_with_splice [OF assms(1,2,4)] by metis
  have s: "DURATION_SPLICE cfg = DURATION_PLACEHOLDER @ '' ''"
    using assms(3) by (simp add: DURATION_SPLICE_def DURATION_PLACEHOLDER_def)
  have p: "length DURATION_PLACEHOLDER = DURATION_FIELD_WIDTH"
    by (simp add: DURATION_PLACEHOLDER_def width_defs)
  have a: "length (''['' @ now @ ''] '') = PLACEHOLDER_OFFSET_IN_LINE"
    using assms(2) by (simp add: width_defs)
  have line: "call_line cfg v now depth = (''['' @ now @ ''] '') @ DURATION_PLACEHOLDER @
      ('' '' @ address_text (callee_address v) @ glyph_text depth @ rest)"
    unfolding call_line_def using l [OF refl] by (simp add: s)
  have "length DURATION_PLACEHOLDER = length field" using p assms(5) by simp
  from pwrite_mid [OF this, of "''['' @ now @ ''] ''"]
  show "pwrite_at (call_line cfg v now depth) PLACEHOLDER_OFFSET_IN_LINE field =
      the (format_into FORMAT_BUF_SIZE (v\<lparr>timestamp := now\<rparr>) depth (field @ '' '') True)"
    using l [of "field @ '' ''"] p assms(5) by (simp only: line a) (simp add: s)
  show "PLACEHOLDER_OFFSET_IN_LINE + DURATION_FIELD_WIDTH \<le> length (call_line cfg v now depth)"
    unfolding line a [symmetric] p [symmetric] by simp
qed

lemma glyph_inside:
  assumes "loggable cfg v" "length now = PRETTY_TIME_LENGTH" "1 \<le> depth"
    and "tree_glyph_offset depth (LINE_PREFIX_EXTRA cfg) + 3 < FORMAT_BUF_SIZE"
    and "length sp = length (DURATION_SPLICE cfg)"
  shows "tree_glyph_offset depth (LINE_PREFIX_EXTRA cfg) <
    length (the (format_into FORMAT_BUF_SIZE (v\<lparr>timestamp := now\<rparr>) depth sp True))"
proof -
  obtain rest where l: "\<And>sp. length sp = length (DURATION_SPLICE cfg) \<Longrightarrow>
       the (format_into FORMAT_BUF_SIZE (v\<lparr>timestamp := now\<rparr>) depth sp True) =
         (''['' @ now @ ''] '') @ sp @ address_text (callee_address v) @ glyph_text depth @ rest"
    using line_with_splice [OF assms(1,2,4)] by metis
  show ?thesis
    using l [OF assms(5)] line_room(2) [OF assms(1,2,4,5)] assms(3)
    by (simp add: prefix_text_def len_simps tree_glyph_offset_def width_defs)
qed

section \<open>The text a tree of calls must leave\<close>

text \<open>
  What the text depends on: whether the file was opened, the thread's id, the resolver's caches and
  the cached second. There are no records, no levels, no cursor and no patches here.
\<close>

record writer =
  w_open :: bool
  w_tid :: int
  w_caches :: caches
  w_fronts :: fronts
  w_time :: time_cache

definition opening_text :: "open_input \<Rightarrow> writer \<Rightarrow> string \<times> writer" where
  "opening_text io w =
     (if w_open w then ([], w)
      else let tid = (if w_tid w = 0 then io_gettid io else w_tid w);
               (now, tc) = pretty_time (io_render io) (w_time w) (io_clock io)
           in (header_text now tid, w\<lparr>w_open := True, w_tid := tid, w_time := tc\<rparr>))"

definition answer_for :: "hook_input \<Rightarrow> writer \<Rightarrow> resolved_frame_view option \<times> writer" where
  "answer_for i w =
     (let r = hi_resolver i
      in if resolve_throws r then (None, w\<lparr>w_caches := in_interfere r (w_caches w)\<rparr>)
         else let (view, c, f, acts) = resolve (in_world r) (in_interfere r) (w_caches w) (w_fronts w)
                                         (hi_callee i) (hi_caller i) empty_view
              in (view, w\<lparr>w_caches := c, w_fronts := f\<rparr>))"

text \<open>Each call resolved leaves its finished line, one level deeper than its parent's, before its calls' lines.\<close>

fun expected_text :: "config \<Rightarrow> int \<Rightarrow> call list \<Rightarrow> writer \<Rightarrow> string \<times> writer" where
  "expected_text cfg depth [] w = ([], w)"
| "expected_text cfg depth (Call i inner e # rest) w =
     (let (header, w) = opening_text (hi_open i) w;
          (view, w) = answer_for i w;
          (line, inner_depth, w) =
            (case view of
               None \<Rightarrow> ([], depth, w)
             | Some v \<Rightarrow>
                 let (now, tc) = pretty_time_into (io_render (hi_open i)) (w_time w)
                                   PRETTY_TIME_BUF_SIZE (hi_clock i)
                 in (finished_line cfg i e v now (depth + 1), depth + 1, w\<lparr>w_time := tc\<rparr>));
          (body, w) = expected_text cfg inner_depth inner w;
          (more, w) = expected_text cfg depth rest w
      in (header @ line @ body @ more, w))"

section \<open>Runs nothing fails in\<close>

definition opens_well :: "open_input \<Rightarrow> bool" where
  "opens_well io \<longleftrightarrow> timed_io io \<and> \<not> io_path_throws io \<and> io_open io \<and> io_fdopen io \<and> io_reopen io \<and>
     io_seekable io \<and> \<not> io_push_throws io"

fun undisturbed :: "config \<Rightarrow> int \<Rightarrow> call list \<Rightarrow> bool" where
  "undisturbed cfg depth [] = True"
| "undisturbed cfg depth (Call i inner e # rest) =
     (timed_hook cfg i \<and> opens_well (hi_open i) \<and> \<not> reserve_throws i \<and> hi_write i = Wrote_line \<and>
      tree_glyph_offset (depth + 1) (LINE_PREFIX_EXTRA cfg) + 3 < FORMAT_BUF_SIZE \<and>
      undisturbed cfg (depth + 1) inner \<and> undisturbed cfg depth rest)"

lemma glyph_offset_mono: "d' \<le> d \<Longrightarrow> tree_glyph_offset d' extra \<le> tree_glyph_offset d extra"
  by (auto simp: tree_glyph_offset_def width_defs)

lemma undisturbed_down: "undisturbed cfg d calls \<Longrightarrow> d' \<le> d \<Longrightarrow> undisturbed cfg d' calls"
proof (induction cfg d calls arbitrary: d' rule: undisturbed.induct)
  case (2 cfg d i inner e rest)
  then show ?case using glyph_offset_mono [of "d' + 1" "d + 1" "LINE_PREFIX_EXTRA cfg"] by auto
qed simp

text \<open>The state of a thread whose file is as the text says.\<close>

definition writes :: "config \<Rightarrow> caches \<Rightarrow> trace_globals \<Rightarrow> thread_state \<Rightarrow> writer \<Rightarrow> bool" where
  "writes cfg c g t w \<longleftrightarrow>
     trace_ready g \<and> \<not> shutdown_complete g \<and> frame_overflow_count t = 0 \<and>
     open_attempted t = w_open w \<and> cached_tid t = w_tid w \<and> c = w_caches w \<and>
     thread_fronts t = w_fronts w \<and> thread_time t = w_time w \<and> time_shape (w_time w) \<and>
     cursor_valid t \<and>
     (w_open w \<longrightarrow> trace_fp t \<and>
        (line_patching cfg \<longrightarrow> patch_fd t \<and> cursor t = int (length (file_bytes t))))"

lemma writes_open:
  assumes "writes cfg c g t w" "opens_well io"
    and "get_thread_fp cfg io g t = (threw, fp, g', t')"
    and "opening_text io w = (header, w')"
  shows "\<not> threw \<and> fp \<and> writes cfg c g' t' w' \<and> w_open w' \<and> file_bytes t' = file_bytes t @ header \<and>
    current_stack_depth t' = current_stack_depth t \<and> frames_capacity t' = frames_capacity t"
proof (cases "w_open w")
  case True
  then show ?thesis
    using assms by (auto simp: writes_def get_thread_fp_def opening_text_def)
next
  case False
  obtain now tc where now: "pretty_time (io_render io) (w_time w) (io_clock io) = (now, tc)"
    by fastforce
  have "time_shape tc"
    using time_shape_pretty_time [of "w_time w" "io_render io" "io_clock io"] assms(1,2) now
    by (simp add: writes_def opens_well_def timed_io_def)
  then show ?thesis
    using False assms now
    by (auto simp: writes_def get_thread_fp_def opening_text_def opens_well_def timed_io_def
        open_this_thread_file_def current_tid_def write_run_separator_header_def seed_cursor_def
        register_file_def Let_def split: if_splits)
qed

lemma writes_answer:
  assumes "writes cfg c g t w" "resolve_for_hook i c t = (view, c', t')" "answer_for i w = (view', w')"
  shows "view' = view \<and> writes cfg c' g t' w' \<and> w_open w' = w_open w \<and> file_bytes t' = file_bytes t \<and>
    current_stack_depth t' = current_stack_depth t"
  using assms by (auto simp: writes_def resolve_for_hook_def answer_for_def Let_def split: if_splits prod.splits)

text \<open>What the text does not see.\<close>

lemma writes_hook_level [simp]: "writes cfg c g (snd (hook_level i t)) w = writes cfg c g t w"
  "file_bytes (snd (hook_level i t)) = file_bytes t"
  "current_stack_depth (snd (hook_level i t)) = current_stack_depth t"
  by (simp_all add: writes_def hook_level_def case_prod_beta Let_def)

lemma writes_bounds [simp]: "writes cfg c g (resolve_thread_stack_bounds s t) w = writes cfg c g t w"
  "file_bytes (resolve_thread_stack_bounds s t) = file_bytes t"
  "current_stack_depth (resolve_thread_stack_bounds s t) = current_stack_depth t"
  by (simp_all add: writes_def resolve_thread_stack_bounds_def Let_def split: option.split)

lemma writes_fields [simp]:
  "writes cfg c g (t\<lparr>in_instrumentation := b\<rparr>) w = writes cfg c g t w"
  "writes cfg c g (t\<lparr>frames_capacity := n\<rparr>) w = writes cfg c g t w"
  "writes cfg c g (t\<lparr>frames := rs\<rparr>) w = writes cfg c g t w"
  "writes cfg c g (t\<lparr>current_stack_depth := d\<rparr>) w = writes cfg c g t w"
  by (simp_all add: writes_def)

lemma writes_make_room [simp]: "writes cfg c g (snd (make_room i t)) w = writes cfg c g t w"
  "file_bytes (snd (make_room i t)) = file_bytes t"
  "current_stack_depth (snd (make_room i t)) = current_stack_depth t"
  by (simp_all add: make_room_def)

lemma writes_push [simp]:
  "writes cfg c g (push_record cfg i key b base st t) w = writes cfg c g t w"
  "file_bytes (push_record cfg i key b base st t) = file_bytes t"
  "current_stack_depth (push_record cfg i key b base st t) = current_stack_depth t"
  "frames (push_record cfg i key b base st t) = frames t @ [new_record cfg i key b base st t]"
  by (simp_all add: push_record_def)

section \<open>An enter writes the pending line\<close>

text \<open>What the record of a written line remembers.\<close>

definition pending_record :: "config \<Rightarrow> hook_input \<Rightarrow> int \<Rightarrow> nat \<Rightarrow> frame_record \<Rightarrow> bool" where
  "pending_record cfg i depth start r \<longleftrightarrow>
     logged r \<and>
     (log_exceptions cfg \<longrightarrow> uncaught_at_enter r = uncaught_exceptions i) \<and>
     (log_elapsed cfg \<longrightarrow> enter_time r = steady_now i) \<and>
     (line_patching cfg \<longrightarrow> line_start r = int start \<and> line_depth r = depth)"

definition entered ::
    "config \<Rightarrow> hook_input \<Rightarrow> caches \<Rightarrow> trace_globals \<Rightarrow> thread_state \<Rightarrow> thread_state
       \<Rightarrow> resolved_frame_view option \<Rightarrow> writer \<Rightarrow> string \<Rightarrow> bool" where
  "entered cfg i c' g' t t' view w header \<longleftrightarrow>
     (case view of
        None \<Rightarrow>
          writes cfg c' g' t' w \<and> file_bytes t' = file_bytes t @ header \<and>
          current_stack_depth t' = current_stack_depth t \<and>
          (\<exists>r. frames t' = frames t @ [r] \<and> \<not> logged r)
      | Some v \<Rightarrow>
          let (now, tc) = pretty_time_into (io_render (hi_open i)) (w_time w) PRETTY_TIME_BUF_SIZE (hi_clock i);
              depth = current_stack_depth t + 1
          in loggable cfg v \<and> length now = PRETTY_TIME_LENGTH \<and> writes cfg c' g' t' (w\<lparr>w_time := tc\<rparr>) \<and>
             file_bytes t' = file_bytes t @ header @ call_line cfg v now depth \<and>
             current_stack_depth t' = depth \<and>
             (\<exists>r. frames t' = frames t @ [r] \<and>
                pending_record cfg i depth (length (file_bytes t @ header)) r))"

lemma log_call_entered:
  assumes "writes cfg c g t w" "w_open w" "timed_hook cfg i" "hi_write i = Wrote_line" "loggable cfg v"
    and "pretty_time_into (io_render (hi_open i)) (w_time w) PRETTY_TIME_BUF_SIZE (hi_clock i) = (now, tc)"
  shows "writes cfg c g (log_call cfg i v t) (w\<lparr>w_time := tc\<rparr>)" "length now = PRETTY_TIME_LENGTH"
    and "file_bytes (log_call cfg i v t) = file_bytes t @ call_line cfg v now (current_stack_depth t + 1)"
    and "current_stack_depth (log_call cfg i v t) = current_stack_depth t + 1"
    and "frames (log_call cfg i v t) = frames t"
    and "pending_record cfg i (current_stack_depth t + 1) (length (file_bytes t))
           (new_record cfg i key True base (cursor t) (log_call cfg i v t))"
proof -
  have shape: "time_shape (w_time w)" "\<forall>s. length (io_render (hi_open i) s) = 19" "0 \<le> hi_clock i"
    using assms(1,3) by (simp_all add: writes_def timed_hook_def timed_io_def)
  show "length now = PRETTY_TIME_LENGTH"
    using time_shape_step(2) [OF shape(1,2) assms(6) shape(3)] .
  have tc: "time_shape tc" by (rule time_shape_step(1) [OF shape(1,2) assms(6)])
  have l: "log_call cfg i v t = t\<lparr>thread_time := tc, current_stack_depth := current_stack_depth t + 1,
      file_bytes := file_bytes t @ call_line cfg v now (current_stack_depth t + 1),
      cursor := (if line_patching cfg
         then cursor t + int (length (call_line cfg v now (current_stack_depth t + 1))) else cursor t)\<rparr>"
    using assms(1,4,6) by (simp add: log_call_def write_line_def writes_def Let_def)
  show "file_bytes (log_call cfg i v t) = file_bytes t @ call_line cfg v now (current_stack_depth t + 1)"
    "current_stack_depth (log_call cfg i v t) = current_stack_depth t + 1"
    "frames (log_call cfg i v t) = frames t"
    by (simp_all add: l)
  show "writes cfg c g (log_call cfg i v t) (w\<lparr>w_time := tc\<rparr>)"
    using assms(1,2) tc by (simp add: writes_def l)
  show "pending_record cfg i (current_stack_depth t + 1) (length (file_bytes t))
      (new_record cfg i key True base (cursor t) (log_call cfg i v t))"
    using assms(1,2) by (simp add: pending_record_def new_record_def Let_def writes_def l)
qed

lemma enter_with_slot_text:
  assumes calm: "calm M B L t" and inp: "truthful M B i" "bounds_reported (hi_stack i) = B"
    "input_level M i < L"
    and w: "writes cfg c g t w" and ok: "timed_hook cfg i" "opens_well (hi_open i)" "hi_write i = Wrote_line"
    and step: "enter_with_slot cfg i c g t = (c', g', t')"
    and texts: "opening_text (hi_open i) w = (header, w1)" "answer_for i w1 = (view, w2)"
  shows "entered cfg i c' g' t t' view w2 header"
proof -
  let ?t1 = "snd (hook_level i (resolve_thread_stack_bounds (hi_stack i) t))"
  note r = reconcile_calm_state(1) [OF calm inp, of cfg c]
  obtain threw fp g2 t2 where f: "get_thread_fp cfg (hi_open i) g ?t1 = (threw, fp, g2, t2)"
    by (metis prod_cases4)
  have w1: "writes cfg c g ?t1 w" using w by simp
  note o = writes_open [OF w1 ok(2) f texts(1)]
  have k2: "keeps ?t1 t2" using keeps_get_thread_fp [of ?t1 cfg "hi_open i" g] f by simp
  obtain view' c3 t3 where v: "resolve_for_hook i c t2 = (view', c3, t3)" by (metis prod_cases3)
  have "writes cfg c g2 t2 w1" using o by blast
  note a = writes_answer [OF this v texts(2)]
  have k3: "keeps ?t1 t3" using keeps_trans [OF k2] keeps_resolve_for_hook [of t2 i c] v by simp
  have fr: "frames t3 = frames t" using k3 by (simp add: keeps_def)
  have ordered: "strictly_ordered (frames t3)" using calm by (simp add: fr calm_def)
  have bytes: "file_bytes t3 = file_bytes t @ header" "current_stack_depth t3 = current_stack_depth t"
    using a o by simp_all
  show ?thesis
  proof (cases view)
    case None
    then have "view' = None" using a by simp
    then have "c' = c3" "g' = g2" "t' = push_record cfg i (hook_key M i) False None 0 t3"
      using step r f v o by (simp_all add: enter_with_slot_def Let_def)
    then show ?thesis
      using None a bytes fr by (simp add: entered_def new_record_def Let_def)
  next
    case (Some x)
    then have x: "view' = Some x" using a by simp
    then have e: "c' = c3" "g' = g2"
      "t' = push_record cfg i (hook_key M i) True (callee_base_name x) (cursor t3) (log_call cfg i x t3)"
      using step r f v o by (simp_all add: enter_with_slot_def Let_def above_parent_pops_nothing [OF ordered])
    obtain now tc where now: "pretty_time_into (io_render (hi_open i)) (w_time w2)
        PRETTY_TIME_BUF_SIZE (hi_clock i) = (now, tc)" by fastforce
    have "resolved_by i x" using v x by (auto simp: resolved_by_def)
    then have x: "loggable cfg x" using resolved_loggable ok(1) by (simp add: timed_hook_def)
    have "writes cfg c3 g2 t3 w2" "w_open w2" using a o by simp_all
    note l = log_call_entered [OF this ok(1,3) x now]
    show ?thesis
      using l x bytes fr by (simp add: entered_def Some now e)
  qed
qed

lemma enter_text:
  assumes s: "settled M B L t" and inp: "enters M B L i"
    and w: "writes cfg c g t w" and ok: "timed_hook cfg i" "opens_well (hi_open i)" "hi_write i = Wrote_line"
    and room: "\<not> reserve_throws i"
    and step: "enter_hook cfg i c g t = (c', g', t')"
    and texts: "opening_text (hi_open i) w = (header, w1)" "answer_for i w1 = (view, w2)"
  shows "entered cfg i c' g' t t' view w2 header"
proof -
  define t0 where "t0 = snd (make_room i (t\<lparr>in_instrumentation := True\<rparr>))"
  have calm: "calm M B L t" and guard: "\<not> in_instrumentation t" using s by (simp_all add: settled_def)
  have no_over: "\<not> frame_overflow_count t > 0" using w by (simp add: writes_def)
  have m: "make_room i (t\<lparr>in_instrumentation := True\<rparr>) = (True, t0)"
    using room by (simp add: make_room_def t0_def)
  have t0: "frames t0 = frames t" "file_bytes t0 = file_bytes t"
    "current_stack_depth t0 = current_stack_depth t" "writes cfg c g t0 w"
    using w by (simp_all add: t0_def) (simp add: make_room_def)
  have "tracer_ok t0"
    using tracer_ok_advances [OF _ make_room_advances] calm by (simp add: calm_def t0_def)
  then have calm0: "calm M B L t0"
    using calm keeps_make_room [of "t\<lparr>in_instrumentation := True\<rparr>" i] by (simp add: calm_def keeps_def t0_def)
  have i: "truthful M B i" "bounds_reported (hi_stack i) = B" "input_level M i < L"
    using inp by (simp_all add: enters_def)
  obtain c1 g1 t1 where e: "enter_with_slot cfg i c g t0 = (c1, g1, t1)" by (metis prod_cases3)
  have "entered cfg i c1 g1 t0 t1 view w2 header"
    by (rule enter_with_slot_text [OF calm0 i t0(4) ok e texts])
  moreover have "c' = c1" "g' = g1" "t' = t1\<lparr>in_instrumentation := False\<rparr>"
    using step guard no_over m e by (simp_all add: enter_hook_def Let_def)
  ultimately show ?thesis
    using t0 by (auto simp: entered_def Let_def split: option.splits prod.splits)
qed

section \<open>An exit finishes it\<close>

lemma patch_in_line:
  assumes "patch_fd t" "file_bytes t = pre @ line @ post" "off + length bs \<le> length line"
  shows "patch_line_bytes (int (length pre)) off bs t =
    t\<lparr>file_bytes := pre @ pwrite_at line off bs @ post\<rparr>"
  using assms by (simp add: patch_line_bytes_def pwrite_shifted)

lemma mark_in_line:
  assumes "patch_fd t" "file_bytes t = pre @ line @ post" "logged r" "line_start r = int (length pre)"
    and "1 \<le> line_depth r \<Longrightarrow> tree_glyph_offset (line_depth r) (LINE_PREFIX_EXTRA cfg) < length line"
  shows "mark_frame_end cfg r how None t = t\<lparr>file_bytes := pre @
    (if 1 \<le> line_depth r then line[tree_glyph_offset (line_depth r) (LINE_PREFIX_EXTRA cfg) := how]
     else line) @ post\<rparr>"
proof (cases "1 \<le> line_depth r")
  case True
  then show ?thesis
    using assms
    by (simp add: mark_frame_end_def Let_def patch_in_line [where pre = pre and line = line and post = post]
        pwrite_byte)
next
  case False
  then show ?thesis using assms by (simp add: mark_frame_end_def Let_def)
qed

lemma exit_field_column:
  assumes "pending_record cfg i depth start r" "log_elapsed cfg"
  shows "exit_field cfg e (thrown cfg i e) r = duration_column cfg i e"
proof -
  have "elapsed_ns e r = of_int (max 0 (steady_now e - steady_now i))"
    using assms by (simp add: elapsed_ns_def pending_record_def Let_def max_def)
  then show ?thesis by (simp add: exit_field_def duration_column_def thrown_def Let_def)
qed

lemma finish_line_text:
  assumes r: "pending_record cfg i depth (length pre) r"
    and fd: "line_patching cfg \<longrightarrow> patch_fd t"
    and bytes: "file_bytes t = pre @ call_line cfg v now depth @ post"
    and v: "loggable cfg v" "length now = PRETTY_TIME_LENGTH"
    and fits: "tree_glyph_offset depth (LINE_PREFIX_EXTRA cfg) + 3 < FORMAT_BUF_SIZE"
  shows "finish_line cfg e r t = t\<lparr>file_bytes := pre @ finished_line cfg i e v now depth @ post\<rparr>"
proof -
  let ?off = "tree_glyph_offset depth (LINE_PREFIX_EXTRA cfg)"
  let ?line = "the (format_into FORMAT_BUF_SIZE (v\<lparr>timestamp := now\<rparr>) depth
      (if log_elapsed cfg then duration_column cfg i e @ '' '' else []) True)"
  let ?t = "t\<lparr>file_bytes := pre @ ?line @ post\<rparr>"
  have how: "(log_exceptions cfg \<and> uncaught_exceptions e > uncaught_at_enter r) = thrown cfg i e"
    using r by (auto simp: thrown_def pending_record_def)
  have lens: "length (if log_elapsed cfg then duration_column cfg i e @ '' '' else []) =
      length (DURATION_SPLICE cfg)"
    by (simp add: DURATION_SPLICE_def width_defs)
  have patched: "(if log_elapsed cfg then patch_line_bytes (line_start r) PLACEHOLDER_OFFSET_IN_LINE
      (take DURATION_FIELD_WIDTH (exit_field cfg e (thrown cfg i e) r)) t else t) = ?t"
  proof (cases "log_elapsed cfg")
    case True
    have "line_start r = int (length pre)" "patch_fd t"
      using r fd True by (simp_all add: pending_record_def line_patching_def)
    moreover note p = duration_patch [OF v True fits length_duration_column [of cfg i e]]
    ultimately show ?thesis
      using bytes True patch_in_line [of t pre "call_line cfg v now depth" post PLACEHOLDER_OFFSET_IN_LINE
          "duration_column cfg i e"]
      by (simp add: exit_field_column [OF r True] p)
  next
    case False
    then have "?line = call_line cfg v now depth" by (simp add: call_line_def DURATION_SPLICE_def)
    with False bytes show ?thesis by simp
  qed
  have f: "finish_line cfg e r t =
      (if thrown cfg i e then mark_frame_end cfg r FRAME_END_EXCEPTION None ?t else ?t)"
    by (simp only: finish_line_def how Let_def patched)
  show ?thesis
  proof (cases "thrown cfg i e")
    case True
    then have l: "logged r" "line_start r = int (length pre)" "line_depth r = depth" "patch_fd ?t"
      using r fd by (simp_all add: pending_record_def line_patching_def thrown_def)
    have "mark_frame_end cfg r FRAME_END_EXCEPTION None ?t = ?t\<lparr>file_bytes := pre @
        (if 1 \<le> line_depth r
         then ?line[tree_glyph_offset (line_depth r) (LINE_PREFIX_EXTRA cfg) := FRAME_END_EXCEPTION]
         else ?line) @ post\<rparr>"
      by (rule mark_in_line [OF l(4) _ l(1,2)])
        (simp_all add: l(3) glyph_inside [OF v _ fits lens])
    then show ?thesis
      by (simp only: f finished_line_def Let_def l(3) True simp_thms if_True) (simp split: if_split)
  next
    case False
    then show ?thesis by (simp add: f finished_line_def)
  qed
qed

lemma length_finished_line:
  assumes "loggable cfg v" "length now = PRETTY_TIME_LENGTH"
    and "tree_glyph_offset depth (LINE_PREFIX_EXTRA cfg) + 3 < FORMAT_BUF_SIZE"
  shows "length (finished_line cfg i e v now depth) = length (call_line cfg v now depth)"
proof -
  obtain rest where l: "\<And>sp. length sp = length (DURATION_SPLICE cfg) \<Longrightarrow>
       the (format_into FORMAT_BUF_SIZE (v\<lparr>timestamp := now\<rparr>) depth sp True) =
         (''['' @ now @ ''] '') @ sp @ address_text (callee_address v) @ glyph_text depth @ rest"
    using line_with_splice [OF assms] by metis
  have "length (if log_elapsed cfg then duration_column cfg i e @ '' '' else []) =
      length (DURATION_SPLICE cfg)"
    by (simp add: DURATION_SPLICE_def width_defs)
  from l [OF this] l [OF refl] this
  have "length (the (format_into FORMAT_BUF_SIZE (v\<lparr>timestamp := now\<rparr>) depth
      (if log_elapsed cfg then duration_column cfg i e @ '' '' else []) True)) =
    length (call_line cfg v now depth)"
    unfolding call_line_def by (simp only: length_append)
  then show ?thesis by (simp add: finished_line_def Let_def)
qed

lemma exit_pops_top:
  assumes s: "settled M B (input_level M i) t" and start: "settled M B L t0"
    and inp: "returns_normally M B L i e"
    and r: "frames t = frames t0 @ [r]" "same_activation_site r (hook_key M i)"
      "rec_level r = input_level M i" "frame_overflow_count t = 0"
  shows "exit_hook cfg e t = (pop_own_record cfg e (snd (hook_level e
    (t\<lparr>in_instrumentation := True\<rparr>))))\<lparr>in_instrumentation := False\<rparr>"
proof -
  let ?t = "t\<lparr>in_instrumentation := True\<rparr>"
  have calm: "calm M B (input_level M i) ?t" "\<not> in_instrumentation t"
    using s by (simp_all add: settled_def calm_def)
  have rs: "\<forall>x \<in> set (frames t0). L \<le> rec_level x" using start by (simp add: settled_def calm_def)
  have own: "same_activation_site r (hook_key M e)"
    using r(2) inp by (simp add: returns_normally_def same_activation_site_def hook_key_def)
  have level: "if hook_site e = hi_caller e then input_level M e = L \<and> rec_level r < L
      else input_level M e = rec_level r"
    using inp r(3) by (auto simp: returns_normally_def enters_def split: if_splits)
  have e: "truthful M B e" using inp by (simp add: returns_normally_def)
  have fr: "frames ?t = frames t0 @ [r]" using r(1) by simp
  show ?thesis
    using exit_with_record_pops(1) [OF calm(1) fr rs own e level, of cfg] calm(2) r(1,4)
    by (simp add: exit_hook_def Let_def)
qed

lemma exit_text:
  assumes s: "settled M B (input_level M i) t" and start: "settled M B L t0"
    and inp: "returns_normally M B L i e"
    and r: "frames t = frames t0 @ [r]" "same_activation_site r (hook_key M i)"
      "rec_level r = input_level M i" "frame_overflow_count t = 0"
    and w: "writes cfg c g t w" "w_open w"
  shows "\<not> logged r \<Longrightarrow> writes cfg c g (exit_hook cfg e t) w \<and>
      file_bytes (exit_hook cfg e t) = file_bytes t \<and>
      current_stack_depth (exit_hook cfg e t) = current_stack_depth t"
    and "\<lbrakk>pending_record cfg i depth (length pre) r;
      file_bytes t = pre @ call_line cfg v now depth @ post; loggable cfg v; length now = PRETTY_TIME_LENGTH;
      tree_glyph_offset depth (LINE_PREFIX_EXTRA cfg) + 3 < FORMAT_BUF_SIZE\<rbrakk> \<Longrightarrow>
      writes cfg c g (exit_hook cfg e t) w \<and>
      file_bytes (exit_hook cfg e t) = pre @ finished_line cfg i e v now depth @ post \<and>
      current_stack_depth (exit_hook cfg e t) = current_stack_depth t - 1"
proof -
  define t1 where "t1 = snd (hook_level e (t\<lparr>in_instrumentation := True\<rparr>))"
  have t1: "frames t1 = frames t0 @ [r]" "file_bytes t1 = file_bytes t"
    "current_stack_depth t1 = current_stack_depth t" "writes cfg c g t1 w"
    using r(1) w by (simp_all add: t1_def)
  have x: "exit_hook cfg e t = (pop_own_record cfg e t1)\<lparr>in_instrumentation := False\<rparr>"
    unfolding t1_def by (rule exit_pops_top [OF s start inp r])
  show "writes cfg c g (exit_hook cfg e t) w \<and> file_bytes (exit_hook cfg e t) = file_bytes t \<and>
      current_stack_depth (exit_hook cfg e t) = current_stack_depth t" if "\<not> logged r"
    using that t1 by (simp add: x pop_own_record_def Let_def)
  assume p: "pending_record cfg i depth (length pre) r" and b: "file_bytes t = pre @ call_line cfg v now depth @ post"
    and v: "loggable cfg v" "length now = PRETTY_TIME_LENGTH"
      "tree_glyph_offset depth (LINE_PREFIX_EXTRA cfg) + 3 < FORMAT_BUF_SIZE"
  let ?t2 = "t1\<lparr>frames := frames t0, current_stack_depth := current_stack_depth t1 - 1\<rparr>"
  have fd: "line_patching cfg \<longrightarrow> patch_fd ?t2" using t1(4) w(2) by (simp add: writes_def)
  have b2: "file_bytes ?t2 = pre @ call_line cfg v now depth @ post" using t1 b by simp
  note f = finish_line_text [OF p fd b2 v, of e]
  have o: "pop_own_record cfg e t1 = ?t2\<lparr>file_bytes := pre @ finished_line cfg i e v now depth @ post\<rparr>"
    using p t1(1) f by (simp add: pop_own_record_def Let_def pending_record_def)
  show "writes cfg c g (exit_hook cfg e t) w \<and>
      file_bytes (exit_hook cfg e t) = pre @ finished_line cfg i e v now depth @ post \<and>
      current_stack_depth (exit_hook cfg e t) = current_stack_depth t - 1"
    using t1 b length_finished_line [OF v, of i e] by (simp add: x o writes_def)
qed

section \<open>Whole trees\<close>

lemma opening_opens: "opening_text io w = (header, w1) \<Longrightarrow> w_open w1"
  by (auto simp: opening_text_def Let_def split: if_splits prod.splits)

lemma answer_keeps_open: "answer_for i w = (view, w1) \<Longrightarrow> w_open w1 = w_open w"
  by (auto simp: answer_for_def Let_def split: if_splits prod.splits)

text \<open>The record an enter pushed, whichever way it is described.\<close>

lemma entered_record:
  assumes "entered cfg i c' g' t t' view w header"
    and "(frames t' = frames t \<and> frame_overflow_count t' = frame_overflow_count t + 1) \<or>
     (\<exists>r. frames t' = frames t @ [r] \<and> same_activation_site r (hook_key M i) \<and>
        rec_level r = input_level M i \<and> frame_overflow_count t = 0 \<and> frame_overflow_count t' = 0)"
  obtains r where "frames t' = frames t @ [r]" "same_activation_site r (hook_key M i)"
    "rec_level r = input_level M i" "frame_overflow_count t' = 0"
    "view = None \<Longrightarrow> \<not> logged r"
    "\<And>v. view = Some v \<Longrightarrow> pending_record cfg i (current_stack_depth t + 1) (length (file_bytes t @ header)) r"
proof -
  obtain r where r: "frames t' = frames t @ [r]"
    "view = None \<Longrightarrow> \<not> logged r"
    "\<And>v. view = Some v \<Longrightarrow> pending_record cfg i (current_stack_depth t + 1) (length (file_bytes t @ header)) r"
    using assms(1) by (cases view) (auto simp: entered_def Let_def split: prod.splits)
  then show thesis using assms(2) that [of r] by auto
qed

lemma run_calls_text:
  "\<lbrakk>run_calls cfg calls (c, g, t) = (c', g', t'); settled M B L t; all_return M B L calls;
    writes cfg c g t w; undisturbed cfg (current_stack_depth t) calls;
    expected_text cfg (current_stack_depth t) calls w = (out, w')\<rbrakk> \<Longrightarrow>
   writes cfg c' g' t' w' \<and> file_bytes t' = file_bytes t @ out \<and>
   current_stack_depth t' = current_stack_depth t \<and> (w_open w \<longrightarrow> w_open w')"
proof (induction cfg calls "(c, g, t)" arbitrary: c g t c' g' t' L w out w' rule: run_calls.induct)
  case (2 cfg i inner e rest)
  let ?d = "current_stack_depth t"
  obtain c1 g1 t1 where enter: "enter_hook cfg i c g t = (c1, g1, t1)" by (metis prod_cases3)
  obtain c2 g2 t2 where inside: "run_calls cfg inner (c1, g1, t1) = (c2, g2, t2)"
    by (metis prod_cases3)
  have inp: "returns_normally M B L i e" and all: "all_return M B (input_level M i) inner"
    "all_return M B L rest" using "2.prems"(3) by simp_all
  have ok: "timed_hook cfg i" "opens_well (hi_open i)" "hi_write i = Wrote_line" "\<not> reserve_throws i"
    "tree_glyph_offset (?d + 1) (LINE_PREFIX_EXTRA cfg) + 3 < FORMAT_BUF_SIZE"
    "undisturbed cfg (?d + 1) inner" "undisturbed cfg ?d rest"
    using "2.prems"(5) by simp_all
  obtain header w1 where o: "opening_text (hi_open i) w = (header, w1)" by fastforce
  obtain view w2 where a: "answer_for i w1 = (view, w2)" by fastforce
  have w2: "w_open w2" using opening_opens [OF o] answer_keeps_open [OF a] by simp
  note en = enter_hook_settled [OF "2.prems"(2) returns_enters [OF inp] enter]
  note ent = enter_text [OF "2.prems"(2) returns_enters [OF inp] "2.prems"(4) ok(1-4) enter o a]
  obtain r where r: "frames t1 = frames t @ [r]" "same_activation_site r (hook_key M i)"
    "rec_level r = input_level M i" "frame_overflow_count t1 = 0"
    "view = None \<Longrightarrow> \<not> logged r"
    "\<And>v. view = Some v \<Longrightarrow> pending_record cfg i (?d + 1) (length (file_bytes t @ header)) r"
    using entered_record [OF ent en(2)] by blast
  have mid: "settled M B (input_level M i) t2" "frames t2 = frames t @ [r]" "frame_overflow_count t2 = 0"
    using run_calls_settled [OF inside en(1) all(1)] r by simp_all
  have ex: "settled M B L (exit_hook cfg e t2)"
    using exit_hook_settled [OF mid(1) "2.prems"(2) inp] mid r "2.prems"(4) by (simp add: writes_def)
  have ins: "(c2, g2, t2) = run_calls cfg inner (enter_hook cfg i c g t)" by (simp add: enter inside)
  have after: "run_calls cfg rest (c2, g2, exit_hook cfg e t2) = (c', g', t')"
    using "2.prems"(1) by (simp add: enter inside)
  have rest: "writes cfg c' g' t' w' \<and> file_bytes t' = file_bytes t @ (header @ line @ body) @ more \<and>
      current_stack_depth t' = ?d \<and> w_open w'"
    if "writes cfg c2 g2 (exit_hook cfg e t2) w4" "w_open w4"
      "file_bytes (exit_hook cfg e t2) = file_bytes t @ header @ line @ body"
      "current_stack_depth (exit_hook cfg e t2) = ?d"
      "expected_text cfg ?d rest w4 = (more, w')" for w4 line body more
    using "2.hyps"(2) [OF refl refl refl refl ins refl after ex all(2) that(1)] that ok(7) by simp
  show ?case
  proof (cases view)
    case None
    obtain body w4 where b: "expected_text cfg ?d inner w2 = (body, w4)" by fastforce
    obtain more where m: "expected_text cfg ?d rest w4 = (more, w')" "out = header @ body @ more"
      using "2.prems"(6) by (auto simp: o a None b split: prod.splits)
    have t1: "writes cfg c1 g1 t1 w2" "file_bytes t1 = file_bytes t @ header" "current_stack_depth t1 = ?d"
      using ent by (simp_all add: entered_def None)
    have "undisturbed cfg ?d inner" by (rule undisturbed_down [OF ok(6)]) simp
    then have i: "writes cfg c2 g2 t2 w4" "file_bytes t2 = file_bytes t1 @ body"
      "current_stack_depth t2 = ?d" "w_open w4"
      using "2.hyps"(1) [OF refl refl refl enter inside en(1) all(1) t1(1)] w2 b t1(3) by simp_all
    note x = exit_text(1) [OF mid(1) "2.prems"(2) inp mid(2) r(2,3) mid(3) i(1,4) r(5) [OF None]]
    from rest [of w4 "[]" body more] x i t1 m show ?thesis by simp
  next
    case (Some v)
    obtain now tc where now: "pretty_time_into (io_render (hi_open i)) (w_time w2)
        PRETTY_TIME_BUF_SIZE (hi_clock i) = (now, tc)" by fastforce
    let ?w3 = "w2\<lparr>w_time := tc\<rparr>"
    obtain body w4 where b: "expected_text cfg (?d + 1) inner ?w3 = (body, w4)" by fastforce
    obtain more where m: "expected_text cfg ?d rest w4 = (more, w')"
      "out = header @ finished_line cfg i e v now (?d + 1) @ body @ more"
      using "2.prems"(6) by (auto simp: o a Some b now split: prod.splits)
    have t1: "writes cfg c1 g1 t1 ?w3"
      "file_bytes t1 = file_bytes t @ header @ call_line cfg v now (?d + 1)"
      "current_stack_depth t1 = ?d + 1" "loggable cfg v" "length now = PRETTY_TIME_LENGTH"
      using ent by (simp_all add: entered_def Some now Let_def)
    have i: "writes cfg c2 g2 t2 w4" "file_bytes t2 = file_bytes t1 @ body"
      "current_stack_depth t2 = ?d + 1" "w_open w4"
      using "2.hyps"(1) [OF refl refl refl enter inside en(1) all(1) t1(1)] w2 b t1(3) ok(6) by simp_all
    have bytes: "file_bytes t2 = (file_bytes t @ header) @ call_line cfg v now (?d + 1) @ body"
      using i t1 by simp
    note x = exit_text(2) [OF mid(1) "2.prems"(2) inp mid(2) r(2,3) mid(3) i(1,4) r(6) [OF Some]
        bytes t1(4,5) ok(5)]
    from rest [of w4 "finished_line cfg i e v now (?d + 1)" body more] x i m show ?thesis by simp
  qed
qed simp

section \<open>Property\<close>

text \<open>A thread that has not run yet, with what its file holds from an earlier run.\<close>

definition first_writer :: "caches \<Rightarrow> writer" where
  "first_writer c = \<lparr>w_open = False, w_tid = 0, w_caches = c, w_fronts = empty_fronts,
     w_time = zero_time_cache\<rparr>"

lemma writes_fresh:
  "trace_ready g \<Longrightarrow> \<not> shutdown_complete g \<Longrightarrow> writes cfg c g (fresh_thread fid existing) (first_writer c)"
  by (simp add: writes_def fresh_thread_def first_writer_def time_shape_def zero_time_cache_def)

text \<open>
  C1. The trace is the call tree: a tree of calls that return appends to the thread's file exactly the
  expected text: the header when the file is opened by one of them, then one line per resolved call,
  in the order of the calls, at the depth of the call among resolved calls, and each with its
  duration and the mark of an exception that left it, in place of the placeholder written when it
  was entered. The conditions: (levels) the thread is between two calls, every frame lies strictly
  below its caller's and on the thread's stack, so no call is inlined into its caller's frame, the
  unwinder measures each site's own rule, and both hooks of a call name the same callee and caller;
  (state) the tracer is started and not shut down, no frame was counted without a record, and a file
  that is open already has a valid cursor at its end and, where lines are patched, its patch
  descriptor; (environment) times are those of C6, opening, reopening, header, registration, memory
  for records and the writes of lines succeed, while a lookup may fail and leaves its call without
  a line; (depth) the tree of every line fits it: \<open>tree_glyph_offset (depth + 1) + 3\<close> is less than
  \<open>FORMAT_BUF_SIZE\<close> at every call (C40 has what happens beyond).
\<close>

theorem trace_is_call_tree:
  assumes "settled M B L t" "all_return M B L calls" "undisturbed cfg (current_stack_depth t) calls"
    and "writes cfg c g t w"
  shows "case run_calls cfg calls (c, g, t) of (c', g', t') \<Rightarrow>
    file_bytes t' = file_bytes t @ fst (expected_text cfg (current_stack_depth t) calls w) \<and>
    writes cfg c' g' t' (snd (expected_text cfg (current_stack_depth t) calls w))"
proof -
  obtain c' g' t' where "run_calls cfg calls (c, g, t) = (c', g', t')" by (metis prod_cases3)
  from run_calls_text [OF this assms(1,2,4,3) prod.collapse [symmetric]] this show ?thesis by simp
qed

definition sample_tree :: "call list" where
  "sample_tree =
     [Call (sample_hook 64 1000)
        [Call (sample_hook 80 900) [] ((sample_hook 80 900)\<lparr>uncaught_exceptions := 1\<rparr>)]
        ((sample_hook 64 1000)\<lparr>steady_now := 1500\<rparr>)]"

lemma sample_undisturbed: "undisturbed sample_config (- 1) sample_tree"
proof -
  have "timed_hook sample_config (sample_hook a b)" "opens_well (hi_open (sample_hook a b))"
    "\<not> reserve_throws (sample_hook a b)" "hi_write (sample_hook a b) = Wrote_line" for a b
    by (simp_all add: timed_hook_def timed_io_def opens_well_def sample_hook_def sample_io_def
        sample_config_def named_world_def sample_world_def)
  moreover have "LINE_PREFIX_EXTRA sample_config = 13"
    by (simp add: LINE_PREFIX_EXTRA_def sample_config_def width_defs)
  ultimately show ?thesis by (simp add: sample_tree_def tree_glyph_offset_def width_defs)
qed

theorem trace_is_call_tree_witness:
  "case run_calls sample_config sample_tree
          (empty_caches, initial_globals\<lparr>trace_ready := True\<rparr>, fresh_thread 0 ''old'') of (c', g', t') \<Rightarrow>
     file_bytes t' = file_bytes (fresh_thread 0 ''old'') @
       fst (expected_text sample_config (current_stack_depth (fresh_thread 0 ''old'')) sample_tree
              (first_writer empty_caches)) \<and>
     writes sample_config c' g' t'
       (snd (expected_text sample_config (current_stack_depth (fresh_thread 0 ''old'')) sample_tree
              (first_writer empty_caches)))"
proof (rule trace_is_call_tree)
  show "settled (\<lambda>_. minimum_rule) unknown_bounds 2000 (fresh_thread 0 ''old'')" by (rule settled_fresh)
  show "all_return (\<lambda>_. minimum_rule) unknown_bounds 2000 sample_tree"
    by (simp add: sample_tree_def sample_hook_returns sample_level)
  show "undisturbed sample_config (current_stack_depth (fresh_thread 0 ''old'')) sample_tree"
    using sample_undisturbed by (simp add: fresh_thread_def)
  show "writes sample_config empty_caches (initial_globals\<lparr>trace_ready := True\<rparr>)
      (fresh_thread 0 ''old'') (first_writer empty_caches)"
    by (rule writes_fresh) (simp_all add: initial_globals_def)
qed

section \<open>Marks beyond the buffer\<close>

lemma call_line_bounded: "call_site_text v \<noteq> None \<Longrightarrow> length (call_line cfg v now depth) \<le> FORMAT_BUF_SIZE"
proof -
  assume "call_site_text v \<noteq> None"
  moreover have "call_site_text (v\<lparr>timestamp := now\<rparr>) = call_site_text v"
    by (simp add: call_site_text_def split: option.split)
  ultimately obtain t where "call_line cfg v now depth =
      put_clamped t (call_line_start FORMAT_BUF_SIZE (v\<lparr>timestamp := now\<rparr>) depth (DURATION_SPLICE cfg)) @ [newline]"
    by (auto simp: call_line_def format_into_start)
  then show ?thesis
    using length_put_clamped [OF call_line_start_ok [OF capacity_ok_buf]] by (simp add: Suc_le_eq)
qed

text \<open>
  C40. The mark of a very deep frame lands outside its own line: at a depth of 675 and more the line was
  cut at the size of the format buffer before its glyph, but the mark is written at the offset
  the glyph would have, past the line's end: the line stays unmarked, and the byte there, which
  belongs to a later line if there is one, is replaced.
\<close>

theorem deep_mark_outside_line:
  assumes "patch_fd t" "file_bytes t = before @ call_line cfg v now (line_depth r) @ later"
    and "call_site_text v \<noteq> None" "logged r" "line_start r = int (length before)" "675 \<le> line_depth r"
  shows "let t' = mark_frame_end cfg r how None t;
             at = length before + tree_glyph_offset (line_depth r) (LINE_PREFIX_EXTRA cfg) in
         length (before @ call_line cfg v now (line_depth r)) \<le> at \<and>
         file_bytes t' ! at = how \<and>
         take (length (before @ call_line cfg v now (line_depth r))) (file_bytes t') =
           before @ call_line cfg v now (line_depth r)"
proof -
  let ?line = "call_line cfg v now (line_depth r)"
  let ?off = "tree_glyph_offset (line_depth r) (LINE_PREFIX_EXTRA cfg)"
  have "674 \<le> nat (line_depth r - 1)" using assms(6) by linarith
  then have off: "length ?line \<le> ?off"
    using call_line_bounded [OF assms(3), of cfg now "line_depth r"]
    by (simp add: tree_glyph_offset_def width_defs)
  have "mark_frame_end cfg r how None t =
      t\<lparr>file_bytes := pwrite_at (file_bytes t) (length before + ?off) [how]\<rparr>"
    using assms by (simp add: mark_frame_end_def patch_line_bytes_def Let_def)
  moreover have "pwrite_at (before @ ?line @ later) (length before + ?off) [how] ! (length before + ?off) = how"
    by (rule pwrite_byte_at)
  moreover have "take (length (before @ ?line)) (pwrite_at (before @ ?line @ later) (length before + ?off) [how]) =
      before @ ?line"
    using off by (simp add: pwrite_at_def min_def)
  ultimately show ?thesis using off assms(2) by (simp add: Let_def)
qed

definition deep_record :: frame_record where
  "deep_record = \<lparr>rec_callee = 64, rec_caller = 129, rec_level = 1024, logged = True, name_base = None,
     uncaught_at_enter = 0, enter_time = 0, line_start = 0, line_depth = 675\<rparr>"

theorem deep_mark_outside_line_witness:
  "let line = call_line sample_config sample_view [] 675;
       t' = mark_frame_end sample_config deep_record FRAME_END_JUMP None
              ((fresh_thread 0 (line @ ''next''))\<lparr>patch_fd := True\<rparr>);
       at = length ([] :: string) + tree_glyph_offset (line_depth deep_record) (LINE_PREFIX_EXTRA sample_config) in
   length ([] @ line) \<le> at \<and> file_bytes t' ! at = FRAME_END_JUMP \<and>
   take (length ([] @ line)) (file_bytes t') = [] @ line"
  using deep_mark_outside_line [where t = "(fresh_thread 0 (call_line sample_config sample_view [] 675
        @ ''next''))\<lparr>patch_fd := True\<rparr>" and before = "[]" and cfg = sample_config and v = sample_view
      and now = "[]" and r = deep_record and later = "''next''" and how = FRAME_END_JUMP]
  by (simp add: Let_def deep_record_def fresh_thread_def sample_view_def call_site_text_def)

section \<open>A header that fails\<close>

text \<open>
  When memory runs out while the header is composed, the file stays open but the cursor was never
  seeded: the next hook writes its line at the end of the file and records the file's first byte as
  the line's start, so its patches rewrite what an earlier run wrote there.
\<close>

theorem header_failure_misplaces_line:
  assumes "trace_ready g" "\<not> shutdown_complete g" "line_patching cfg"
    and "\<not> io_path_throws io" "io_open io" "io_fdopen io" "io_reopen io" "io_header_throws io"
  shows "case get_thread_fp cfg io g (fresh_thread fid existing) of (threw, fp, g1, t1) \<Rightarrow>
    threw \<and> get_thread_fp cfg io' g1 t1 = (False, True, g1, t1) \<and> patch_fd t1 \<and>
    file_bytes t1 = existing \<and> line_start (new_record cfg inp key True base (cursor t1) t1) = 0"
  using assms
  by (simp add: get_thread_fp_def open_this_thread_file_def write_run_separator_header_def
      current_tid_def new_record_def fresh_thread_def case_prod_beta Let_def)

theorem header_failure_misplaces_line_witness:
  "case get_thread_fp sample_config (sample_io\<lparr>io_header_throws := True\<rparr>)
          (initial_globals\<lparr>trace_ready := True\<rparr>) (fresh_thread 0 ''old'') of (threw, fp, g1, t1) \<Rightarrow>
    threw \<and> get_thread_fp sample_config sample_io g1 t1 = (False, True, g1, t1) \<and> patch_fd t1 \<and>
    file_bytes t1 = ''old'' \<and>
    line_start (new_record sample_config (sample_hook 64 1000)
      \<lparr>key_callee = 64, key_caller = 129, key_level = 1024\<rparr> True None (cursor t1) t1) = 0"
  by (rule header_failure_misplaces_line)
    (simp_all add: initial_globals_def sample_config_def line_patching_def sample_io_def)

section \<open>A first line\<close>

text \<open>The sample function resolves, so entering it writes a line and leaves a located record.\<close>

lemma sample_answer:
  assumes "w_caches w = empty_caches" "w_fronts w = empty_fronts"
  obtains v w' where "answer_for (sample_hook 64 1000) w = (Some v, w')"
proof -
  have "fst (resolve named_world id empty_caches empty_fronts 64 129 empty_view) \<noteq> None" by code_simp
  moreover obtain view c f acts where
    r: "resolve named_world id empty_caches empty_fronts 64 129 empty_view = (view, c, f, acts)"
    by (metis prod_cases4)
  ultimately obtain v where v: "view = Some v" by auto
  show thesis
    by (rule that [of v "w\<lparr>w_caches := c, w_fronts := f\<rparr>"])
      (simp add: answer_for_def sample_hook_def Let_def assms r v)
qed

lemma first_line_located:
  assumes "settled (\<lambda>_. minimum_rule) unknown_bounds 2000 t" "writes sample_config empty_caches g t w"
    and "w_fronts w = empty_fronts" "current_stack_depth t = - 1"
    and "enter_hook sample_config (sample_hook 64 1000) empty_caches g t = (c', g', t')"
  obtains r where "frames t' = frames t @ [r]" "logged r" "0 \<le> line_start r"
proof -
  let ?i = "sample_hook 64 1000"
  have u: "timed_hook sample_config ?i" "opens_well (hi_open ?i)" "hi_write ?i = Wrote_line"
    "\<not> reserve_throws ?i"
    using sample_undisturbed by (simp_all add: sample_tree_def)
  have ret: "enters (\<lambda>_. minimum_rule) unknown_bounds 2000 ?i"
    by (rule returns_enters [OF sample_hook_returns]) simp_all
  obtain header w1 where o: "opening_text (hi_open ?i) w = (header, w1)" by fastforce
  have "w_caches w1 = empty_caches" "w_fronts w1 = empty_fronts"
    using o assms(2,3) by (auto simp: opening_text_def writes_def Let_def split: if_splits prod.splits)
  then obtain v w2 where a: "answer_for ?i w1 = (Some v, w2)" by (rule sample_answer)
  from enter_text [OF assms(1) ret assms(2) u assms(5) o a]
  obtain r depth start where r: "frames t' = frames t @ [r]" "pending_record sample_config ?i depth start r"
    by (auto simp: entered_def Let_def split: prod.splits)
  then show thesis
    by (intro that [of r]) (simp_all add: pending_record_def sample_config_def line_patching_def)
qed

end
