(* ===== verification/EventEffects.thy ===== *)
theory EventEffects
  imports TraceText
begin

text \<open>
  What an exception does to a thread's records and to its trace: a throw leaves the records alone and
  adds its line; a catch reclaims exactly the records of the frames the exception unwound, marks
  their lines, and adds its line at the catcher's depth.
\<close>

section \<open>Marked lines\<close>

text \<open>How the line of a frame reads that was left without its exit hook.\<close>

definition unwound_line :: "config \<Rightarrow> char \<Rightarrow> string \<Rightarrow> frame_record \<Rightarrow> bool" where
  "unwound_line cfg how f r \<longleftrightarrow>
     (log_elapsed cfg \<longrightarrow> duration_field_of r f = set_duration_flag DURATION_UNWOUND how) \<and>
     (1 \<le> line_depth r \<longrightarrow> glyph_of cfg r f = how)"

definition located :: "frame_record \<Rightarrow> bool" where
  "located r \<longleftrightarrow> logged r \<and> 0 \<le> line_start r"

lemma unwound_line_cong:
  assumes "unwound_line cfg how f r" "log_exceptions cfg" "located r" "inside_file cfg r f"
    and "length f \<le> length f'" "\<And>i. i \<in> patch_positions cfg r \<Longrightarrow> f' ! i = f ! i"
  shows "unwound_line cfg how f' r"
  using assms patch_fields_cong [of r cfg f f'] by (auto simp: unwound_line_def located_def)

lemma unwound_line_append:
  assumes "unwound_line cfg how f r" "log_exceptions cfg" "located r" "inside_file cfg r f"
  shows "unwound_line cfg how (f @ g) r"
  using assms(4) by (intro unwound_line_cong [OF assms]) (auto simp: inside_file_def nth_append)

lemma duration_field_patched:
  assumes "length field = DURATION_FIELD_WIDTH"
    and "nat (line_start r) + PLACEHOLDER_OFFSET_IN_LINE + DURATION_FIELD_WIDTH \<le> length f"
  shows "duration_field_of r (pwrite_at f (nat (line_start r) + PLACEHOLDER_OFFSET_IN_LINE) field) = field"
  using assms by (simp add: duration_field_of_def pwrite_at_def)

lemma duration_field_inside:
  assumes "located r" "log_elapsed cfg" "inside_file cfg r f"
  shows "nat (line_start r) + PLACEHOLDER_OFFSET_IN_LINE + DURATION_FIELD_WIDTH \<le> length f"
proof -
  have "nat (line_start r) + PLACEHOLDER_OFFSET_IN_LINE + DURATION_FIELD_WIDTH - 1 \<in> patch_positions cfg r"
    using assms(1,2) by (simp add: patch_positions_def located_def width_defs)
  then have "nat (line_start r) + PLACEHOLDER_OFFSET_IN_LINE + DURATION_FIELD_WIDTH - 1 < length f"
    using assms(3) by (auto simp: inside_file_def)
  then show ?thesis by (simp add: width_defs)
qed

text \<open>The glyph lies behind the duration field.\<close>

lemma glyph_behind_field:
  "log_elapsed cfg \<Longrightarrow> PLACEHOLDER_OFFSET_IN_LINE + DURATION_FIELD_WIDTH \<le>
     tree_glyph_offset d (LINE_PREFIX_EXTRA cfg)"
  by (simp add: tree_glyph_offset_def LINE_PREFIX_EXTRA_def width_defs)

lemma glyph_patch_keeps_field:
  assumes "located r" "log_elapsed cfg" "inside_file cfg r f"
  shows "duration_field_of r
      (pwrite_at f (nat (line_start r) + tree_glyph_offset d (LINE_PREFIX_EXTRA cfg)) [how]) =
      duration_field_of r f"
proof -
  let ?g = "nat (line_start r) + tree_glyph_offset d (LINE_PREFIX_EXTRA cfg)"
  have "nat (line_start r) + PLACEHOLDER_OFFSET_IN_LINE + DURATION_FIELD_WIDTH \<le> ?g"
    using glyph_behind_field [OF assms(2), of d] by simp
  with duration_field_inside [OF assms] show ?thesis
    by (simp add: duration_field_of_def pwrite_at_def drop_take min_def)
qed

lemma length_unwound_field [simp]: "length (set_duration_flag DURATION_UNWOUND how) = DURATION_FIELD_WIDTH"
  by (simp add: set_duration_flag_def len_simps)

lemma mark_frame_unwound:
  assumes "log_exceptions cfg" "located r" "patch_fd t" "inside_file cfg r (file_bytes t)"
  shows "unwound_line cfg how (file_bytes (mark_frame_end cfg r how (unwound_field cfg how) t)) r"
proof -
  define f1 where "f1 = (if log_elapsed cfg
    then pwrite_at (file_bytes t) (nat (line_start r) + PLACEHOLDER_OFFSET_IN_LINE)
           (set_duration_flag DURATION_UNWOUND how) else file_bytes t)"
  have f: "file_bytes (mark_frame_end cfg r how (unwound_field cfg how) t) =
      (if 1 \<le> line_depth r
       then pwrite_at f1 (nat (line_start r) + tree_glyph_offset (line_depth r) (LINE_PREFIX_EXTRA cfg)) [how]
       else f1)"
    using assms(2,3)
    by (auto simp: mark_frame_end_def located_def unwound_field_def patch_line_bytes_def f1_def)
  have e: "duration_field_of r f1 = set_duration_flag DURATION_UNWOUND how" "inside_file cfg r f1"
    if "log_elapsed cfg"
    using that duration_field_inside [OF assms(2) that assms(4)] assms(4)
    by (simp_all add: f1_def duration_field_patched inside_file_def length_pwrite_inside)
  show ?thesis
    unfolding f
    by (auto simp: unwound_line_def glyph_of_def pwrite_byte_at e glyph_patch_keeps_field [OF assms(2)])
qed

section \<open>Reclaiming marks every line it reclaims\<close>

lemma reclaim_top_unwound:
  assumes "log_exceptions cfg" "frames t \<noteq> []" "located (last (frames t))" "patch_fd t"
    and "inside_file cfg (last (frames t)) (file_bytes t)"
  shows "unwound_line cfg how (file_bytes (reclaim_top cfg how t)) (last (frames t))"
  using assms mark_frame_unwound [OF assms(1,3), of
      "t\<lparr>frames := butlast (frames t), current_stack_depth := current_stack_depth t - 1\<rparr>" how]
  by (simp add: reclaim_top_def Let_def located_def)

text \<open>Lines of records that are gone stay as they are when further records are reclaimed.\<close>

lemma popped_keeps_fields:
  assumes "popped_to cfg t dead t'" "\<forall>x \<in> set dead. inside_file cfg x (file_bytes t)"
    and "\<forall>x \<in> set dead. patch_positions cfg x \<inter> patch_positions cfg r = {}"
    and "inside_file cfg r (file_bytes t)" "i \<in> patch_positions cfg r"
  shows "file_bytes t' ! i = file_bytes t ! i"
proof -
  have "patched_within (\<Union>r \<in> set dead. patch_positions cfg r) (file_bytes t) (file_bytes t')"
    using assms(1,2) by (auto simp: popped_to_def)
  moreover have "i < length (file_bytes t)" using assms(4,5) by (auto simp: inside_file_def)
  ultimately show ?thesis using assms(3,5) by (auto simp: patched_within_def)
qed

lemma reclaim_loop_unwound:
  assumes "log_exceptions cfg" "how \<noteq> newline"
  shows "lines_ok cfg t \<Longrightarrow> patch_fd t \<Longrightarrow> n \<le> length (frames t) \<Longrightarrow>
    r \<in> set (drop (length (frames t) - n) (frames t)) \<Longrightarrow> located r \<Longrightarrow>
    unwound_line cfg how (file_bytes (reclaim_loop cfg how n t)) r"
proof (induction n arbitrary: t)
  case (Suc n)
  then have ne: "frames t \<noteq> []" by auto
  let ?top = "last (frames t)" and ?t = "reclaim_top cfg how t"
  have fr: "frames t = frames ?t @ [?top]" using ne by simp
  have p: "pops cfg t ?t" using reclaim_top_popped [OF ne assms(2)] by (auto simp: pops_def)
  have ok: "lines_ok cfg ?t" by (rule lines_ok_advances [OF Suc.prems(1) pops_advances [OF p]])
  have fd: "patch_fd ?t" using Suc.prems(2) pops_fields(3) [OF p] by simp
  have len: "n \<le> length (frames ?t)" using Suc.prems(3) by simp
  show ?case
  proof (cases "r \<in> set (drop (length (frames ?t) - n) (frames ?t))")
    case True
    then show ?thesis using Suc.IH [OF ok fd len] Suc.prems(5) by simp
  next
    case False
    have "drop (length (frames t) - Suc n) (frames t) = drop (length (frames ?t) - n) (frames ?t) @ [?top]"
      using len by (subst (2) fr) simp
    with False Suc.prems(4) have r: "r = ?top" by simp
    let ?dead = "drop (length (frames ?t) - n) (frames ?t)"
    have inside: "inside_file cfg r (file_bytes t)"
      using Suc.prems(1) ne open_line_inside by (auto simp: lines_ok_def r)
    then have inside': "inside_file cfg r (file_bytes ?t)"
      using popped_length [OF Suc.prems(1) p] by (simp add: inside_file_def)
    have marked: "unwound_line cfg how (file_bytes ?t) r"
      using reclaim_top_unwound [OF assms(1) ne _ Suc.prems(2)] Suc.prems(5) inside by (simp add: r)
    have pop: "popped_to cfg ?t ?dead (reclaim_loop cfg how n ?t)"
      by (rule reclaim_loop_popped [OF assms(2) len])
    have "\<forall>x \<in> set ?dead. inside_file cfg x (file_bytes ?t)"
      using ok open_line_inside by (auto simp: lines_ok_def dest: in_set_dropD)
    moreover have "\<forall>x \<in> set ?dead. patch_positions cfg x \<inter> patch_positions cfg r = {}"
    proof -
      have "sorted_wrt (\<lambda>r r'. patch_positions cfg r \<inter> patch_positions cfg r' = {}) (frames ?t @ [r])"
        using Suc.prems(1) fr by (simp add: lines_ok_def r)
      then show ?thesis by (auto simp: sorted_wrt_append dest: in_set_dropD)
    qed
    moreover have "length (file_bytes (reclaim_loop cfg how n ?t)) = length (file_bytes ?t)"
      using pop by (intro popped_length [OF ok]) (unfold pops_def, blast)
    ultimately have "unwound_line cfg how (file_bytes (reclaim_loop cfg how n ?t)) r"
      using inside'
      by (intro unwound_line_cong [OF marked assms(1) Suc.prems(5) inside'] popped_keeps_fields [OF pop]) simp_all
    then show ?thesis by simp
  qed
qed simp

lemma reclaim_dead_records_unwound:
  assumes "log_exceptions cfg" "lines_ok cfg t" "patch_fd t" "n \<le> length (frames t)"
    and "r \<in> set (drop (length (frames t) - n) (frames t))" "located r"
  shows "unwound_line cfg (reclaim_mark u n place) (file_bytes (reclaim_dead_records cfg u n place t)) r"
  using reclaim_loop_unwound [OF assms(1) reclaim_mark_printable assms(2-)]
  by (simp add: reclaim_dead_records_def)

section \<open>Event lines\<close>

definition file_in_use :: "trace_globals \<Rightarrow> thread_state \<Rightarrow> bool" where
  "file_in_use g t \<longleftrightarrow> trace_ready g \<and> \<not> shutdown_complete g \<and> open_attempted t \<and> trace_fp t"

text \<open>The line of an event at a depth, with the timestamp the thread's cache yields.\<close>

definition event_line_text ::
    "config \<Rightarrow> event_input \<Rightarrow> string \<Rightarrow> string \<Rightarrow> string \<Rightarrow> string \<Rightarrow> string \<Rightarrow> string option
       \<Rightarrow> event_site \<Rightarrow> time_cache \<Rightarrow> int \<Rightarrow> string" where
  "event_line_text cfg inp v label suf cw tname w site tc depth =
     format_event_into FORMAT_BUF_SIZE
       (event_of cfg v label suf tname w site
          (fst (pretty_time_into (io_render (ei_open inp)) tc PRETTY_TIME_BUF_SIZE (ei_clock inp))) depth)
       (event_column cfg cw) True"

definition time_after :: "event_input \<Rightarrow> time_cache \<Rightarrow> time_cache" where
  "time_after inp tc =
     snd (pretty_time_into (io_render (ei_open inp)) tc PRETTY_TIME_BUF_SIZE (ei_clock inp))"

text \<open>What an event adds to a thread's file, and nothing else.\<close>

definition with_line :: "config \<Rightarrow> time_cache \<Rightarrow> string \<Rightarrow> thread_state \<Rightarrow> thread_state" where
  "with_line cfg tc line t =
     t\<lparr>thread_time := tc, file_bytes := file_bytes t @ line,
       cursor := (if line_patching cfg then cursor t + int (length line) else cursor t)\<rparr>"

lemma with_line_fields [simp]:
  "frames (with_line cfg tc l t) = frames t"
  "current_stack_depth (with_line cfg tc l t) = current_stack_depth t"
  "file_bytes (with_line cfg tc l t) = file_bytes t @ l"
  "thread_time (with_line cfg tc l t) = tc"
  "patch_fd (with_line cfg tc l t) = patch_fd t"
  "in_instrumentation (with_line cfg tc l t) = in_instrumentation t"
  "thread_bounds (with_line cfg tc l t) = thread_bounds t"
  "stack_bounds_resolved (with_line cfg tc l t) = stack_bounds_resolved t"
  "file_in_use g (with_line cfg tc l t) = file_in_use g t"
  by (simp_all add: with_line_def file_in_use_def)

lemma guard_off: "\<not> in_instrumentation t \<Longrightarrow> t\<lparr>in_instrumentation := False\<rparr> = t"
  by (cases t) simp

lemma with_line_guarded:
  assumes "\<not> in_instrumentation t"
  shows "(with_line cfg tc l (t\<lparr>in_instrumentation := True\<rparr>))\<lparr>in_instrumentation := False\<rparr> =
    with_line cfg tc l t"
proof -
  have "(with_line cfg tc l (t\<lparr>in_instrumentation := True\<rparr>))\<lparr>in_instrumentation := False\<rparr> =
      with_line cfg tc l (t\<lparr>in_instrumentation := False\<rparr>)" by (simp add: with_line_def)
  then show ?thesis by (simp only: guard_off [OF assms])
qed

lemma write_event_line_text:
  assumes "file_in_use g t" "ei_write inp = Wrote_line"
  shows "write_event_line cfg inp v label suf cw tname w site g t =
    (False, g, with_line cfg (time_after inp (thread_time t))
       (event_line_text cfg inp v label suf cw tname w site (thread_time t) (current_stack_depth t + 1)) t)"
  using assms
  by (simp add: write_event_line_def get_thread_fp_def file_in_use_def case_prod_beta Let_def
      with_line_def event_line_text_def time_after_def write_line_def)

text \<open>The three words of a throw's line.\<close>

definition throw_words :: "throw_kind \<Rightarrow> string \<times> string \<times> string \<times> string" where
  "throw_words kind =
     (case kind of
        primary \<Rightarrow> (''throw'', ''thrown at'', [], DURATION_EVENT_THROW)
      | rethrow \<Rightarrow> (''rethrow'', ''rethrown at'', [], DURATION_EVENT_RETHROW)
      | exception_ptr \<Rightarrow>
          (''rethrow'', ''rethrown at'', '' via std::rethrow_exception'', DURATION_EVENT_RETHROW))"

lemma throw_line_words:
  "throw_words kind = (v, label, suf, cw) \<Longrightarrow>
   throw_line cfg inp kind tname w at g t = write_event_line cfg inp v label suf cw tname w at g t"
  by (cases kind) (auto simp: throw_line_def throw_words_def)

text \<open>An event in which no lookup fails.\<close>

definition event_succeeds :: "event_input \<Rightarrow> bool" where
  "event_succeeds inp \<longleftrightarrow> \<not> resolve_throws (ei_resolver inp) \<and> \<not> chain_throws (ei_resolver inp) \<and>
     \<not> type_name_throws inp \<and> ei_write inp = Wrote_line"

definition site_of :: "event_input \<Rightarrow> addr option \<Rightarrow> caches \<Rightarrow> event_site" where
  "site_of inp address c = the (fst (resolve_event_site inp address c))"

lemma event_site_found:
  assumes "\<not> resolve_throws (ei_resolver inp)"
  obtains c' where "resolve_event_site inp address c = (Some (site_of inp address c), c')"
proof -
  have "fst (resolve_event_site inp address c) \<noteq> None"
    using assms by (auto simp: resolve_event_site_def Let_def split: option.split prod.split)
  then have "resolve_event_site inp address c =
      (Some (site_of inp address c), snd (resolve_event_site inp address c))"
    by (simp add: site_of_def prod_eq_iff)
  then show thesis by (rule that)
qed

section \<open>Catches\<close>

text \<open>Without records of inlined functions at the catcher's level, the inline chain changes nothing.\<close>

definition single_at :: "addr \<Rightarrow> frame_record list \<Rightarrow> bool" where
  "single_at l rs \<longleftrightarrow> length (filter (\<lambda>r. rec_level r = l) rs) \<le> 1"

lemma single_at_filter: "single_at l rs \<Longrightarrow> single_at l (filter P rs)"
proof -
  assume "single_at l rs"
  moreover have "length (filter (\<lambda>r. rec_level r = l) (filter P rs)) \<le> length (filter (\<lambda>r. rec_level r = l) rs)"
    by (induction rs) auto
  ultimately show ?thesis by (simp add: single_at_def)
qed

lemma single_at_no_match:
  assumes "single_at l rs"
  shows "dead_records_above_match rs l matches = 0"
proof -
  have "length (takeWhile P xs) \<le> length (filter P xs)" for P and xs :: "frame_record list"
    by (induction xs) auto
  from this [of "\<lambda>r. rec_level r = l" "rev rs"] have "length (level_group rs l) \<le> 1"
    using assms by (simp add: level_group_def single_at_def rev_filter [symmetric])
  then consider "level_group rs l = []" | y where "level_group rs l = [y]"
    by (cases "level_group rs l") auto
  then show ?thesis by cases (simp_all add: dead_records_above_match_reference)
qed

text \<open>The lookup of the inline chain is all that is left of it.\<close>

definition chain_caches :: "event_input \<Rightarrow> addr \<Rightarrow> addr \<Rightarrow> thread_state \<Rightarrow> caches \<Rightarrow> caches" where
  "chain_caches inp l site t c =
     (if frames t = [] \<or> rec_level (last (frames t)) \<noteq> l \<or> \<not> on_thread_stack (thread_bounds t) l then c
      else snd (inline_chain_at (ei_resolver inp) site c))"

lemma reclaim_on_catch_single:
  assumes "single_at l (frames t)"
  obtains threw where "reclaim_dead_inlined_records_on_catch cfg (ei_resolver inp) u l site c t =
      (threw, chain_caches inp l site t c, t)" and "threw \<longrightarrow> chain_throws (ei_resolver inp)"
proof -
  have "\<exists>threw. reclaim_dead_inlined_records_on_catch cfg (ei_resolver inp) u l site c t =
      (threw, chain_caches inp l site t c, t) \<and> (threw \<longrightarrow> chain_throws (ei_resolver inp))"
    by (auto simp: reclaim_dead_inlined_records_on_catch_def reclaim_above_named_def chain_caches_def
        single_at_no_match [OF assms] inline_chain_at_def Let_def split: prod.split outcome.split if_splits)
  with that show thesis by blast
qed

text \<open>The bounds and the level a catch measures with.\<close>

definition event_bounds :: "event_input \<Rightarrow> thread_state \<Rightarrow> stack_bounds" where
  "event_bounds inp t = thread_bounds (resolve_thread_stack_bounds (ei_stack inp) t)"

definition catcher_level :: "event_input \<Rightarrow> addr \<Rightarrow> addr \<Rightarrow> thread_state \<Rightarrow> addr" where
  "catcher_level inp site frame t =
     measured_frame_level ((ei_levels inp)\<lparr>env_bounds := event_bounds inp t\<rparr>) site frame"

lemma event_level_catcher:
  "event_level inp site frame (resolve_thread_stack_bounds (ei_stack inp) t) = catcher_level inp site frame t"
  by (simp add: event_level_def catcher_level_def event_bounds_def)

lemma catcher_level_guard [simp]:
  "event_bounds inp (t\<lparr>in_instrumentation := b\<rparr>) = event_bounds inp t"
  "catcher_level inp site frame (t\<lparr>in_instrumentation := b\<rparr>) = catcher_level inp site frame t"
  by (simp_all add: catcher_level_def event_bounds_def resolve_thread_stack_bounds_def Let_def
      split: option.split)

definition unwound :: "addr \<Rightarrow> frame_record list \<Rightarrow> frame_record list" where
  "unwound l rs = filter (\<lambda>r. rec_level r < l) rs"

text \<open>
  The unwound frames are the youngest ones and run on the thread's stack, as does the catcher, and no
  function inlined into the catcher has a record.
\<close>

definition plain_stack :: "event_input \<Rightarrow> addr \<Rightarrow> addr \<Rightarrow> thread_state \<Rightarrow> bool" where
  "plain_stack inp site frame t \<longleftrightarrow>
     (let l = catcher_level inp site frame t in
      frames t = filter (\<lambda>r. l \<le> rec_level r) (frames t) @ unwound l (frames t) \<and>
      all_on_stack (event_bounds inp t) (unwound l (frames t)) \<and>
      on_thread_stack (event_bounds inp t) l \<and> single_at l (frames t))"

lemma levels_sorted_unwound:
  "levels_sorted rs \<Longrightarrow> rs = filter (\<lambda>r. l \<le> rec_level r) rs @ unwound l rs"
proof (induction rs rule: rev_induct)
  case (snoc r rs)
  show ?case
  proof (cases "rec_level r < l")
    case True
    then show ?thesis using snoc by (simp add: levels_sorted_snoc unwound_def not_less)
  next
    case False
    then have "l \<le> rec_level r" by simp
    moreover from this have "filter (\<lambda>x. l \<le> rec_level x) rs = rs"
      using filter_all_if_last [of rs r l] snoc.prems by simp
    moreover from this have "unwound l rs = []" by (auto simp: unwound_def filter_empty_conv filter_id_conv)
    ultimately show ?thesis by (simp add: unwound_def)
  qed
qed (simp add: unwound_def)

lemma sorted_plain_stack:
  assumes "levels_sorted (frames t)" "all_on_stack (event_bounds inp t) (frames t)"
    and "on_thread_stack (event_bounds inp t) (catcher_level inp site frame t)"
    and "single_at (catcher_level inp site frame t) (frames t)"
  shows "plain_stack inp site frame t"
  using assms(2-) levels_sorted_unwound [OF assms(1)]
  by (simp add: plain_stack_def Let_def all_on_stack_def unwound_def)

lemma catch_count:
  assumes "rs = filter (\<lambda>r. l \<le> rec_level r) rs @ unwound l rs" "all_on_stack b (unwound l rs)"
    and "on_thread_stack b l"
  shows "drop (length rs - dead_records_on_catch rs l b) rs = unwound l rs"
proof -
  have "count_top (dead_on_catch l b) (kept @ dead) = length dead"
    if "\<forall>r \<in> set kept. l \<le> rec_level r" "\<forall>r \<in> set dead. dead_on_catch l b r" for kept dead
    using that
  proof (induction dead rule: rev_induct)
    case Nil
    then show ?case by (cases kept rule: rev_cases) (auto simp: dead_on_catch_def)
  next
    case (snoc r dead)
    then show ?case using count_top_snoc [of "dead_on_catch l b" "kept @ dead" r] by simp
  qed
  moreover have "\<forall>r \<in> set (unwound l rs). dead_on_catch l b r"
    using assms(2) by (auto simp: unwound_def dead_on_catch_def all_on_stack_def)
  moreover have "\<forall>r \<in> set (filter (\<lambda>r. l \<le> rec_level r) rs). l \<le> rec_level r" by simp
  ultimately have "count_top (dead_on_catch l b) (filter (\<lambda>r. l \<le> rec_level r) rs @ unwound l rs) =
      length (unwound l rs)" by blast
  then have "count_top (dead_on_catch l b) rs = length (unwound l rs)"
    by (simp only: assms(1) [symmetric])
  then have n: "dead_records_on_catch rs l b = length (unwound l rs)"
    using assms(3) by (simp add: dead_records_on_catch_def)
  have "drop (length (kept @ dead) - length dead) (kept @ dead) = dead" for kept dead :: "frame_record list"
    by simp
  from this [of "filter (\<lambda>r. l \<le> rec_level r) rs" "unwound l rs"] show ?thesis
    by (simp only: n assms(1) [symmetric])
qed

lemma reclaim_unwound_popped:
  assumes "plain_stack inp site frame t"
  defines "t1 \<equiv> resolve_thread_stack_bounds (ei_stack inp) t"
    and "l \<equiv> catcher_level inp site frame t"
  shows "popped_to cfg t1 (unwound l (frames t)) (reclaim_unwound cfg inp l t1)"
    and "frames (reclaim_unwound cfg inp l t1) = filter (\<lambda>r. l \<le> rec_level r) (frames t)"
proof -
  have f: "frames t1 = frames t" "thread_bounds t1 = event_bounds inp t"
    by (simp_all add: t1_def event_bounds_def)
  have p: "frames t = filter (\<lambda>r. l \<le> rec_level r) (frames t) @ unwound l (frames t)"
    "all_on_stack (event_bounds inp t) (unwound l (frames t))" "on_thread_stack (event_bounds inp t) l"
    using assms(1) by (simp_all add: plain_stack_def l_def Let_def)
  show *: "popped_to cfg t1 (unwound l (frames t)) (reclaim_unwound cfg inp l t1)"
    using reclaim_dead_records_popped [of "dead_records_on_catch (frames t) l (event_bounds inp t)" t1
        cfg "ei_uncaught inp" at_catch] on_catch.dead_le [of "frames t" l "event_bounds inp t"]
      catch_count [OF p]
    by (simp add: reclaim_unwound_def f)
  then obtain kept where "frames t1 = kept @ unwound l (frames t)"
    "frames (reclaim_unwound cfg inp l t1) = kept"
    by (auto simp: popped_to_def)
  then show "frames (reclaim_unwound cfg inp l t1) = filter (\<lambda>r. l \<le> rec_level r) (frames t)"
    using p(1) f(1) by (metis append_same_eq)
qed

lemma header_depth: "current_stack_depth (snd (write_run_separator_header io tid t)) = current_stack_depth t"
  by (simp add: write_run_separator_header_def case_prod_beta Let_def)

lemma register_depth: "current_stack_depth (snd (snd (register_file io g t))) = current_stack_depth t"
  by (simp add: register_file_def)

lemma seed_depth: "current_stack_depth (seed_cursor cfg io t) = current_stack_depth t"
  by (simp add: seed_cursor_def)

lemma open_depth:
  "current_stack_depth (snd (snd (open_this_thread_file cfg io g t))) = current_stack_depth t"
  by (simp add: open_this_thread_file_def case_prod_beta Let_def register_depth seed_depth header_depth
      current_tid_def)

lemma get_fp_depth:
  "current_stack_depth (snd (snd (snd (get_thread_fp cfg io g t)))) = current_stack_depth t"
  by (simp add: get_thread_fp_def case_prod_beta open_depth)

lemma write_event_line_records:
  assumes "write_event_line cfg inp v label suf cw tname w site g t = (threw, g', t')"
  shows "frames t' = frames t" "current_stack_depth t' = current_stack_depth t"
proof -
  obtain ft fp g1 t1 where f: "get_thread_fp cfg (ei_open inp) g t = (ft, fp, g1, t1)"
    by (metis prod_cases4)
  then have "frames t1 = frames t" "current_stack_depth t1 = current_stack_depth t"
    using keeps_get_thread_fp [of t cfg "ei_open inp" g] get_fp_depth [of cfg "ei_open inp" g t]
    by (simp_all add: keeps_def)
  moreover have "frames (write_line cfg r l (t1\<lparr>thread_time := tc\<rparr>)) = frames t1"
    "current_stack_depth (write_line cfg r l (t1\<lparr>thread_time := tc\<rparr>)) = current_stack_depth t1" for r l tc
    by (simp_all add: write_line_def split: write_result.split)
  ultimately show "frames t' = frames t" "current_stack_depth t' = current_stack_depth t"
    using assms f by (auto simp: write_event_line_def case_prod_beta Let_def split: if_splits)
qed

text \<open>A catch is the reclaiming of the unwound records and then its line.\<close>

lemma catch_handled_plain:
  fixes cfg :: config and inp :: event_input
  assumes "plain_stack inp site frame t"
  defines "t2 \<equiv> reclaim_unwound cfg inp (catcher_level inp site frame t)
      (resolve_thread_stack_bounds (ei_stack inp) t)"
  obtains threw g' t' where "catch_handled cfg inp tname w site frame at c g t =
      (chain_caches inp (catcher_level inp site frame t) (site - 1) t2 c, g', t')"
    and "frames t' = frames t2" "current_stack_depth t' = current_stack_depth t2"
    and "\<not> chain_throws (ei_resolver inp) \<longrightarrow>
      write_event_line cfg inp ''catch'' ''caught at'' [] DURATION_EVENT_CATCH tname w at g t2 = (threw, g', t')"
proof -
  let ?l = "catcher_level inp site frame t"
  have "single_at ?l (frames t2)"
    using assms(1) reclaim_unwound_popped(2) [OF assms(1), of cfg]
    by (simp add: t2_def single_at_filter plain_stack_def Let_def)
  then obtain ct where r: "reclaim_dead_inlined_records_on_catch cfg (ei_resolver inp)
      (ei_uncaught inp) ?l (site - 1) c t2 = (ct, chain_caches inp ?l (site - 1) t2 c, t2)"
    "ct \<longrightarrow> chain_throws (ei_resolver inp)"
    by (rule reclaim_on_catch_single [where cfg = cfg and inp = inp and u = "ei_uncaught inp"
          and site = "site - 1" and c = c])
  obtain threw g' t' where w: "write_event_line cfg inp ''catch'' ''caught at'' [] DURATION_EVENT_CATCH
      tname w at g t2 = (threw, g', t')" by (metis prod_cases3)
  have h: "catch_handled cfg inp tname w site frame at c g t =
      (chain_caches inp ?l (site - 1) t2 c, if ct then (g, t2) else (g', t'))"
    using r(1) w by (simp add: catch_handled_def event_level_catcher t2_def Let_def)
  show thesis
  proof (cases ct)
    case True
    with h r(2) show ?thesis by (intro that [of g t2 threw]) simp_all
  next
    case False
    with h w write_event_line_records [OF w] show ?thesis by (intro that [of g' t' threw]) simp_all
  qed
qed

text \<open>A catch that is reported as one: its lookups succeed and it is not Clang's terminate stub.\<close>

definition reported_catch :: "event_input \<Rightarrow> addr \<Rightarrow> caches \<Rightarrow> bool" where
  "reported_catch inp site c \<longleftrightarrow> \<not> resolve_throws (ei_resolver inp) \<and> \<not> type_name_throws inp \<and>
     caller_function_base (es_location (site_of inp (Some (site - 1)) c)) \<noteq> Some CLANG_TERMINATE_STUB"

definition catch_what :: "event_input \<Rightarrow> string option \<Rightarrow> bool \<Rightarrow> string option" where
  "catch_what inp w dependent = (if dependent \<and> w = None then current_exception_what inp else w)"

lemma on_catch_plain:
  fixes cfg :: config and inp :: event_input
  assumes "\<not> in_instrumentation t" "reported_catch inp site c" "plain_stack inp site frame t"
  defines "t2 \<equiv> reclaim_unwound cfg inp (catcher_level inp site frame t)
      (resolve_thread_stack_bounds (ei_stack inp) (t\<lparr>in_instrumentation := True\<rparr>))"
  obtains threw g' t' where
    "on_catch cfg inp type w dependent site frame (c, names, g) t =
       (False, (chain_caches inp (catcher_level inp site frame t) (site - 1) t2
                  (snd (resolve_event_site inp (Some (site - 1)) c)),
                snd (exception_type_name (in_world (ei_resolver inp)) type names), g'),
        t'\<lparr>in_instrumentation := False\<rparr>)"
    and "frames t' = frames t2" "current_stack_depth t' = current_stack_depth t2"
    and "\<not> chain_throws (ei_resolver inp) \<longrightarrow>
      write_event_line cfg inp ''catch'' ''caught at'' [] DURATION_EVENT_CATCH
        (fst (exception_type_name (in_world (ei_resolver inp)) type names))
        (catch_what inp w dependent) (site_of inp (Some (site - 1)) c) g t2 = (threw, g', t')"
proof -
  let ?t = "t\<lparr>in_instrumentation := True\<rparr>"
  obtain c1 where at: "resolve_event_site inp (Some (site - 1)) c = (Some (site_of inp (Some (site - 1)) c), c1)"
    using assms(2) by (auto simp: reported_catch_def intro: event_site_found)
  obtain tname names1 where n: "exception_type_name (in_world (ei_resolver inp)) type names = (tname, names1)"
    by fastforce
  have p: "plain_stack inp site frame ?t" using assms(3) by (simp add: plain_stack_def)
  let ?c2 = "chain_caches inp (catcher_level inp site frame t) (site - 1) t2 c1"
  obtain threw g' t' where h: "catch_handled cfg inp tname (catch_what inp w dependent) site frame
      (site_of inp (Some (site - 1)) c) c1 g ?t = (?c2, g', t')"
    "frames t' = frames t2" "current_stack_depth t' = current_stack_depth t2"
    "\<not> chain_throws (ei_resolver inp) \<longrightarrow> write_event_line cfg inp ''catch'' ''caught at'' []
       DURATION_EVENT_CATCH tname (catch_what inp w dependent) (site_of inp (Some (site - 1)) c) g t2 =
       (threw, g', t')"
    using catch_handled_plain [OF p, of cfg tname "catch_what inp w dependent"
        "site_of inp (Some (site - 1)) c" c1 g] by (simp add: t2_def) metis
  have "on_catch cfg inp type w dependent site frame (c, names, g) t =
       (False, (?c2, names1, g'), t'\<lparr>in_instrumentation := False\<rparr>)"
    using assms(1,2) h(1) by (simp add: on_catch_def at n reported_catch_def catch_what_def)
  with h(2-) n at show thesis by (intro that [of g' t' threw]) simp_all
qed

lemma guarded_same:
  "lines_ok cfg (resolve_thread_stack_bounds st (t\<lparr>in_instrumentation := b\<rparr>)) = lines_ok cfg t"
  "file_in_use g (resolve_thread_stack_bounds st (t\<lparr>in_instrumentation := b\<rparr>)) = file_in_use g t"
  "patch_fd (resolve_thread_stack_bounds st (t\<lparr>in_instrumentation := b\<rparr>)) = patch_fd t"
  "thread_time (resolve_thread_stack_bounds st (t\<lparr>in_instrumentation := b\<rparr>)) = thread_time t"
  by (simp_all add: lines_ok_def file_in_use_def resolve_thread_stack_bounds_def Let_def split: option.split)

text \<open>The records, the depth, the file and the time after the reclaiming.\<close>

lemma reclaimed_by_catch:
  fixes cfg :: config and inp :: event_input
  assumes "plain_stack inp site frame t"
  defines "l \<equiv> catcher_level inp site frame t"
  defines "t2 \<equiv> reclaim_unwound cfg inp l
      (resolve_thread_stack_bounds (ei_stack inp) (t\<lparr>in_instrumentation := True\<rparr>))"
  shows "frames t2 = filter (\<lambda>r. l \<le> rec_level r) (frames t)"
    and "current_stack_depth t2 = current_stack_depth t - logged_count (unwound l (frames t))"
    and "thread_time t2 = thread_time t" "file_in_use g t2 = file_in_use g t"
    and "lines_ok cfg t \<Longrightarrow> length (file_bytes t2) = length (file_bytes t) \<and>
      patched_within (dead_positions cfg (unwound l (frames t))) (file_bytes t) (file_bytes t2)"
    and "log_exceptions cfg \<Longrightarrow> lines_ok cfg t \<Longrightarrow> patch_fd t \<Longrightarrow>
      r \<in> set (unwound l (frames t)) \<Longrightarrow> located r \<Longrightarrow>
      unwound_line cfg FRAME_END_EXCEPTION (file_bytes t2) r"
proof -
  let ?t1 = "resolve_thread_stack_bounds (ei_stack inp) (t\<lparr>in_instrumentation := True\<rparr>)"
  have p: "plain_stack inp site frame (t\<lparr>in_instrumentation := True\<rparr>)"
    using assms(1) by (simp add: plain_stack_def)
  have pop: "popped_to cfg ?t1 (unwound l (frames t)) t2"
    using reclaim_unwound_popped(1) [OF p, of cfg] by (simp add: t2_def l_def)
  then show "current_stack_depth t2 = current_stack_depth t - logged_count (unwound l (frames t))"
    by (auto simp: popped_to_def)
  show "frames t2 = filter (\<lambda>r. l \<le> rec_level r) (frames t)"
    using reclaim_unwound_popped(2) [OF p, of cfg] by (simp add: t2_def l_def)
  have ps: "pops cfg ?t1 t2" using pop by (auto simp: pops_def)
  show "thread_time t2 = thread_time t" "file_in_use g t2 = file_in_use g t"
    using pops_fields [OF ps] guarded_same(2) [where g = g and st = "ei_stack inp" and t = t and b = True]
    by (simp_all add: file_in_use_def guarded_same(4))
  show len: "length (file_bytes t2) = length (file_bytes t) \<and>
      patched_within (dead_positions cfg (unwound l (frames t))) (file_bytes t) (file_bytes t2)"
    if ok: "lines_ok cfg t"
  proof -
    have "\<forall>x \<in> set (unwound l (frames t)). inside_file cfg x (file_bytes t)"
      using ok open_line_inside by (auto simp: lines_ok_def unwound_def)
    with pop popped_length [OF _ ps] ok show ?thesis
      by (auto simp: popped_to_def dead_positions_def guarded_same)
  qed
  show "unwound_line cfg FRAME_END_EXCEPTION (file_bytes t2) r"
    if h: "log_exceptions cfg" "lines_ok cfg t" "patch_fd t" "r \<in> set (unwound l (frames t))" "located r"
  proof -
    let ?n = "dead_records_on_catch (frames ?t1) l (thread_bounds ?t1)"
    have f: "frames ?t1 = frames t" "thread_bounds ?t1 = event_bounds inp t"
      using catcher_level_guard(1) [where inp = inp and t = t and b = True] by (simp_all add: event_bounds_def)
    have u: "drop (length (frames ?t1) - ?n) (frames ?t1) = unwound l (frames t)"
      using assms(1) catch_count [of "frames t" l "event_bounds inp t"]
      by (simp add: plain_stack_def l_def f Let_def)
    have "?n > 0" using h(4) u by (cases "?n") auto
    then have m: "reclaim_mark (ei_uncaught inp) ?n at_catch = FRAME_END_EXCEPTION"
      by (simp add: reclaim_mark_def)
    have "r \<in> set (drop (length (frames ?t1) - ?n) (frames ?t1))" using h(4) u by simp
    from reclaim_dead_records_unwound [OF h(1) _ _ on_catch.dead_le this h(5),
        of "ei_uncaught inp" at_catch] h(2,3) m
    show ?thesis by (simp add: t2_def reclaim_unwound_def guarded_same)
  qed
qed

text \<open>The text of a catch that finds the file in use.\<close>

definition catch_line_text ::
    "config \<Rightarrow> event_input \<Rightarrow> event_type \<Rightarrow> string option \<Rightarrow> bool \<Rightarrow> addr \<Rightarrow> caches \<Rightarrow> type_names
       \<Rightarrow> time_cache \<Rightarrow> int \<Rightarrow> string" where
  "catch_line_text cfg inp type w dependent site c names tc depth =
     event_line_text cfg inp ''catch'' ''caught at'' [] DURATION_EVENT_CATCH
       (fst (exception_type_name (in_world (ei_resolver inp)) type names))
       (catch_what inp w dependent) (site_of inp (Some (site - 1)) c) tc depth"

lemma on_catch_text:
  fixes cfg :: config and inp :: event_input
  assumes "\<not> in_instrumentation t" "reported_catch inp site c" "plain_stack inp site frame t"
    and "event_succeeds inp" "file_in_use g t"
    and "on_catch cfg inp type w dependent site frame (c, names, g) t = (terminating, (c', names', g'), t')"
  defines "t2 \<equiv> reclaim_unwound cfg inp (catcher_level inp site frame t)
      (resolve_thread_stack_bounds (ei_stack inp) (t\<lparr>in_instrumentation := True\<rparr>))"
  shows "\<not> terminating" "frames t' = frames t2" "current_stack_depth t' = current_stack_depth t2"
    and "file_bytes t' = file_bytes t2 @ catch_line_text cfg inp type w dependent site c names
           (thread_time t) (current_stack_depth t2 + 1)"
proof -
  let ?name = "fst (exception_type_name (in_world (ei_resolver inp)) type names)"
  obtain sh1 threw g1 t1 where o: "on_catch cfg inp type w dependent site frame (c, names, g) t =
       (False, sh1, t1\<lparr>in_instrumentation := False\<rparr>)"
    "frames t1 = frames t2" "current_stack_depth t1 = current_stack_depth t2"
    "\<not> chain_throws (ei_resolver inp) \<longrightarrow> write_event_line cfg inp ''catch'' ''caught at'' []
       DURATION_EVENT_CATCH ?name (catch_what inp w dependent) (site_of inp (Some (site - 1)) c) g t2 =
       (threw, g1, t1)"
    unfolding t2_def using on_catch_plain [OF assms(1-3), of cfg type w dependent names g] by metis
  have "file_in_use g t2" "thread_time t2 = thread_time t"
    using reclaimed_by_catch(3,4) [OF assms(3), where cfg = cfg] assms(5) by (simp_all add: t2_def)
  with o(4) assms(4) write_event_line_text [of g t2 inp]
  have "t1 = with_line cfg (time_after inp (thread_time t))
      (catch_line_text cfg inp type w dependent site c names (thread_time t) (current_stack_depth t2 + 1)) t2"
    by (simp add: event_succeeds_def catch_line_text_def)
  with o(1-3) assms(6) show "\<not> terminating" "frames t' = frames t2"
    "current_stack_depth t' = current_stack_depth t2"
    "file_bytes t' = file_bytes t2 @ catch_line_text cfg inp type w dependent site c names
           (thread_time t) (current_stack_depth t2 + 1)"
    by auto
qed

section \<open>Properties\<close>

text \<open>
  C15. A catch unwinds exactly, on a plain stack: the records left are those of the frames at or above
  the catcher's level, in their order, and the depth falls by the logged ones among the others,
  whatever happens to the line of the event. A plain stack is one whose unwound frames are the
  youngest records and lie, as the catcher does, on the thread's own stack, and where at most one
  record, the catcher's own, has the catcher's level: no function inlined into it has one. The catch is
  outside the tracer and reported as one: the lookups of its site and of the type name succeed, and
  the site is not Clang's terminate stub.
\<close>

theorem catch_unwinds_exactly:
  assumes "\<not> in_instrumentation t" "reported_catch inp site c" "plain_stack inp site frame t"
    and "on_catch cfg inp type w dependent site frame (c, names, g) t = (terminating, sh', t')"
  shows "\<not> terminating \<and>
    frames t' = filter (\<lambda>r. catcher_level inp site frame t \<le> rec_level r) (frames t) \<and>
    current_stack_depth t' = current_stack_depth t -
      int (length (filter (\<lambda>r. logged r \<and> rec_level r < catcher_level inp site frame t) (frames t)))"
proof -
  obtain sh0 t0 where o: "on_catch cfg inp type w dependent site frame (c, names, g) t =
       (False, sh0, t0\<lparr>in_instrumentation := False\<rparr>)"
    "frames t0 = filter (\<lambda>r. catcher_level inp site frame t \<le> rec_level r) (frames t)"
    "current_stack_depth t0 = current_stack_depth t -
       logged_count (unwound (catcher_level inp site frame t) (frames t))"
    using on_catch_plain [OF assms(1-3), of cfg type w dependent names g]
      reclaimed_by_catch(1,2) [OF assms(3), where cfg = cfg] by metis
  then show ?thesis using assms(4) by (auto simp: logged_count_def unwound_def conj_commute)
qed

text \<open>Two frames, of which the upper one is unwound; its line is the last one of the file.\<close>

definition quiet_event :: event_input where
  "quiet_event =
     \<lparr>ei_open = sample_io, ei_resolver = hi_resolver (sample_hook 64 1000), ei_levels = plain_levels,
      ei_stack = None, ei_clock = 0, ei_uncaught = 0, ei_write = Wrote_line, ei_current_what = None,
      type_name_throws = False\<rparr>"

definition sample_record :: "addr \<Rightarrow> int \<Rightarrow> int \<Rightarrow> frame_record" where
  "sample_record level start depth =
     \<lparr>rec_callee = 64, rec_caller = 129, rec_level = level, logged = True, name_base = None,
      uncaught_at_enter = 0, enter_time = 0, line_start = start, line_depth = depth\<rparr>"

definition caught_text :: string where
  "caught_text = ''[01-01-2025 12:00:00.000] '' @ DURATION_PLACEHOLDER @ '' |_ g'' @ [newline]"

definition caught_thread :: thread_state where
  "caught_thread = (fresh_thread 0 caught_text)\<lparr>frames := [sample_record 900 (- 1) 0, sample_record 700 0 1],
     current_stack_depth := 1, trace_fp := True, patch_fd := True, open_attempted := True\<rparr>"

lemma sample_catcher_level: "catcher_level quiet_event 129 frame t = frame + 24"
  by (simp add: catcher_level_def quiet_event_def plain_levels_def measured_frame_level_def
      measured_rule_def measure_level_rule_def apply_level_rule_def MIN_LEVEL_DISTANCE_def Let_def)

lemma sample_reported: "reported_catch quiet_event 129 empty_caches"
proof -
  have "caller_function_base (fst (resolve_location named_world id empty_caches 128 empty_view)) \<noteq>
      Some CLANG_TERMINATE_STUB" by code_simp
  then show ?thesis
    by (simp add: reported_catch_def quiet_event_def sample_hook_def site_of_def resolve_event_site_def
        Let_def case_prod_beta)
qed

lemma caught_thread_fields:
  "frames caught_thread = [sample_record 900 (- 1) 0, sample_record 700 0 1]"
  "\<not> in_instrumentation caught_thread" "event_bounds quiet_event caught_thread = unknown_bounds"
  by (simp_all add: caught_thread_def fresh_thread_def event_bounds_def resolve_thread_stack_bounds_def
      quiet_event_def)

lemma caught_thread_plain: "plain_stack quiet_event 129 776 caught_thread"
  unfolding plain_stack_def sample_catcher_level caught_thread_fields(1,3) Let_def
  by (simp add: sample_record_def all_on_stack_def unknown_on_stack single_at_def unwound_def)

theorem catch_unwinds_exactly_witness:
  "case on_catch sample_config quiet_event \<lparr>et_info = None, et_label = None\<rparr> None False 129 776
          (empty_caches, Map.empty, initial_globals\<lparr>trace_ready := True\<rparr>) caught_thread of
     (terminating, sh', t') \<Rightarrow>
       \<not> terminating \<and> frames t' = [sample_record 900 (- 1) 0] \<and> current_stack_depth t' = 0"
proof -
  obtain terminating sh' t' where o: "on_catch sample_config quiet_event \<lparr>et_info = None, et_label = None\<rparr>
      None False 129 776 (empty_caches, Map.empty, initial_globals\<lparr>trace_ready := True\<rparr>) caught_thread =
      (terminating, sh', t')" by (metis prod_cases3)
  from catch_unwinds_exactly [OF caught_thread_fields(2) sample_reported caught_thread_plain o]
  show ?thesis
    unfolding o by (simp add: sample_catcher_level caught_thread_def sample_record_def fresh_thread_def)
qed

text \<open>
  C16. A catch shows what it unwound, on a plain stack: it rewrites the fields of the lines of the
  unwound frames and nothing else of what was there, each of these lines then reads as left by an
  exception, and the line of the catch follows at the end, one level below the catching frame. The
  stack and the catch are as in C15; all lookups of the event, that of the inline chain too, succeed
  and its line is written whole; the build traces exceptions, the file is in use with its patch
  descriptor open, and the open lines have their fields as C6 has them.
\<close>

theorem unwound_lines_marked:
  assumes "\<not> in_instrumentation t" "reported_catch inp site c" "plain_stack inp site frame t"
    and "event_succeeds inp" "file_in_use g t" "log_exceptions cfg" "lines_ok cfg t" "patch_fd t"
    and "on_catch cfg inp type w dependent site frame (c, names, g) t = (terminating, sh', t')"
    and "dead = filter (\<lambda>r. rec_level r < catcher_level inp site frame t) (frames t)"
  shows "\<exists>f. length f = length (file_bytes t) \<and> patched_within (dead_positions cfg dead) (file_bytes t) f \<and>
    (\<forall>r \<in> set dead. logged r \<and> 0 \<le> line_start r \<longrightarrow> unwound_line cfg FRAME_END_EXCEPTION f r) \<and>
    file_bytes t' = f @ catch_line_text cfg inp type w dependent site c names (thread_time t)
                          (current_stack_depth t' + 1)"
proof -
  obtain c' names' g' where sh: "sh' = (c', names', g')" by (metis prod_cases3)
  have dead: "dead = unwound (catcher_level inp site frame t) (frames t)"
    by (simp add: assms(10) unwound_def)
  note o = on_catch_text [OF assms(1-5) assms(9) [unfolded sh]]
  note r = reclaimed_by_catch(5,6) [OF assms(3), where cfg = cfg, folded dead]
  show ?thesis
    using o(3,4) r(1) [OF assms(7)] r(2) [OF assms(6-8)] by (auto simp: located_def)
qed

lemma caught_thread_lines: "lines_ok sample_config caught_thread"
  by (simp add: lines_ok_def caught_thread_def fresh_thread_def sample_record_def open_line_def
      inside_file_def patch_positions_def sample_config_def LINE_PREFIX_EXTRA_def tree_glyph_offset_def
      width_defs caught_text_def DURATION_PLACEHOLDER_def) auto

theorem unwound_lines_marked_witness:
  "case on_catch sample_config quiet_event \<lparr>et_info = None, et_label = None\<rparr> None False 129 776
          (empty_caches, Map.empty, initial_globals\<lparr>trace_ready := True\<rparr>) caught_thread of
     (terminating, sh', t') \<Rightarrow>
       (\<exists>f rest. file_bytes t' = f @ rest \<and> length f = length caught_text \<and>
          unwound_line sample_config FRAME_END_EXCEPTION f (sample_record 700 0 1))"
proof -
  obtain terminating sh' t' where o: "on_catch sample_config quiet_event \<lparr>et_info = None, et_label = None\<rparr>
      None False 129 776 (empty_caches, Map.empty, initial_globals\<lparr>trace_ready := True\<rparr>) caught_thread =
      (terminating, sh', t')" by (metis prod_cases3)
  have e: "event_succeeds quiet_event" "file_in_use (initial_globals\<lparr>trace_ready := True\<rparr>) caught_thread"
    "log_exceptions sample_config" "patch_fd caught_thread" "file_bytes caught_thread = caught_text"
    by (simp_all add: event_succeeds_def quiet_event_def sample_hook_def file_in_use_def caught_thread_def
        initial_globals_def sample_config_def fresh_thread_def)
  have "filter (\<lambda>r. rec_level r < catcher_level quiet_event 129 776 caught_thread) (frames caught_thread) =
      [sample_record 700 0 1]"
    by (simp add: sample_catcher_level caught_thread_def sample_record_def)
  from unwound_lines_marked [OF caught_thread_fields(2) sample_reported caught_thread_plain e(1-3)
      caught_thread_lines e(4) o this [symmetric]]
  show ?thesis unfolding o by (auto simp: e(5) sample_record_def)
qed

end
