(* ===== verification/ProcessProperties.thy ===== *)
theory ProcessProperties
  imports EventEffects
begin

text \<open>
  The properties of every reachable process: the bookkeeping of its threads, the registry of open
  files, the patch fields of open lines, what a step may change of a file, and the silence of threads
  that ended, of a terminating thread, and of the process after the shutdown, and that the tracer does
  not stop the program.
\<close>

section \<open>A sample run\<close>

definition any_env :: "process_op \<Rightarrow> process \<Rightarrow> bool" where
  "any_env op p \<longleftrightarrow> True"

definition sample_linker :: dynamic_linker where
  "sample_linker = \<lparr>dl_next = (\<lambda>_. Some 4096), dl_file = (\<lambda>_. None), dl_open = (\<lambda>_. None),
     dl_symbol = (\<lambda>_ _. None), dl_size = (\<lambda>_. None)\<rparr>"

definition sample_begin :: begin_input where
  "sample_begin = \<lparr>bi_gettid = 7, bi_env = None, bi_cwd = Some ''/tmp'',
     bi_render = (\<lambda>_. ''01-01-2025 12:00:00''), bi_clock = 0,
     bi_active = (\<lambda>_. Some 512), bi_linker = sample_linker, bi_own = (\<lambda>_. 512)\<rparr>"

lemma sample_render: "length ''01-01-2025 12:00:00'' = 19"
  by simp

lemma sample_verified [simp]:
  "verify_interposers (\<lambda>_. Some 512) sample_linker (\<lambda>_. 512) = Inr []"
  by (simp add: verify_interposers_def interposer_entries_def sample_linker_def)

lemma sample_begin_succeeds:
  "\<exists>g t. trace_begin sample_config sample_begin initial_globals (fresh_thread 0 []) = Some (g, t)"
proof -
  obtain now tc where now: "pretty_time (bi_render sample_begin) zero_time_cache (bi_clock sample_begin) = (now, tc)"
    by fastforce
  have "length now = PRETTY_TIME_LENGTH"
    using time_shape_step(2) [of zero_time_cache "bi_render sample_begin" "bi_clock sample_begin" now tc] now
    by (simp add: pretty_time_def time_shape_def zero_time_cache_def sample_begin_def)
  then show ?thesis
    using now
    by (simp add: trace_begin_def Let_def case_prod_beta fresh_thread_def sample_config_def)
      (simp add: sample_begin_def)
qed

text \<open>The main thread starts, calls a function that calls another, and a second thread begins to run.\<close>

definition sample_ops :: "process_op list" where
  "sample_ops =
     [Begin sample_begin, Enter 0 (sample_hook 64 1000), Enter 0 (sample_hook 80 900),
      Enter 1 (sample_hook 64 5000), Exit 0 (sample_hook 80 900)]"

lemma sample_run:
  "\<exists>p. process_run sample_config sample_ops (initial_process (\<lambda>_. [])) = Some p"
  using sample_begin_succeeds
  by (auto simp: sample_ops_def initial_process_def case_prod_beta Let_def split: option.split)

lemma sample_allowed:
  "allowed_run sample_config any_env sample_ops (initial_process (\<lambda>_. []))"
  using sample_begin_succeeds
  by (auto simp: sample_ops_def initial_process_def any_env_def initial_globals_def case_prod_beta Let_def
      split: option.split)

lemma sample_reachable:
  "\<exists>p. reachable sample_config any_env (\<lambda>_. []) p \<and>
       process_run sample_config sample_ops (initial_process (\<lambda>_. [])) = Some p"
  using sample_run reachable_run [OF reachable.initial sample_allowed] by blast

section \<open>Bookkeeping\<close>

lemma reachable_tracer_ok: "reachable cfg env existing p \<Longrightarrow> tracer_ok (p_threads p i)"
proof (induction arbitrary: i rule: reachable.induct)
  case initial
  then show ?case by (simp add: initial_process_def tracer_ok_fresh)
next
  case (step p op p')
  show ?case
  proof (cases "i = op_thread op")
    case True
    then show ?thesis using tracer_ok_step [OF step(4)] step.IH by simp
  next
    case False
    then show ?thesis using other_threads_unchanged [OF step(4)] step.IH by simp
  qed
qed

text \<open>
  C4. In every reachable process, whatever the hooks' environments do, each thread's depth is the
  number of its logged records less one, its count of overflow frames is not negative, and its
  record stack fits the capacity it reserved.
\<close>

theorem bookkeeping_of_every_thread:
  assumes "reachable cfg env existing p"
  shows "current_stack_depth (p_threads p i) = int (length (filter logged (frames (p_threads p i)))) - 1 \<and>
    0 \<le> frame_overflow_count (p_threads p i) \<and>
    length (frames (p_threads p i)) \<le> frames_capacity (p_threads p i)"
  using reachable_tracer_ok [OF assms, of i] by (simp add: tracer_ok_def logged_count_def)

theorem bookkeeping_of_every_thread_witness:
  "\<exists>p. process_run sample_config sample_ops (initial_process (\<lambda>_. [])) = Some p \<and>
     current_stack_depth (p_threads p 0) = int (length (filter logged (frames (p_threads p 0)))) - 1 \<and>
     0 \<le> frame_overflow_count (p_threads p 0) \<and>
     length (frames (p_threads p 0)) \<le> frames_capacity (p_threads p 0)"
  using sample_reachable bookkeeping_of_every_thread [where i = 0] by blast

section \<open>The registry\<close>

lemma reachable_registry: "reachable cfg env existing p \<Longrightarrow> registry_invariant p"
  by (induction rule: reachable.induct) (auto simp: registry_initial intro: registry_step)

text \<open>
  C5. In every reachable process the registry of open files lists each file at most once; until the
  shutdown it lists exactly the files of the threads that registered, all of which are open; after
  the shutdown it is empty.
\<close>

theorem open_files_registered:
  assumes "reachable cfg env existing p"
  shows "distinct (open_files (p_globals p)) \<and>
    (if shutdown_complete (p_globals p) then open_files (p_globals p) = []
     else set (open_files (p_globals p)) = {i. registered (p_threads p i)}) \<and>
    (registered (p_threads p i) \<longrightarrow> trace_fp (p_threads p i))"
proof -
  have r: "file_id (p_threads p i) = i \<and>
      registry_ok (trace_ready (p_globals p)) (shutdown_complete (p_globals p))
        (others (open_files (p_globals p)) i) (p_globals p) (p_threads p i)" for i
    using reachable_registry [OF assms] by (simp add: registry_invariant_def)
  have mem: "i \<in> set (open_files (p_globals p)) \<longleftrightarrow> registered (p_threads p i)"
    if "\<not> shutdown_complete (p_globals p)" for i
  proof -
    have "file_id (p_threads p i) = i" using r by blast
    with r [of i] that show ?thesis by (simp add: registry_ok_def)
  qed
  have "distinct (open_files (p_globals p))"
    "shutdown_complete (p_globals p) \<longrightarrow> open_files (p_globals p) = []"
    "registered (p_threads p i) \<longrightarrow> trace_fp (p_threads p i)"
    using r [of i] by (simp_all add: registry_ok_def)
  with mem show ?thesis by auto
qed

theorem open_files_registered_witness:
  "\<exists>p. process_run sample_config sample_ops (initial_process (\<lambda>_. [])) = Some p \<and>
     distinct (open_files (p_globals p)) \<and>
     (if shutdown_complete (p_globals p) then open_files (p_globals p) = []
      else set (open_files (p_globals p)) = {i. registered (p_threads p i)}) \<and>
     (registered (p_threads p 1) \<longrightarrow> trace_fp (p_threads p 1))"
  using sample_reachable open_files_registered [where i = 1] by blast

section \<open>Silence\<close>

lemma guarded_runtime_step:
  "in_instrumentation t \<Longrightarrow> runtime_step cfg call (ist, sh, t) = Some s \<Longrightarrow> s = (ist, sh, t)"
  by (simp split: if_splits)

lemma phase_step:
  assumes "process_step cfg op p = Some p'" "trace_ready (p_globals p)" "\<forall>bi. op \<noteq> Begin bi"
  shows "trace_ready (p_globals p')"
proof (cases "is_call op")
  case True
  have "op_good (\<lambda>_. True) (\<lambda>_. True) (\<lambda>_. True) op p" by (cases op) simp_all
  from phase.hook_step_keeps [OF assms(1) True this, of True "shutdown_complete (p_globals p)"] assms(2)
  show ?thesis by (simp add: in_phase_def)
next
  case False
  with assms show ?thesis
    by (cases op) (auto simp: trace_shutdown_def close_thread_file_def Let_def split: if_splits prod.splits)
qed

text \<open>What stays of a thread whose guard is set for good.\<close>

definition sealed :: "thread_state \<Rightarrow> thread_state \<Rightarrow> bool" where
  "sealed t t' \<longleftrightarrow> in_instrumentation t' \<and> file_bytes t' = file_bytes t \<and> frames t' = frames t \<and>
     current_stack_depth t' = current_stack_depth t"

lemma sealed_step:
  assumes "process_step cfg op p = Some p'" "\<forall>bi. op \<noteq> Begin bi" "in_instrumentation (p_threads p i)"
  shows "sealed (p_threads p i) (p_threads p' i)"
proof (cases "op_thread op = i")
  case False
  then show ?thesis
    using other_threads_unchanged [OF assms(1), of i] assms(3) by (simp add: sealed_def)
next
  case True
  show ?thesis
  proof (cases op)
    case (Runtime j call)
    with True have j: "j = i" by simp
    from assms(1) [unfolded Runtime j] obtain ist c names g t where r: "runtime_step cfg call
        (p_interposers p i, (p_caches p, p_names p, p_globals p), p_threads p i) = Some (ist, (c, names, g), t)"
      and t: "p_threads p' i = t" by (rule runtime_stepE)
    from guarded_runtime_step [OF assms(3) r] t assms(3) show ?thesis by (simp add: sealed_def)
  next
    case (Api j call)
    have "sealed (p_threads p i) (snd (api_step call (p_caches p) (p_threads p i)))"
      using assms(3) by (subst api_step_thread) (simp add: sealed_def)
    with assms(1) True Api api_step_result(1) show ?thesis by simp
  qed (use assms True guarded_hooks [OF assms(3)] in
      \<open>auto simp: sealed_def trace_shutdown_def close_thread_file_def Let_def
         split: if_splits prod.splits\<close>)
qed

text \<open>
  A thread that ended, or that ran the shutdown, is silent: once its guard is set between two
  steps of a started tracer, no later step of any thread changes its trace file, its records or its
  depth, and its guard stays set.
\<close>

theorem ended_thread_is_silent:
  assumes "process_run cfg ops p = Some p'" "allowed_run cfg env ops p"
    and "trace_ready (p_globals p)" "in_instrumentation (p_threads p i)"
  shows "in_instrumentation (p_threads p' i) \<and> file_bytes (p_threads p' i) = file_bytes (p_threads p i) \<and>
    frames (p_threads p' i) = frames (p_threads p i) \<and>
    current_stack_depth (p_threads p' i) = current_stack_depth (p_threads p i)"
proof -
  have "sealed (p_threads p i) (p_threads p' i)"
    using assms
  proof (induction ops arbitrary: p)
    case Nil
    then show ?case by (simp add: sealed_def)
  next
    case (Cons op ops)
    then obtain p1 where p1: "process_step cfg op p = Some p1" "process_run cfg ops p1 = Some p'"
      by (auto split: option.splits)
    have nb: "\<forall>bi. op \<noteq> Begin bi" using Cons.prems(2,3) by auto
    note s = sealed_step [OF p1(1) nb Cons.prems(4)]
    have "sealed (p_threads p1 i) (p_threads p' i)"
      using Cons.prems(2) p1 phase_step [OF p1(1) Cons.prems(3) nb] s
      by (intro Cons.IH) (simp_all add: sealed_def)
    with s show ?case by (simp add: sealed_def)
  qed
  then show ?thesis by (simp add: sealed_def)
qed

definition ended_process :: process where
  "ended_process = (initial_process (\<lambda>_. ''old''))\<lparr>p_globals := initial_globals\<lparr>trace_ready := True\<rparr>\<rparr>"

theorem ended_thread_is_silent_witness:
  "\<exists>p p'. process_step sample_config (Thread_end 1) ended_process = Some p \<and>
     process_run sample_config [Enter 1 (sample_hook 64 1000), Exit 1 (sample_hook 64 1000)] p = Some p' \<and>
     in_instrumentation (p_threads p' 1) \<and> file_bytes (p_threads p' 1) = file_bytes (p_threads p 1) \<and>
     frames (p_threads p' 1) = frames (p_threads p 1) \<and>
     current_stack_depth (p_threads p' 1) = current_stack_depth (p_threads p 1)"
proof -
  let ?ops = "[Enter 1 (sample_hook 64 1000), Exit 1 (sample_hook 64 1000)]"
  obtain p where p: "process_step sample_config (Thread_end 1) ended_process = Some p"
    "trace_ready (p_globals p)" "in_instrumentation (p_threads p 1)"
    by (simp add: ended_process_def initial_process_def close_thread_file_def fresh_thread_def Let_def)
  obtain p' where p': "process_run sample_config ?ops p = Some p'"
    by (simp add: case_prod_beta Let_def)
  have "allowed_run sample_config any_env ?ops p"
    by (simp add: any_env_def split: option.split)
  from ended_thread_is_silent [OF p' this p(2,3)] p(1) p' show ?thesis by blast
qed

lemma silent_step:
  "silent ist t \<Longrightarrow> forwards call \<Longrightarrow> runtime_step cfg call (ist, sh, t) = Some (ist, sh, t)"
  by (cases call)
    (simp_all add: cslg_cxa_throw_def cslg_cxa_rethrow_def cslg_rethrow_exception_def
      cslg_cxa_begin_catch_def cslg_terminate_def)

lemma silent_run:
  "silent ist t \<Longrightarrow> \<forall>call \<in> set calls. forwards call \<Longrightarrow>
   runtime_run cfg calls (ist, sh, t) = Some (ist, sh, t)"
  by (induction calls) (simp_all add: silent_step)

lemma runtime_run_append:
  "runtime_run cfg (xs @ ys) s = Option.bind (runtime_run cfg xs s) (runtime_run cfg ys)"
  by (induction xs arbitrary: s) (simp_all split: option.split)

lemma terminate_silences:
  "cslg_terminate cfg inp s = Some (ist, sh, t) \<Longrightarrow> silent ist t"
  by (auto simp: cslg_terminate_def silent_def Let_def split: if_splits prod.splits)

text \<open>
  Nothing follows a termination: after \<open>std::terminate\<close> was reached on a thread, its later throws,
  rethrows, catches and terminations go to the runtime and leave no trace, whatever they are: the
  run ends in the state the termination left.
\<close>

theorem terminate_is_last:
  assumes "\<forall>call \<in> set later. forwards call"
  shows "runtime_run cfg (earlier @ Terminate inp # later) s = runtime_run cfg (earlier @ [Terminate inp]) s"
proof -
  have "runtime_run cfg (Terminate inp # later) s1 = runtime_run cfg [Terminate inp] s1" for s1
  proof (cases "cslg_terminate cfg inp s1")
    case (Some s2)
    obtain ist sh t where s2: "s2 = (ist, sh, t)" by (metis prod_cases3)
    have "silent ist t" using Some by (simp add: s2 terminate_silences)
    from silent_run [OF this assms, of cfg sh] Some show ?thesis by (simp add: s2)
  qed simp
  then show ?thesis
    by (cases "runtime_run cfg earlier s") (simp_all only: runtime_run_append Option.bind.simps)
qed

definition sample_runtime :: runtime_input where
  "sample_runtime = \<lparr>ri_event = quiet_event, ri_linker = sample_linker,
     ri_current_type = Some ''i'', ri_object = Some PRIMARY_EXCEPTION_CLASS, ri_text = None,
     ri_return = 72, ri_frame = 1000\<rparr>"

theorem terminate_is_last_witness:
  "runtime_run sample_config
     ([Throw sample_runtime (Some ''i'')] @ Terminate sample_runtime #
        [Begin_catch sample_runtime, Rethrow sample_runtime])
     (initial_interposer, (empty_caches, Map.empty, initial_globals), fresh_thread 0 []) =
   runtime_run sample_config ([Throw sample_runtime (Some ''i'')] @ [Terminate sample_runtime])
     (initial_interposer, (empty_caches, Map.empty, initial_globals), fresh_thread 0 [])"
  by (rule terminate_is_last) (simp add: sample_runtime_def sample_linker_def next_definition_def)

section \<open>Open lines\<close>

text \<open>
  The environments the file's layout needs: seconds render to the 19 bytes of the date format, times
  are not before the epoch, headers are written whole and do not run out of memory, the resolver is built with the same
  options, and the tree fits a line.
\<close>

fun timed_env :: "config \<Rightarrow> process_op \<Rightarrow> process \<Rightarrow> bool" where
  "timed_env cfg (Begin bi) p \<longleftrightarrow> (\<forall>s. length (bi_render bi s) = 19)"
| "timed_env cfg (Enter i inp) p \<longleftrightarrow> timed_hook cfg inp \<and> tree_fits cfg (p_threads p i)"
| "timed_env cfg (Runtime i call) p \<longleftrightarrow> timed_io (ei_open (ri_event (call_input call)))"
| "timed_env cfg _ p \<longleftrightarrow> True"

lemma timed_good: "timed_env cfg op p \<Longrightarrow> is_call op \<Longrightarrow> op_good timed_io (timed_hook cfg) (tree_fits cfg) op p"
  by (cases op) simp_all

lemma file_ok_begin:
  assumes "file_ok cfg t" "\<forall>s. length (bi_render bi s) = 19" "trace_begin cfg bi g t = Some (g', t')"
  shows "file_ok cfg t'"
proof -
  obtain tc where tc: "pretty_time (bi_render bi) (thread_time t) (bi_clock bi) = (fst (pretty_time
      (bi_render bi) (thread_time t) (bi_clock bi)), tc)" by (metis prod.collapse)
  have "time_shape (snd (pretty_time (bi_render bi) (thread_time t) (bi_clock bi)))"
    using assms(1,2) by (intro time_shape_pretty_time) (simp_all add: file_ok_def)
  moreover have "thread_time t' = thread_time t \<or>
      thread_time t' = snd (pretty_time (bi_render bi) (thread_time t) (bi_clock bi))"
    using assms(3) unfolding trace_begin_def current_tid_def Let_def case_prod_beta
    by (auto split: if_split_asm)
  ultimately have "time_shape (thread_time t')" using assms(1) by (auto simp: file_ok_def)
  with assms(1) show ?thesis
    by (simp add: file_ok_def lines_ok_def cursor_ok_def trace_begin_fields [OF assms(3)])
qed

lemma file_ok_end:
  assumes "file_ok cfg t"
  shows "file_ok cfg (snd (trace_shutdown g t))" "file_ok cfg (snd (close_thread_file g t))"
  using assms
  by (simp_all add: file_ok_def lines_ok_def cursor_ok_def trace_shutdown_def close_thread_file_def Let_def)

lemma file_ok_step:
  assumes "process_step cfg op p = Some p'" "timed_env cfg op p" "file_ok cfg (p_threads p (op_thread op))"
  shows "file_ok cfg (p_threads p' (op_thread op))"
proof (cases "is_call op")
  case True
  from patches.hook_step_keeps [OF assms(1) True timed_good [OF assms(2) True] assms(3)] show ?thesis .
next
  case False
  show ?thesis
  proof (cases op)
    case (Begin bi)
    from assms(1) [unfolded Begin] obtain g t
      where b: "trace_begin cfg bi (p_globals p) (p_threads p 0) = Some (g, t)"
        "p' = p\<lparr>p_globals := g, p_threads := (p_threads p)(0 := t)\<rparr>" by (rule begin_stepE)
    from file_ok_begin [OF _ _ b(1)] assms(2,3) Begin b(2) show ?thesis by simp
  next
    case (Shutdown i)
    then show ?thesis
      using file_ok_end(1) [of cfg "p_threads p i" "p_globals p"] assms(1,3) by (auto simp: Let_def split: prod.splits)
  next
    case (Thread_end i)
    then show ?thesis
      using file_ok_end(2) [of cfg "p_threads p i" "p_globals p"] assms(1,3) by (auto simp: Let_def split: prod.splits)
  qed (use False in simp_all)
qed

lemma reachable_file_ok: "reachable cfg (timed_env cfg) existing p \<Longrightarrow> file_ok cfg (p_threads p i)"
proof (induction arbitrary: i rule: reachable.induct)
  case initial
  then show ?case by (simp add: initial_process_def file_ok_fresh)
next
  case (step p op p')
  show ?case
  proof (cases "i = op_thread op")
    case True
    then show ?thesis using file_ok_step [OF step(4,3)] step.IH by simp
  next
    case False
    then show ?thesis using other_threads_unchanged [OF step(4)] step.IH by simp
  qed
qed

text \<open>
  C6. Open lines stay patchable: in every process reached in such environments (seconds render to 19
  bytes, times are not before the epoch, headers are written whole and do not throw, the resolver's
  address column follows the build, and the tree at the depth of a call fits a line), whatever threads
  interleave, lines are written short or files fail to open, each record that has a line on its
  thread's stack still finds, at the offsets computed from the line's start and depth, the pending
  placeholder and the glyph, inside the file, and no two records of the stack share a byte of
  their fields.
\<close>

theorem open_lines_patchable:
  assumes "reachable cfg (timed_env cfg) existing p" "r \<in> set (frames (p_threads p i))"
    and "logged r" "0 \<le> line_start r"
  shows "(log_elapsed cfg \<longrightarrow>
      take DURATION_FIELD_WIDTH (drop (nat (line_start r) + PLACEHOLDER_OFFSET_IN_LINE)
        (file_bytes (p_threads p i))) = DURATION_PLACEHOLDER) \<and>
    (log_exceptions cfg \<and> 1 \<le> line_depth r \<longrightarrow>
      file_bytes (p_threads p i) ! (nat (line_start r)
        + tree_glyph_offset (line_depth r) (LINE_PREFIX_EXTRA cfg)) = CHR ''|'') \<and>
    patch_positions cfg r \<subseteq> {..< length (file_bytes (p_threads p i))} \<and>
    sorted_wrt (\<lambda>r r'. patch_positions cfg r \<inter> patch_positions cfg r' = {}) (frames (p_threads p i))"
proof -
  have "lines_ok cfg (p_threads p i)" using reachable_file_ok [OF assms(1)] by (simp add: file_ok_def)
  with assms(2) have "open_line cfg (file_bytes (p_threads p i)) r"
    "sorted_wrt (\<lambda>r r'. patch_positions cfg r \<inter> patch_positions cfg r' = {}) (frames (p_threads p i))"
    by (simp_all add: lines_ok_def)
  then show ?thesis using assms(3,4) by (simp add: open_line_def inside_file_def)
qed

text \<open>The main thread enters its first function: its record is on the stack, its line in the file.\<close>

lemma timed_begin: "timed_env cfg (Begin sample_begin) p"
  by (simp add: sample_begin_def)

lemma sample_open_line:
  obtains p r where "reachable sample_config (timed_env sample_config) (\<lambda>_. ''old'') p"
    "r \<in> set (frames (p_threads p 0))" "logged r" "0 \<le> line_start r"
proof -
  let ?p0 = "initial_process (\<lambda>_. ''old'')"
  let ?t0 = "fresh_thread 0 ''old''"
  obtain now tc where now: "pretty_time (bi_render sample_begin) zero_time_cache (bi_clock sample_begin) = (now, tc)"
    by fastforce
  have zero: "time_shape zero_time_cache" by (simp add: time_shape_def zero_time_cache_def)
  have tc: "time_shape tc" "length now = PRETTY_TIME_LENGTH"
    using time_shape_step [OF zero _ now [unfolded pretty_time_def]]
    by (simp_all add: sample_begin_def)
  obtain g t where b: "trace_begin sample_config sample_begin initial_globals ?t0 = Some (g, t)"
    "t = ?t0\<lparr>thread_time := tc, cached_tid := 7\<rparr>" "trace_ready g" "\<not> shutdown_complete g"
    using now tc(2)
    by (simp add: trace_begin_def Let_def case_prod_beta fresh_thread_def sample_config_def current_tid_def
        line_patching_def initial_globals_def)
      (simp add: sample_begin_def)
  define p1 where "p1 = ?p0\<lparr>p_globals := g, p_threads := (p_threads ?p0)(0 := t)\<rparr>"
  have s1: "process_step sample_config (Begin sample_begin) ?p0 = Some p1"
    using b(1) by (simp add: p1_def initial_process_def)
  have r1: "reachable sample_config (timed_env sample_config) (\<lambda>_. ''old'') p1"
  proof (rule reachable.step [OF reachable.initial _ _ s1])
    show "admissible sample_config (Begin sample_begin) ?p0"
      by (simp add: initial_process_def initial_globals_def)
  qed (rule timed_begin)
  have st: "settled (\<lambda>_. minimum_rule) unknown_bounds 2000 t"
    using settled_fresh [of "\<lambda>_. minimum_rule" unknown_bounds 2000 0 "''old''"]
    by (simp add: b(2) settled_def calm_def tracer_ok_def logged_count_def)
  have w: "writes sample_config empty_caches g t ((first_writer empty_caches)\<lparr>w_tid := 7, w_time := tc\<rparr>)"
    using b tc by (simp add: writes_def fresh_thread_def first_writer_def)
  obtain c2 g2 t2 where e: "enter_hook sample_config (sample_hook 64 1000) empty_caches g t = (c2, g2, t2)"
    by (metis prod_cases3)
  have d: "current_stack_depth t = - 1" by (simp add: b(2) fresh_thread_def)
  obtain r where r: "frames t2 = frames t @ [r]" "logged r" "0 \<le> line_start r"
    by (rule first_line_located [OF st w _ d e]) (simp add: first_writer_def)
  obtain p2 where s2: "process_step sample_config (Enter 0 (sample_hook 64 1000)) p1 = Some p2"
    "p_threads p2 0 = t2"
    using e by (simp add: p1_def initial_process_def)
  have "timed_hook sample_config (sample_hook 64 1000)" using sample_undisturbed by (simp add: sample_tree_def)
  moreover have "tree_fits sample_config (p_threads p1 0)"
    using sample_undisturbed by (simp add: sample_tree_def p1_def tree_fits_def d)
  ultimately have "reachable sample_config (timed_env sample_config) (\<lambda>_. ''old'') p2"
    by (intro reachable.step [OF r1 _ _ s2(1)]) simp_all
  with s2(2) r show thesis by (intro that [of p2 r]) simp_all
qed

theorem open_lines_patchable_witness:
  "\<exists>(p :: process) r. r \<in> set (frames (p_threads p 0)) \<and> logged r \<and> 0 \<le> line_start r \<and>
    (log_elapsed sample_config \<longrightarrow>
      take DURATION_FIELD_WIDTH (drop (nat (line_start r) + PLACEHOLDER_OFFSET_IN_LINE)
        (file_bytes (p_threads p 0))) = DURATION_PLACEHOLDER) \<and>
    (log_exceptions sample_config \<and> 1 \<le> line_depth r \<longrightarrow>
      file_bytes (p_threads p 0) ! (nat (line_start r)
        + tree_glyph_offset (line_depth r) (LINE_PREFIX_EXTRA sample_config)) = CHR ''|'') \<and>
    patch_positions sample_config r \<subseteq> {..< length (file_bytes (p_threads p 0))} \<and>
    sorted_wrt (\<lambda>r r'. patch_positions sample_config r \<inter> patch_positions sample_config r' = {})
      (frames (p_threads p 0))"
proof -
  obtain p r where p: "reachable sample_config (timed_env sample_config) (\<lambda>_. ''old'') p"
    and r: "r \<in> set (frames (p_threads p 0))" "logged r" "0 \<le> line_start r"
    by (rule sample_open_line)
  show ?thesis
    by (intro exI [of _ p] exI [of _ r] conjI)
      (use open_lines_patchable [OF p r] r in simp_all)
qed

section \<open>What a step changes of a file\<close>

text \<open>Records leave from the top and at most one is pushed.\<close>

definition follows :: "thread_state \<Rightarrow> thread_state \<Rightarrow> bool" where
  "follows t t' \<longleftrightarrow>
     (\<exists>kept dead new. frames t = kept @ dead \<and> frames t' = kept @ new \<and> length new \<le> 1)"

lemma follows_same: "frames t' = frames t \<Longrightarrow> follows t t'"
  unfolding follows_def by (intro exI [of _ "frames t"] exI [of _ "[]"]) simp

lemma follows_advances:
  assumes "advances cfg t t'"
  shows "follows t t'"
proof -
  obtain dead where "frames t = frames t' @ dead" using assms by (auto simp: advances_def advances_by_def)
  then show ?thesis
    unfolding follows_def by (intro exI [of _ "frames t'"] exI [of _ dead] exI [of _ "[]"]) simp
qed

lemma follows_cong:
  "follows t t' \<Longrightarrow> frames s = frames t \<Longrightarrow> frames s' = frames t' \<Longrightarrow> follows s s'"
  by (simp add: follows_def)

lemma follows_push:
  assumes "advances cfg t t'" "frames t'' = frames t' @ [r]"
  shows "follows t t''"
proof -
  obtain dead where "frames t = frames t' @ dead" using assms(1) by (auto simp: advances_def advances_by_def)
  then show ?thesis
    unfolding follows_def
    by (intro exI [of _ "frames t'"] exI [of _ dead] exI [of _ "[r]"]) (simp add: assms(2))
qed

lemma enter_with_slot_follows: "follows t (snd (snd (enter_with_slot cfg inp c g t)))"
  by (cases rule: enter_with_slot_cases [of cfg inp c g t])
    (auto simp: push_record_def intro: follows_push)

lemma enter_hook_follows: "follows t (snd (snd (enter_hook cfg inp c g t)))"
proof (cases "in_instrumentation t \<or> frame_overflow_count t > 0")
  case True
  then show ?thesis by (intro follows_same) (auto simp: enter_hook_def Let_def)
next
  case False
  let ?t = "t\<lparr>in_instrumentation := True\<rparr>"
  obtain slot t1 where m: "make_room inp ?t = (slot, t1)" by fastforce
  then have t1: "frames t1 = frames t"
    by (auto simp: make_room_def split: if_splits)
  have "follows t (snd (snd (enter_with_slot cfg inp c g t1))\<lparr>in_instrumentation := False\<rparr>)"
    by (rule follows_cong [OF enter_with_slot_follows [of t1 cfg inp c g]]) (simp_all add: t1)
  moreover have "follows t (t1\<lparr>frame_overflow_count := n, in_instrumentation := False\<rparr>)" for n
    by (rule follows_same) (simp_all add: t1)
  ultimately show ?thesis
    using False m by (cases slot) (simp_all add: enter_hook_def Let_def case_prod_beta)
qed

lemma exit_hook_follows: "follows t (exit_hook cfg inp t)"
proof (cases "in_instrumentation t \<or> frame_overflow_count t > 0 \<or> frames t = []")
  case True
  then show ?thesis by (intro follows_same) (auto simp: exit_hook_def Let_def)
next
  case False
  let ?t = "t\<lparr>in_instrumentation := True\<rparr>"
  have "follows ?t (exit_with_record cfg inp ?t)"
    using False by (intro follows_advances [where cfg = cfg] exit_with_record_advances) simp
  then have "follows t (exit_with_record cfg inp ?t\<lparr>in_instrumentation := False\<rparr>)"
    by (rule follows_cong) simp_all
  with False show ?thesis by (simp add: exit_hook_def Let_def)
qed

lemma step_follows:
  assumes "process_step cfg op p = Some p'"
  shows "follows (p_threads p i) (p_threads p' i)"
proof (cases "i = op_thread op")
  case False
  then show ?thesis using other_threads_unchanged [OF assms] by (intro follows_same) simp_all
next
  case True
  show ?thesis
  proof (cases op)
    case (Begin bi)
    from assms [unfolded Begin] obtain g t
      where b: "trace_begin cfg bi (p_globals p) (p_threads p 0) = Some (g, t)"
        "p' = p\<lparr>p_globals := g, p_threads := (p_threads p)(0 := t)\<rparr>" by (rule begin_stepE)
    with True Begin trace_begin_fields [OF b(1)] show ?thesis by (intro follows_same) simp_all
  next
    case (Api j call)
    have "follows (p_threads p i) (snd (api_step call (p_caches p) (p_threads p i)))"
      by (subst api_step_thread) (intro follows_same, simp_all)
    with assms True Api api_step_result(1) show ?thesis by simp
  next
    case (Enter j inp)
    then show ?thesis
      using assms True enter_hook_follows [of "p_threads p i" cfg inp "p_caches p" "p_globals p"]
      by (auto simp: Let_def split: prod.splits)
  next
    case (Exit j inp)
    then show ?thesis using assms True exit_hook_follows by auto
  next
    case (Runtime j call)
    then obtain ist sh t where r: "runtime_step cfg call
        (p_interposers p i, (p_caches p, p_names p, p_globals p), p_threads p i) = Some (ist, sh, t)"
      "p_threads p' i = t"
      using assms True by (auto split: option.splits)
    from follows_advances [OF runtime_step_advances [OF r(1)]] r(2) show ?thesis by simp
  next
    case (Shutdown j)
    then show ?thesis
      using assms True
      by (intro follows_same) (auto simp: trace_shutdown_def Let_def split: if_splits prod.splits)
  next
    case (Thread_end j)
    then show ?thesis
      using assms True
      by (intro follows_same) (auto simp: close_thread_file_def Let_def split: if_splits prod.splits)
  qed
qed

lemma open_line_no_newline:
  assumes "open_line cfg f r" "k \<in> patch_positions cfg r"
  shows "f ! k \<noteq> newline"
proof -
  let ?s = "nat (line_start r)"
  have l: "logged r" "0 \<le> line_start r" using assms(2) by (auto simp: patch_positions_def split: if_splits)
  have inside: "inside_file cfg r f" by (rule open_line_inside [OF assms(1)])
  consider "log_elapsed cfg" "?s + PLACEHOLDER_OFFSET_IN_LINE \<le> k"
      "k < ?s + PLACEHOLDER_OFFSET_IN_LINE + DURATION_FIELD_WIDTH"
    | "log_exceptions cfg" "1 \<le> line_depth r"
      "k = ?s + tree_glyph_offset (line_depth r) (LINE_PREFIX_EXTRA cfg)"
    using assms(2) by (auto simp: patch_positions_def split: if_splits)
  then show ?thesis
  proof cases
    case 1
    let ?j = "k - (?s + PLACEHOLDER_OFFSET_IN_LINE)"
    have k: "k < length f" using inside assms(2) by (auto simp: inside_file_def)
    have "take DURATION_FIELD_WIDTH (drop (?s + PLACEHOLDER_OFFSET_IN_LINE) f) ! ?j = f ! k"
      using 1 k by simp
    then have "f ! k = DURATION_PLACEHOLDER ! ?j" using assms(1) l 1(1) by (simp add: open_line_def)
    moreover have "?j < length DURATION_PLACEHOLDER"
      using 1 by (simp add: DURATION_PLACEHOLDER_def width_defs)
    moreover have "newline \<notin> set DURATION_PLACEHOLDER" by (simp add: DURATION_PLACEHOLDER_def newline_def)
    ultimately show ?thesis by (metis nth_mem)
  next
    case 2
    then show ?thesis using assms(1) l by (simp add: open_line_def newline_def)
  qed
qed

text \<open>
  Since a state of the thread: the file only grew, records pushed since have their fields beyond the
  old end, and of the old part only fields of records that were on the stack and no longer are have
  changed, to bytes other than newlines.
\<close>

definition since :: "config \<Rightarrow> thread_state \<Rightarrow> thread_state \<Rightarrow> bool" where
  "since cfg t0 t \<longleftrightarrow> file_ok cfg t \<and>
     length (file_bytes t0) \<le> length (file_bytes t) \<and>
     (\<forall>r \<in> set (frames t). r \<in> set (frames t0) \<or> (\<forall>k \<in> patch_positions cfg r. length (file_bytes t0) \<le> k)) \<and>
     (\<forall>k < length (file_bytes t0). file_bytes t ! k = file_bytes t0 ! k \<or>
        (file_bytes t ! k \<noteq> newline \<and>
         (\<exists>r \<in> set (frames t0). r \<notin> set (frames t) \<and> k \<in> patch_positions cfg r)))"

lemma since_refl: "file_ok cfg t \<Longrightarrow> since cfg t t"
  by (simp add: since_def)

lemma since_cong:
  "since cfg t0 t \<Longrightarrow> file_ok cfg t' \<Longrightarrow> frames t' = frames t \<Longrightarrow> file_bytes t' = file_bytes t \<Longrightarrow>
   since cfg t0 t'"
  by (simp add: since_def)

lemma since_advances:
  assumes "since cfg t0 t" "advances cfg t t'" "file_ok cfg t'"
  shows "since cfg t0 t'"
proof -
  obtain dead where d: "advances_by cfg dead t t'" using assms(2) by (auto simp: advances_def)
  then have fr: "frames t = frames t' @ dead" by (simp add: advances_by_def)
  have ok: "lines_ok cfg t" using assms(1) by (simp add: since_def file_ok_def)
  then have "\<forall>r \<in> set dead. inside_file cfg r (file_bytes t)"
    using fr open_line_inside by (auto simp: lines_ok_def)
  with d have len: "length (file_bytes t) \<le> length (file_bytes t')"
    and p: "patched_within (dead_positions cfg dead) (file_bytes t)
      (take (length (file_bytes t)) (file_bytes t'))"
    by (auto simp: advances_by_def)
  have "file_bytes t' ! k = file_bytes t0 ! k \<or>
      (file_bytes t' ! k \<noteq> newline \<and>
       (\<exists>r \<in> set (frames t0). r \<notin> set (frames t') \<and> k \<in> patch_positions cfg r))"
    if k: "k < length (file_bytes t0)" for k
  proof -
    have kt: "k < length (file_bytes t)" using k assms(1) by (auto simp: since_def)
    then consider "file_bytes t' ! k = file_bytes t ! k"
      | "k \<in> dead_positions cfg dead" "file_bytes t' ! k \<noteq> newline"
      using p len by (auto simp: patched_within_def)
    then show ?thesis
    proof cases
      case 1
      with assms(1) k fr show ?thesis by (fastforce simp: since_def)
    next
      case 2
      then obtain r where r: "r \<in> set dead" "k \<in> patch_positions cfg r" by (auto simp: dead_positions_def)
      have "r \<in> set (frames t0)" using assms(1) k r fr by (fastforce simp: since_def)
      moreover have "r \<notin> set (frames t')"
        using ok fr r by (auto simp: lines_ok_def sorted_wrt_append)
      ultimately show ?thesis using 2 r by blast
    qed
  qed
  with assms(1,3) fr len show ?thesis by (auto simp: since_def)
qed

lemma since_push:
  assumes "since cfg t0 t" "file_ok cfg t'" "frames t' = frames t @ [r]" "file_bytes t' = file_bytes t @ extra"
    and "\<forall>k \<in> patch_positions cfg r. length (file_bytes t) \<le> k"
  shows "since cfg t0 t'"
proof -
  have n: "length (file_bytes t0) \<le> length (file_bytes t)" using assms(1) by (simp add: since_def)
  have "file_bytes t' ! k = file_bytes t0 ! k \<or>
      (file_bytes t' ! k \<noteq> newline \<and>
       (\<exists>r \<in> set (frames t0). r \<notin> set (frames t') \<and> k \<in> patch_positions cfg r))"
    if k: "k < length (file_bytes t0)" for k
  proof -
    have same: "file_bytes t' ! k = file_bytes t ! k" using k n by (simp add: assms(4) nth_append)
    have other: "r' \<noteq> r" if "k \<in> patch_positions cfg r'" for r' using that k n assms(5) by force
    show ?thesis
    proof (cases "file_bytes t ! k = file_bytes t0 ! k")
      case False
      then obtain r' where "file_bytes t ! k \<noteq> newline" "r' \<in> set (frames t0)" "r' \<notin> set (frames t)"
          "k \<in> patch_positions cfg r'"
        using assms(1) k unfolding since_def by blast
      with other same assms(3) show ?thesis by auto
    qed (simp add: same)
  qed
  moreover have "r' \<in> set (frames t0) \<or> (\<forall>k \<in> patch_positions cfg r'. length (file_bytes t0) \<le> k)"
    if "r' \<in> set (frames t')" for r'
  proof (cases "r' = r")
    case True
    then show ?thesis using assms(5) n by force
  next
    case False
    then show ?thesis using that assms(1,3) by (simp add: since_def)
  qed
  ultimately show ?thesis using assms(2,4) n by (simp add: since_def)
qed

text \<open>A located record starts at the end its file had before its line.\<close>

lemma pushed_positions:
  assumes "file_ok cfg t" "trace_fp t"
    and "k \<in> patch_positions cfg (new_record cfg inp key True base (cursor t) (log_call cfg inp v t))"
  shows "length (file_bytes t) \<le> k"
proof -
  have "line_patching cfg \<and> cursor_valid (log_call cfg inp v t)"
    using assms(3) by (auto simp: new_record_def patch_positions_def Let_def split: if_splits)
  moreover from this have "cursor_valid t"
    by (auto simp: log_call_def write_line_def Let_def case_prod_beta split: write_result.splits)
  ultimately have "cursor t = int (length (file_bytes t))"
    using assms(1,2) by (simp add: file_ok_def cursor_ok_def)
  with assms(3) show ?thesis
    by (auto simp: new_record_def patch_positions_def Let_def split: if_splits)
qed

lemma log_call_appends: "\<exists>extra. file_bytes (log_call cfg inp v t) = file_bytes t @ extra"
  by (simp add: log_call_def case_prod_beta Let_def write_line_def split: write_result.split)

interpretation since_state: step_invariant cfg timed_io "timed_hook cfg" "tree_fits cfg"
    "\<lambda>g t. since cfg t0 t" for cfg t0
proof unfold_locales
  fix g t t' assume a: "since cfg t0 t" "same_file t t'"
  then have "file_ok cfg t'" using patches.same [of cfg t t'] by (simp add: since_def)
  from since_cong [OF a(1) this] a(2) show "since cfg t0 t'" by (simp add: same_file_def)
next
  fix g t t' assume a: "since cfg t0 t" "pops cfg t t'"
  then have "file_ok cfg t'" using file_ok_popped [of cfg t t'] by (simp add: since_def)
  with since_advances [OF a(1) pops_advances [OF a(2)]] show "since cfg t0 t'" .
next
  fix g t io threw fp g' t'
  assume a: "since cfg t0 t" "timed_io io" "get_thread_fp cfg io g t = (threw, fp, g', t')"
  then have "file_ok cfg t'" using file_ok_get_fp [of cfg t io g threw fp g' t'] by (simp add: since_def)
  moreover have "advances cfg t t'" using get_thread_fp_advances [of cfg t io g] a(3) by simp
  ultimately show "since cfg t0 t'" using since_advances [OF a(1)] by blast
next
  fix g t io now tx tc result line
  assume a: "since cfg t0 t" "timed_io io" "writable g t"
    "pretty_time_into (io_render io) (thread_time t) PRETTY_TIME_BUF_SIZE now = (tx, tc)"
  then have ok: "file_ok cfg t" by (simp add: since_def)
  have "time_shape tc"
    using a(2,4) ok time_shape_step(1) [of "thread_time t" "io_render io" now tx tc]
    by (simp add: timed_io_def file_ok_def)
  with ok have timed: "file_ok cfg (t\<lparr>thread_time := tc\<rparr>)"
    by (simp add: file_ok_def lines_ok_def cursor_ok_def)
  from since_cong [OF a(1) this] have "since cfg t0 (t\<lparr>thread_time := tc\<rparr>)" by simp
  from since_advances [OF this write_line_advances patches.event_written [OF ok a(2-4)]]
  show "since cfg t0 (write_line cfg result line (t\<lparr>thread_time := tc\<rparr>))" .
next
  fix g t inp key assume a: "since cfg t0 t"
  let ?r = "new_record cfg inp key False None 0 t"
  have "line_start ?r < 0" by (simp add: new_record_def Let_def)
  moreover have "file_ok cfg t" using a by (simp add: since_def)
  ultimately show "since cfg t0 (push_record cfg inp key False None 0 t)"
    by (intro since_push [OF a file_ok_push_unlogged, where extra = "[]" and r = ?r])
      (simp_all add: push_record_def)
next
  fix g t inp key base v
  assume a: "since cfg t0 t" "timed_hook cfg inp" "tree_fits cfg t" "writable g t" "resolved_by inp v"
  let ?r = "new_record cfg inp key True base (cursor t) (log_call cfg inp v t)"
  have ok: "file_ok cfg t" using a(1) by (simp add: since_def)
  obtain extra where "file_bytes (log_call cfg inp v t) = file_bytes t @ extra"
    using log_call_appends by blast
  then show "since cfg t0 (push_record cfg inp key True base (cursor t) (log_call cfg inp v t))"
    using patches.logged_pushed [OF ok a(2-5)] pushed_positions [OF ok] a(4)
    by (intro since_push [OF a(1), where r = ?r and extra = extra])
      (simp_all add: push_record_def writable_def)
next
  fix inp assume "timed_hook cfg inp"
  then show "timed_io (hi_open inp)" by (simp add: timed_hook_def)
next
  fix t t' :: thread_state assume "tree_fits cfg t" "current_stack_depth t' \<le> current_stack_depth t"
  then show "tree_fits cfg t'" by (rule tree_fits_down)
qed

lemma other_steps_same_file:
  assumes "process_step cfg op p = Some p'" "\<not> is_call op"
  shows "frames (p_threads p' i) = frames (p_threads p i)"
    "file_bytes (p_threads p' i) = file_bytes (p_threads p i)"
    "trace_fp (p_threads p' i) \<longrightarrow> trace_fp (p_threads p i)"
proof -
  have "frames (p_threads p' i) = frames (p_threads p i) \<and>
    file_bytes (p_threads p' i) = file_bytes (p_threads p i) \<and>
    (trace_fp (p_threads p' i) \<longrightarrow> trace_fp (p_threads p i))"
  proof (cases "i = op_thread op")
    case False
    then show ?thesis using other_threads_unchanged [OF assms(1)] by simp
  next
    case True
    show ?thesis
    proof (cases op)
      case (Begin bi)
      from assms(1) [unfolded Begin] obtain g t
        where b: "trace_begin cfg bi (p_globals p) (p_threads p 0) = Some (g, t)"
          "p' = p\<lparr>p_globals := g, p_threads := (p_threads p)(0 := t)\<rparr>" by (rule begin_stepE)
      with True Begin trace_begin_fields [OF b(1)] show ?thesis by simp
    qed (use True assms in
        \<open>auto simp: trace_shutdown_def close_thread_file_def Let_def split: if_splits prod.splits\<close>)
  qed
  then show "frames (p_threads p' i) = frames (p_threads p i)"
    "file_bytes (p_threads p' i) = file_bytes (p_threads p i)"
    "trace_fp (p_threads p' i) \<longrightarrow> trace_fp (p_threads p i)" by blast+
qed

lemma step_since:
  assumes "process_step cfg op p = Some p'" "timed_env cfg op p" "\<And>i. file_ok cfg (p_threads p i)"
  shows "since cfg (p_threads p i) (p_threads p' i)"
proof (cases "i = op_thread op \<and> is_call op")
  case True
  with since_state.hook_step_keeps [OF assms(1) _ timed_good [OF assms(2)] since_refl [OF assms(3)]]
  show ?thesis by simp
next
  case False
  then consider "i \<noteq> op_thread op" | "i = op_thread op" "\<not> is_call op" by blast
  then show ?thesis
  proof cases
    case 1
    with other_threads_unchanged [OF assms(1)] since_refl [OF assms(3)] show ?thesis by simp
  next
    case 2
    from file_ok_step [OF assms(1,2,3)] 2(1) have "file_ok cfg (p_threads p' i)" by simp
    from since_cong [OF since_refl [OF assms(3)] this]
      other_steps_same_file [OF assms(1) 2(2)] show ?thesis by simp
  qed
qed

text \<open>
  C7. Lines are never torn: in a process reached in an environment of C6, a step in such an environment
  pops records off the top of a thread's stack and pushes at most one; it only appends to the
  thread's file, and of the bytes that were there it changes only patch fields of records that were
  on the stack before the step and are not on it after, none of them from or to a newline. So a
  completed line remains one line, of the same length, and the lines of frames that stay open are
  not touched at all.
\<close>

theorem lines_never_torn:
  assumes "reachable cfg (timed_env cfg) existing p"
    and "timed_env cfg op p" "process_step cfg op p = Some p'"
  shows "(\<exists>kept dead new. frames (p_threads p i) = kept @ dead \<and> frames (p_threads p' i) = kept @ new \<and>
      length new \<le> 1) \<and>
    length (file_bytes (p_threads p i)) \<le> length (file_bytes (p_threads p' i)) \<and>
    (\<forall>k. k < length (file_bytes (p_threads p i)) \<longrightarrow>
       (file_bytes (p_threads p' i) ! k = newline \<longleftrightarrow> file_bytes (p_threads p i) ! k = newline) \<and>
       (file_bytes (p_threads p' i) ! k = file_bytes (p_threads p i) ! k \<or>
        (\<exists>r. r \<in> set (frames (p_threads p i)) \<and> r \<notin> set (frames (p_threads p' i)) \<and>
           k \<in> patch_positions cfg r)))"
proof -
  let ?t = "p_threads p i" and ?t' = "p_threads p' i"
  have ok: "lines_ok cfg ?t" using reachable_file_ok [OF assms(1)] by (simp add: file_ok_def)
  have "since cfg ?t ?t'" by (rule step_since [OF assms(3,2) reachable_file_ok [OF assms(1)]])
  moreover have "file_bytes ?t ! k \<noteq> newline" if "r \<in> set (frames ?t)" "k \<in> patch_positions cfg r" for r k
    using ok that by (intro open_line_no_newline) (simp_all add: lines_ok_def)
  ultimately show ?thesis
    using step_follows [OF assms(3), of i] unfolding since_def follows_def by metis
qed

theorem lines_never_torn_witness:
  "\<exists>p p' r. r \<in> set (frames (p_threads p 0)) \<and> logged r \<and> 0 \<le> line_start r \<and>
    process_step sample_config (Exit 0 (sample_hook 64 1000)) p = Some p' \<and>
    (\<exists>kept dead new. frames (p_threads p 0) = kept @ dead \<and> frames (p_threads p' 0) = kept @ new \<and>
      length new \<le> 1) \<and>
    length (file_bytes (p_threads p 0)) \<le> length (file_bytes (p_threads p' 0)) \<and>
    (\<forall>k. k < length (file_bytes (p_threads p 0)) \<longrightarrow>
       (file_bytes (p_threads p' 0) ! k = newline \<longleftrightarrow> file_bytes (p_threads p 0) ! k = newline) \<and>
       (file_bytes (p_threads p' 0) ! k = file_bytes (p_threads p 0) ! k \<or>
        (\<exists>r. r \<in> set (frames (p_threads p 0)) \<and> r \<notin> set (frames (p_threads p' 0)) \<and>
           k \<in> patch_positions sample_config r)))"
proof -
  obtain p r where p: "reachable sample_config (timed_env sample_config) (\<lambda>_. ''old'') p"
    and r: "r \<in> set (frames (p_threads p 0))" "logged r" "0 \<le> line_start r"
    by (rule sample_open_line)
  obtain p' where s: "process_step sample_config (Exit 0 (sample_hook 64 1000)) p = Some p'" by simp
  have "timed_env sample_config (Exit 0 (sample_hook 64 1000)) p" by simp
  from lines_never_torn [OF p this s, of 0] r s show ?thesis by blast
qed

section \<open>After the shutdown\<close>

text \<open>What a call that finds the tracer shut down keeps of a file: it may still patch, not append.\<close>

definition quiet :: "config \<Rightarrow> nat \<Rightarrow> bool \<Rightarrow> trace_globals \<Rightarrow> thread_state \<Rightarrow> bool" where
  "quiet cfg n in_use g t \<longleftrightarrow> lines_ok cfg t \<and> shutdown_complete g \<and> open_files g = [] \<and>
     length (file_bytes t) = n \<and> (trace_fp t \<longrightarrow> in_use)"

lemma lines_ok_cong: "lines_ok cfg t \<Longrightarrow> frames t' = frames t \<Longrightarrow> file_bytes t' = file_bytes t \<Longrightarrow> lines_ok cfg t'"
  by (simp add: lines_ok_def)

lemma lines_ok_push_unlogged:
  assumes "lines_ok cfg t"
  shows "lines_ok cfg (push_record cfg inp key False None 0 t)"
  by (rule lines_ok_push [OF assms, where extra = "[]" and r = "new_record cfg inp key False None 0 t"])
    (simp_all add: push_record_def new_record_def Let_def)

interpretation after_shutdown: step_invariant cfg "\<lambda>_. True" "\<lambda>_. True" "\<lambda>_. True" "quiet cfg n in_use"
  for cfg n in_use
proof unfold_locales
  fix g t t' assume "quiet cfg n in_use g t" "same_file t t'"
  then show "quiet cfg n in_use g t'"
    using lines_ok_cong [of cfg t t'] by (simp add: quiet_def same_file_def)
next
  fix g t t' assume q: "quiet cfg n in_use g t" and p: "pops cfg t t'"
  then have "lines_ok cfg t" by (simp add: quiet_def)
  with q p show "quiet cfg n in_use g t'"
    using lines_ok_advances [OF _ pops_advances [OF p]] popped_length [of cfg t t']
    by (simp add: quiet_def pops_fields)
next
  fix g t io threw fp g' t'
  assume "quiet cfg n in_use g t" "get_thread_fp cfg io g t = (threw, fp, g', t')"
  then show "quiet cfg n in_use g' t'" by (auto simp: quiet_def get_thread_fp_def split: if_splits)
next
  fix g t inp key assume "quiet cfg n in_use g t"
  then show "quiet cfg n in_use g (push_record cfg inp key False None 0 t)"
    using lines_ok_push_unlogged [of cfg t inp key] by (simp add: quiet_def)
qed (simp_all add: quiet_def writable_def)

lemma quiet_step:
  assumes "process_step cfg op p = Some p'"
    and "\<And>i. quiet cfg (n i) (in_use i) (p_globals p) (p_threads p i)"
  shows "quiet cfg (n i) (in_use i) (p_globals p') (p_threads p' i)"
proof -
  let ?i = "op_thread op"
  have own: "quiet cfg (n ?i) (in_use ?i) (p_globals p') (p_threads p' ?i)"
  proof (cases "is_call op")
    case True
    have "op_good (\<lambda>_. True) (\<lambda>_. True) (\<lambda>_. True) op p" by (cases op) simp_all
    from after_shutdown.hook_step_keeps [OF assms(1) True this assms(2)] show ?thesis .
  next
    case False
    note same = other_steps_same_file [OF assms(1) False, of ?i]
    have "shutdown_complete (p_globals p') \<and> open_files (p_globals p') = []"
    proof (cases op)
      case (Begin bi)
      from assms(1) [unfolded Begin] obtain g t
        where b: "trace_begin cfg bi (p_globals p) (p_threads p 0) = Some (g, t)"
          "p' = p\<lparr>p_globals := g, p_threads := (p_threads p)(0 := t)\<rparr>" by (rule begin_stepE)
      with assms(2) show ?thesis
        by (auto simp: quiet_def trace_begin_def Let_def case_prod_beta split: if_split_asm)
    qed (use False assms in
        \<open>auto simp: quiet_def trace_shutdown_def close_thread_file_def Let_def split: if_splits prod.splits\<close>)
    with same assms(2) [of ?i] lines_ok_cong [of cfg "p_threads p ?i" "p_threads p' ?i"] show ?thesis by (simp add: quiet_def)
  qed
  show ?thesis
  proof (cases "i = ?i")
    case False
    with other_threads_unchanged [OF assms(1)] own assms(2) [of i] show ?thesis by (simp add: quiet_def)
  qed (use own in simp)
qed

lemma quiet_run:
  "process_run cfg ops p = Some p' \<Longrightarrow>
   (\<And>i. quiet cfg (n i) (in_use i) (p_globals p) (p_threads p i)) \<Longrightarrow>
   quiet cfg (n i) (in_use i) (p_globals p') (p_threads p' i)"
proof (induction ops arbitrary: p)
  case (Cons op ops)
  then obtain p1 where p1: "process_step cfg op p = Some p1" "process_run cfg ops p1 = Some p'"
    by (auto split: option.splits)
  show ?case by (rule Cons.IH [OF p1(2) quiet_step [OF p1(1) Cons.prems(2)]])
qed simp

text \<open>
  C8. Nothing is appended after the shutdown: in a process reached in environments of C6, once the
  shutdown completed, whatever the threads still do and whatever the outside then answers, calls,
  exceptions, terminations, a second start and their ends, no trace file grows, no thread opens a
  file and none is registered; open lines may still be finished in place. The steps are whole hooks:
  a hook that had passed its check before the shutdown is the business of C12.
\<close>

theorem nothing_appended_after_shutdown:
  assumes "reachable cfg (timed_env cfg) existing p" "shutdown_complete (p_globals p)"
    and "process_run cfg ops p = Some p'"
  shows "length (file_bytes (p_threads p' i)) = length (file_bytes (p_threads p i)) \<and>
    \<not> (trace_fp (p_threads p' i) \<and> \<not> trace_fp (p_threads p i)) \<and>
    open_files (p_globals p') = []"
proof -
  have "quiet cfg (length (file_bytes (p_threads p j))) (trace_fp (p_threads p j)) (p_globals p) (p_threads p j)"
    for j
    using assms(2) reachable_file_ok [OF assms(1), of j] reachable_registry [OF assms(1)]
    by (simp add: quiet_def file_ok_def registry_invariant_def registry_ok_def)
  from quiet_run [OF assms(3) this, of i] show ?thesis by (simp add: quiet_def)
qed

theorem nothing_appended_after_shutdown_witness:
  "\<exists>p p'. process_step sample_config (Shutdown 0) (initial_process (\<lambda>_. ''old'')) = Some p \<and>
     process_run sample_config [Enter 1 (sample_hook 64 1000), Exit 1 (sample_hook 64 1000)] p = Some p' \<and>
     length (file_bytes (p_threads p' 1)) = length (file_bytes (p_threads p 1)) \<and>
     \<not> (trace_fp (p_threads p' 1) \<and> \<not> trace_fp (p_threads p 1)) \<and>
     open_files (p_globals p') = []"
proof -
  let ?ops = "[Enter 1 (sample_hook 64 1000), Exit 1 (sample_hook 64 1000)]"
  obtain p where p: "process_step sample_config (Shutdown 0) (initial_process (\<lambda>_. ''old'')) = Some p"
    "shutdown_complete (p_globals p)"
    by (simp add: initial_process_def trace_shutdown_def initial_globals_def Let_def)
  obtain p' where p': "process_run sample_config ?ops p = Some p'"
    by (simp add: case_prod_beta Let_def)
  have r: "reachable sample_config (timed_env sample_config) (\<lambda>_. ''old'') p"
    by (rule reachable.step [OF reachable.initial _ _ p(1)]) simp_all
  from nothing_appended_after_shutdown [OF r p(2) p', of 1] p(1) p' show ?thesis by blast
qed

section \<open>The program runs on\<close>

text \<open>The symbol the program calls, and the tracer's function that may stand behind it.\<close>

fun runtime_entry :: "runtime_call \<Rightarrow> string \<times> string" where
  "runtime_entry (Throw inp type) = (''__cxa_throw'', ''cslg_cxa_throw'')"
| "runtime_entry (Rethrow inp) = (''__cxa_rethrow'', ''cslg_cxa_rethrow'')"
| "runtime_entry (Rethrow_exception inp type) = (RETHROW_EXCEPTION_SYMBOL, ''cslg_rethrow_exception'')"
| "runtime_entry (Begin_catch inp) = (''__cxa_begin_catch'', ''cslg_cxa_begin_catch'')"
| "runtime_entry (Terminate inp) = (TERMINATE_SYMBOL, ''cslg_terminate'')"

text \<open>
  The steps after the startup. The program reaches an interposer only when the tracer's function is
  the active definition of the symbol, and the dynamic linker answers as it did at startup.
\<close>

fun after_startup :: "begin_input \<Rightarrow> process_op \<Rightarrow> bool" where
  "after_startup bi (Begin bi') \<longleftrightarrow> False"
| "after_startup bi (Runtime i call) \<longleftrightarrow>
     ri_linker (call_input call) = bi_linker bi \<and>
     bi_active bi (fst (runtime_entry call)) = Some (bi_own bi (snd (runtime_entry call)))"
| "after_startup bi _ \<longleftrightarrow> True"

lemma verified_forwards:
  assumes "verify_interposers active (ri_linker (call_input call)) own = Inr warned"
    and "active (fst (runtime_entry call)) = Some (own (snd (runtime_entry call)))"
  shows "forwards call"
proof -
  let ?dl = "ri_linker (call_input call)"
  have forwards_to: "dl_next ?dl (ip_symbol e) \<noteq> None"
    if "e \<in> set (interposer_entries own)" "active (ip_symbol e) = Some (ip_ours e)" for e
    using that assms(1) verify_entries_correct [of "interposer_entries own" active "dl_next ?dl"]
    by (auto simp: verify_interposers_def split: sum.splits)
  have "\<exists>e \<in> set (interposer_entries own).
      ip_symbol e = fst (runtime_entry call) \<and> ip_ours e = own (snd (runtime_entry call))"
    by (cases call) (simp_all add: interposer_entries_def)
  then obtain e where "e \<in> set (interposer_entries own)" "ip_symbol e = fst (runtime_entry call)"
    "ip_ours e = own (snd (runtime_entry call))" by blast
  with forwards_to [of e] assms(2) have "next_definition ?dl (fst (runtime_entry call)) \<noteq> None"
    by (simp add: next_definition_def)
  then show ?thesis by (cases call) simp_all
qed

lemma forwarding_step: "forwards call \<Longrightarrow> runtime_step cfg call s \<noteq> None"
  by (cases s; cases call)
    (simp_all add: cslg_cxa_throw_def cslg_cxa_rethrow_def cslg_rethrow_exception_def
      cslg_cxa_begin_catch_def cslg_terminate_def Let_def case_prod_beta del: not_None_eq split_paired_Ex
      split: option.split)

lemma step_runs_on:
  assumes "verify_interposers (bi_active bi) (bi_linker bi) (bi_own bi) = Inr warned" "after_startup bi op"
  shows "\<exists>p'. process_step cfg op p = Some p'"
proof (cases op)
  case (Runtime i call)
  then have "forwards call" using assms verified_forwards [of "bi_active bi" call "bi_own bi"] by simp
  from forwarding_step [OF this, of cfg
      "(p_interposers p i, (p_caches p, p_names p, p_globals p), p_threads p i)"]
  show ?thesis using Runtime by (auto simp: case_prod_beta)
qed (use assms(2) in \<open>simp_all add: case_prod_beta Let_def\<close>)

text \<open>
  C9. The tracer never stops the program it traces: if the startup went through, in a build with
  exception tracing, then whatever the threads do after it, in any order and with any failure of the
  outside inside the tracer, no step aborts. The one abort left, an interposer with nothing to
  forward to, is what the startup check has ruled out for every entry point that reaches the tracer.
\<close>

theorem program_runs_on:
  assumes "process_step cfg (Begin bi) p = Some p1" "log_exceptions cfg"
    and "list_all (after_startup bi) ops"
  shows "\<exists>p2. process_run cfg ops p1 = Some p2"
proof -
  obtain warned where v: "verify_interposers (bi_active bi) (bi_linker bi) (bi_own bi) = Inr warned"
    using assms(1,2) by (auto simp: trace_begin_def Let_def case_prod_beta split: option.splits if_splits sum.splits)
  show ?thesis
    using assms(3)
  proof (induction ops arbitrary: p1)
    case (Cons op ops)
    then obtain p' where "process_step cfg op p1 = Some p'" using step_runs_on [OF v, of op cfg p1] Cons.prems by auto
    with Cons show ?case by simp
  qed simp
qed

theorem program_runs_on_witness:
  "\<exists>p1 p2. process_step sample_config (Begin sample_begin) (initial_process (\<lambda>_. [])) = Some p1 \<and>
     process_run sample_config
       [Enter 0 (sample_hook 64 1000), Runtime 0 (Throw sample_runtime (Some ''i'')),
        Runtime 0 (Begin_catch sample_runtime), Shutdown 0] p1 = Some p2"
proof -
  obtain g t where "trace_begin sample_config sample_begin initial_globals (fresh_thread 0 []) = Some (g, t)"
    using sample_begin_succeeds by blast
  then obtain p1 where p1: "process_step sample_config (Begin sample_begin) (initial_process (\<lambda>_. [])) = Some p1"
    by (simp add: initial_process_def)
  have cfg: "log_exceptions sample_config" by (simp add: sample_config_def)
  have ops: "list_all (after_startup sample_begin)
      [Enter 0 (sample_hook 64 1000), Runtime 0 (Throw sample_runtime (Some ''i'')),
       Runtime 0 (Begin_catch sample_runtime), Shutdown 0]"
    by (simp add: sample_begin_def sample_runtime_def)
  from program_runs_on [OF p1 cfg ops] p1 show ?thesis by blast
qed

end
