(* ===== verification/FileRaces.thy ===== *)
theory FileRaces
  imports TraceFiles
begin

text \<open>
  The trace files of a process at the granularity of their atomic accesses (\<open>src/trace.cpp\<close>): what threads do
  to their own files and to the registry between the points where another thread may run. The hooks
  read the phase flags and their own file pointer without a lock; opening, the end of a thread and
  the shutdown take the mutex of the registry. Theory TraceFiles has the same code as atomic
  operations; here any thread may be anywhere inside them. Using an object after its end (a closed
  stream or descriptor, a destroyed \<open>PerThreadTraceFile\<close>, the thread state after the thread's end) is a
  result of its own, \<open>Undefined\<close>, and so is a cancellation that unwinds a hook.
\<close>

section \<open>Threads and their places in the code\<close>

datatype handle = Absent | Opened | Released

text \<open>The accesses of \<open>get_thread_fp\<close>, the critical section of \<open>open_this_thread_file\<close>, the destructor of
  \<open>PerThreadTraceFile\<close> and \<open>trace_shutdown\<close>, in their order; \<open>Give\<close> says whether an exception is in flight.\<close>

datatype get_at = Load_ready | Load_complete | Load_attempted | Load_fp
datatype register_at = Take | Check | Push | Close_own | Give bool
datatype end_at = Load_own | Take_end | Exchange | Erase | Give_end
datatype shutdown_at = Swap | Take_shutdown | Flush "nat list" | Clear | Store | Give_shutdown

datatype control =
    Rest
  | Gone
  | In_get get_at
  | In_open
  | In_register register_at
  | In_write
  | In_patch
  | In_leave
  | In_end end_at
  | In_shutdown shutdown_at

text \<open>
  A thread's \<open>PerThreadTraceFile\<close> with the stream and the descriptor its pointers stand for, the guard
  outside it, the lines written, and whether the shutdown has flushed the stream; then whether the thread can
  be cancelled, and what a \<open>ScopedCancelDisable\<close> restores at its end.
\<close>

record slot =
  slot_at :: control
  slot_alive :: bool
  slot_guard :: bool
  slot_attempted :: bool
  slot_registered :: bool
  slot_fp :: bool
  slot_patch :: bool
  slot_stream :: handle
  slot_descriptor :: handle
  slot_flushed :: bool
  slot_lines :: nat
  slot_cancel :: bool
  slot_saved :: bool

record race =
  r_ready :: bool
  r_started :: bool
  r_complete :: bool
  r_holder :: "nat option"
  r_files :: "nat list"
  r_slots :: "nat \<Rightarrow> slot"

definition fresh_slot :: slot where
  "fresh_slot = \<lparr>slot_at = Rest, slot_alive = True, slot_guard = False, slot_attempted = False,
     slot_registered = False, slot_fp = False, slot_patch = False, slot_stream = Absent,
     slot_descriptor = Absent, slot_flushed = False, slot_lines = 0,
     slot_cancel = True, slot_saved = True\<rparr>"

definition initial_race :: race where
  "initial_race = \<lparr>r_ready = False, r_started = False, r_complete = False, r_holder = None,
     r_files = [], r_slots = (\<lambda>_. fresh_slot)\<rparr>"

datatype 'a moved = Blocked | Undefined | Moved 'a

abbreviation place :: "race \<Rightarrow> nat \<Rightarrow> control" where
  "place r i \<equiv> slot_at (r_slots r i)"

definition set_slot :: "nat \<Rightarrow> (slot \<Rightarrow> slot) \<Rightarrow> race \<Rightarrow> race" where
  "set_slot i f r = r\<lparr>r_slots := (r_slots r)(i := f (r_slots r i))\<rparr>"

definition goto :: "nat \<Rightarrow> control \<Rightarrow> race \<Rightarrow> race" where
  "goto i c r = set_slot i (\<lambda>s. s\<lparr>slot_at := c\<rparr>) r"

definition take_mutex :: "nat \<Rightarrow> control \<Rightarrow> race \<Rightarrow> race moved" where
  "take_mutex i c r =
     (case r_holder r of None \<Rightarrow> Moved (goto i c (r\<lparr>r_holder := Some i\<rparr>)) | Some j \<Rightarrow> Blocked)"

definition give_mutex :: "nat \<Rightarrow> control \<Rightarrow> race \<Rightarrow> race moved" where
  "give_mutex i c r = Moved (goto i c (r\<lparr>r_holder := None\<rparr>))"

text \<open>The scope without cancellation around a hook and the end of a thread.\<close>

definition no_cancel :: "slot \<Rightarrow> slot" where
  "no_cancel s = s\<lparr>slot_saved := slot_cancel s, slot_cancel := False\<rparr>"

definition cancel_again :: "slot \<Rightarrow> slot" where
  "cancel_again s = s\<lparr>slot_cancel := slot_saved s\<rparr>"

section \<open>Steps\<close>

text \<open>
  The hot path. The flags are read without the mutex; such a read may be stale, that is, still see
  False after another thread has stored True.
\<close>

fun get_step :: "nat \<Rightarrow> bool \<Rightarrow> get_at \<Rightarrow> race \<Rightarrow> race moved" where
  "get_step i stale Load_ready r =
     Moved (goto i (if r_ready r \<and> \<not> stale then In_get Load_complete else In_leave) r)"
| "get_step i stale Load_complete r =
     Moved (goto i (if r_complete r \<and> \<not> stale then In_leave else In_get Load_attempted) r)"
| "get_step i stale Load_attempted r =
     Moved (if slot_attempted (r_slots r i) then goto i (In_get Load_fp) r
            else set_slot i (\<lambda>s. s\<lparr>slot_attempted := True, slot_at := In_open\<rparr>) r)"
| "get_step i stale Load_fp r =
     Moved (goto i (if slot_fp (r_slots r i) then In_write else In_leave) r)"

text \<open>Up to the critical section everything is the thread's own: open, reopen, store, header.\<close>

definition open_step :: "config \<Rightarrow> nat \<Rightarrow> open_input \<Rightarrow> race \<Rightarrow> race moved" where
  "open_step cfg i io r =
     Moved (if io_path_throws io then goto i In_leave r
            else if \<not> io_open io \<or> \<not> io_fdopen io then goto i (In_get Load_fp) r
            else let patched = line_patching cfg \<and> io_reopen io
                 in set_slot i (\<lambda>s. s\<lparr>slot_fp := True, slot_stream := Opened, slot_patch := patched,
                      slot_descriptor := (if patched then Opened else slot_descriptor s),
                      slot_at := (if io_header_throws io then In_leave else In_register Take)\<rparr>) r)"

text \<open>Closing a stream or a descriptor that is not open is undefined.\<close>

definition close_handles :: "nat \<Rightarrow> control \<Rightarrow> race \<Rightarrow> race moved" where
  "close_handles i c r =
     (let s = r_slots r i
      in if slot_stream s \<noteq> Opened \<or> (slot_patch s \<and> slot_descriptor s \<noteq> Opened) then Undefined
         else Moved (set_slot i (\<lambda>s. s\<lparr>slot_fp := False, slot_stream := Released,
                slot_descriptor := (if slot_patch s then Released else slot_descriptor s),
                slot_patch := False, slot_at := c\<rparr>) r))"

fun register_step :: "nat \<Rightarrow> open_input \<Rightarrow> register_at \<Rightarrow> race \<Rightarrow> race moved" where
  "register_step i io Take r = take_mutex i (In_register Check) r"
| "register_step i io Check r =
     Moved (goto i (In_register (if r_complete r then Close_own else Push)) r)"
| "register_step i io Close_own r = close_handles i (In_register (Give False)) r"
| "register_step i io Push r =
     Moved (if io_push_throws io then goto i (In_register (Give True)) r
            else set_slot i (\<lambda>s. s\<lparr>slot_registered := True, slot_at := In_register (Give False)\<rparr>)
                   (r\<lparr>r_files := r_files r @ [i]\<rparr>))"
| "register_step i io (Give threw) r = give_mutex i (if threw then In_leave else In_get Load_fp) r"

text \<open>A line through the thread's stream, and a patch through its descriptor.\<close>

definition write_step :: "nat \<Rightarrow> race \<Rightarrow> race moved" where
  "write_step i r =
     (if slot_stream (r_slots r i) \<noteq> Opened then Undefined
      else Moved (set_slot i (\<lambda>s. s\<lparr>slot_lines := slot_lines s + 1, slot_at := In_leave\<rparr>) r))"

definition patch_step :: "nat \<Rightarrow> race \<Rightarrow> race moved" where
  "patch_step i r =
     (if slot_patch (r_slots r i) \<and> slot_descriptor (r_slots r i) \<noteq> Opened then Undefined
      else Moved (goto i In_leave r))"

text \<open>The end of a hook.\<close>

definition leave_step :: "nat \<Rightarrow> race \<Rightarrow> race moved" where
  "leave_step i r = Moved (set_slot i (\<lambda>s. (cancel_again s)\<lparr>slot_at := Rest\<rparr>) r)"

fun end_step :: "nat \<Rightarrow> end_at \<Rightarrow> race \<Rightarrow> race moved" where
  "end_step i Load_own r =
     Moved (if slot_fp (r_slots r i) then goto i (In_end Take_end) r
            else set_slot i (\<lambda>s. (cancel_again s)\<lparr>slot_alive := False, slot_at := Gone\<rparr>) r)"
| "end_step i Take_end r = take_mutex i (In_end Exchange) r"
| "end_step i Exchange r =
     (if slot_fp (r_slots r i)
      then close_handles i (In_end (if slot_registered (r_slots r i) then Erase else Give_end)) r
      else Moved (set_slot i (\<lambda>s. s\<lparr>slot_patch := False, slot_at := In_end Give_end\<rparr>) r))"
| "end_step i Erase r =
     Moved (set_slot i (\<lambda>s. s\<lparr>slot_registered := False, slot_at := In_end Give_end\<rparr>)
              (r\<lparr>r_files := remove1 i (r_files r)\<rparr>))"
| "end_step i Give_end r = give_mutex i Gone (set_slot i (\<lambda>s. (cancel_again s)\<lparr>slot_alive := False\<rparr>) r)"

text \<open>The thread goes on, or stays ended when it has been ended before.\<close>

definition returned :: "slot \<Rightarrow> control" where
  "returned s = (if slot_alive s then Rest else Gone)"

fun shutdown_step :: "nat \<Rightarrow> shutdown_at \<Rightarrow> race \<Rightarrow> race moved" where
  "shutdown_step i Swap r =
     Moved (if r_started r then goto i (returned (r_slots r i)) r
            else goto i (In_shutdown Take_shutdown) (r\<lparr>r_started := True\<rparr>))"
| "shutdown_step i Take_shutdown r = take_mutex i (In_shutdown (Flush (r_files r))) r"
| "shutdown_step i (Flush []) r = Moved (goto i (In_shutdown Clear) r)"
| "shutdown_step i (Flush (f # fs)) r =
     (let s = r_slots r f
      in if \<not> slot_alive s \<or> (slot_fp s \<and> slot_stream s \<noteq> Opened) then Undefined
         else Moved (goto i (In_shutdown (Flush fs))
                (if slot_fp s then set_slot f (\<lambda>s. s\<lparr>slot_flushed := True\<rparr>) r else r)))"
| "shutdown_step i Clear r = Moved (goto i (In_shutdown Store) (r\<lparr>r_files := []\<rparr>))"
| "shutdown_step i Store r = Moved (goto i (In_shutdown Give_shutdown) (r\<lparr>r_complete := True\<rparr>))"
| "shutdown_step i Give_shutdown r = give_mutex i (returned (r_slots r i)) r"

text \<open>
  What a thread may do next. At rest it begins an operation: the constructor's last store, a hook that
  writes a line, a hook that patches one, its end, \<open>exit()\<close>, or the program's own \<open>pthread_setcancelstate\<close>.
  Inside an operation it goes on, with what the outside answers and whether an unlocked read is stale, or a
  pending cancellation is delivered. Static destructors run hooks, and the shutdown, on a thread whose own
  objects have ended.
\<close>

datatype choice =
    Begin_tracing
  | Call_hook
  | Patch_line
  | End_thread
  | Shut_down
  | Set_cancel bool
  | Go_on open_input bool
  | Cancel

fun in_tracer :: "control \<Rightarrow> bool" where
  "in_tracer Rest \<longleftrightarrow> False"
| "in_tracer Gone \<longleftrightarrow> False"
| "in_tracer (In_shutdown a) \<longleftrightarrow> False"
| "in_tracer _ \<longleftrightarrow> True"

text \<open>
  An unwinding that leaves a hook or the destructor terminates the process. The shutdown has no scope of this kind;
  its \<open>fflush\<close> makes a system call, at which a cancellation could act, only for bytes that an earlier write failed
  to pass on.
\<close>

definition cancelled :: "nat \<Rightarrow> race \<Rightarrow> race moved" where
  "cancelled i r = (if in_tracer (place r i) \<and> slot_cancel (r_slots r i) then Undefined else Blocked)"

definition start_hook :: "nat \<Rightarrow> control \<Rightarrow> race \<Rightarrow> race moved" where
  "start_hook i c r =
     (let s = r_slots r i
      in if slot_guard s then Moved r else if \<not> slot_alive s then Undefined
         else Moved (set_slot i (\<lambda>s. (no_cancel s)\<lparr>slot_at := c\<rparr>) r))"

definition start :: "config \<Rightarrow> nat \<Rightarrow> choice \<Rightarrow> race \<Rightarrow> race moved" where
  "start cfg i ch r =
     (case ch of
        Begin_tracing \<Rightarrow> Moved (r\<lparr>r_ready := True\<rparr>)
      | Call_hook \<Rightarrow> start_hook i (In_get Load_ready) r
      | Patch_line \<Rightarrow> if line_patching cfg then start_hook i In_patch r else Moved r
      | End_thread \<Rightarrow>
          if slot_alive (r_slots r i)
          then Moved (set_slot i (\<lambda>s. (no_cancel s)\<lparr>slot_guard := True, slot_at := In_end Load_own\<rparr>) r)
          else Blocked
      | Shut_down \<Rightarrow> Moved (set_slot i (\<lambda>s. s\<lparr>slot_guard := True, slot_at := In_shutdown Swap\<rparr>) r)
      | Set_cancel b \<Rightarrow> Moved (set_slot i (\<lambda>s. s\<lparr>slot_cancel := b\<rparr>) r)
      | Go_on io stale \<Rightarrow> Blocked
      | Cancel \<Rightarrow> Blocked)"

definition continue :: "config \<Rightarrow> nat \<Rightarrow> open_input \<Rightarrow> bool \<Rightarrow> race \<Rightarrow> race moved" where
  "continue cfg i io stale r =
     (case place r i of
        Rest \<Rightarrow> Blocked
      | Gone \<Rightarrow> Blocked
      | In_get a \<Rightarrow> get_step i stale a r
      | In_open \<Rightarrow> open_step cfg i io r
      | In_register a \<Rightarrow> register_step i io a r
      | In_write \<Rightarrow> write_step i r
      | In_patch \<Rightarrow> patch_step i r
      | In_leave \<Rightarrow> leave_step i r
      | In_end a \<Rightarrow> end_step i a r
      | In_shutdown a \<Rightarrow> shutdown_step i a r)"

definition race_step :: "config \<Rightarrow> nat \<Rightarrow> choice \<Rightarrow> race \<Rightarrow> race moved" where
  "race_step cfg i ch r =
     (case ch of
        Go_on io stale \<Rightarrow> continue cfg i io stale r
      | Cancel \<Rightarrow> cancelled i r
      | _ \<Rightarrow> if place r i = Rest \<or> place r i = Gone then start cfg i ch r else Blocked)"

inductive racing :: "config \<Rightarrow> race \<Rightarrow> bool" for cfg where
  initial: "racing cfg initial_race"
| step: "racing cfg r \<Longrightarrow> race_step cfg i ch r = Moved r' \<Longrightarrow> racing cfg r'"

section \<open>Reading a step\<close>

named_theorems race_defs \<open>the operations' definitions\<close>

declare no_cancel_def [simp] cancel_again_def [simp]

declare take_mutex_def [race_defs] give_mutex_def [race_defs] leave_step_def [race_defs]
  open_step_def [race_defs] close_handles_def [race_defs] write_step_def [race_defs]
  patch_step_def [race_defs] start_hook_def [race_defs] start_def [race_defs]

lemma set_slot_simps [simp]:
  "r_slots (set_slot i f r) = (r_slots r)(i := f (r_slots r i))"
  "r_ready (set_slot i f r) = r_ready r" "r_started (set_slot i f r) = r_started r"
  "r_complete (set_slot i f r) = r_complete r" "r_holder (set_slot i f r) = r_holder r"
  "r_files (set_slot i f r) = r_files r"
  by (simp_all add: set_slot_def)

lemma goto_simps [simp]:
  "r_slots (goto i c r) = (r_slots r)(i := (r_slots r i)\<lparr>slot_at := c\<rparr>)"
  "r_ready (goto i c r) = r_ready r" "r_started (goto i c r) = r_started r"
  "r_complete (goto i c r) = r_complete r" "r_holder (goto i c r) = r_holder r"
  "r_files (goto i c r) = r_files r"
  by (simp_all add: goto_def)

lemma race_stepE:
  assumes "race_step cfg i ch r = Moved r'"
  obtains (start) "place r i = Rest \<or> place r i = Gone" "start cfg i ch r = Moved r'"
    | (get) a stale where "place r i = In_get a" "get_step i stale a r = Moved r'"
    | (opens) io where "place r i = In_open" "open_step cfg i io r = Moved r'"
    | (register) io a where "place r i = In_register a" "register_step i io a r = Moved r'"
    | (writes) "place r i = In_write" "write_step i r = Moved r'"
    | (patches) "place r i = In_patch" "patch_step i r = Moved r'"
    | (leaves) "place r i = In_leave" "leave_step i r = Moved r'"
    | (end_thread) a where "place r i = In_end a" "end_step i a r = Moved r'"
    | (shutdown) a where "place r i = In_shutdown a" "shutdown_step i a r = Moved r'"
  using assms
  by (auto simp: race_step_def continue_def cancelled_def split: choice.splits control.splits if_splits)

lemma start_results:
  "start cfg i ch r = Moved r' \<Longrightarrow>
     r' = r \<or> r' = r\<lparr>r_ready := True\<rparr> \<or>
     (\<exists>c. \<not> slot_guard (r_slots r i) \<and> slot_alive (r_slots r i) \<and> (c = In_get Load_ready \<or> c = In_patch) \<and>
        r' = set_slot i (\<lambda>s. (no_cancel s)\<lparr>slot_at := c\<rparr>) r) \<or>
     (slot_alive (r_slots r i) \<and>
      r' = set_slot i (\<lambda>s. (no_cancel s)\<lparr>slot_guard := True, slot_at := In_end Load_own\<rparr>) r) \<or>
     r' = set_slot i (\<lambda>s. s\<lparr>slot_guard := True, slot_at := In_shutdown Swap\<rparr>) r \<or>
     (\<exists>b. ch = Set_cancel b \<and> r' = set_slot i (\<lambda>s. s\<lparr>slot_cancel := b\<rparr>) r)"
  by (cases ch) (auto simp: start_def start_hook_def Let_def simp del: no_cancel_def split: if_split_asm)

lemma startE:
  assumes "start cfg i ch r = Moved r'"
  obtains (same) "r' = r" | (ready) "r' = r\<lparr>r_ready := True\<rparr>"
    | (hook) c where "\<not> slot_guard (r_slots r i)" "slot_alive (r_slots r i)" "c = In_get Load_ready \<or> c = In_patch"
        "r' = set_slot i (\<lambda>s. (no_cancel s)\<lparr>slot_at := c\<rparr>) r"
    | (ends) "slot_alive (r_slots r i)"
        "r' = set_slot i (\<lambda>s. (no_cancel s)\<lparr>slot_guard := True, slot_at := In_end Load_own\<rparr>) r"
    | (shuts) "r' = set_slot i (\<lambda>s. s\<lparr>slot_guard := True, slot_at := In_shutdown Swap\<rparr>) r"
    | (sets) b where "ch = Set_cancel b" "r' = set_slot i (\<lambda>s. s\<lparr>slot_cancel := b\<rparr>) r"
  using start_results [OF assms] that by blast

fun in_critical :: "control \<Rightarrow> bool" where
  "in_critical (In_register a) \<longleftrightarrow> a \<noteq> Take"
| "in_critical (In_end a) \<longleftrightarrow> a \<in> {Exchange, Erase, Give_end}"
| "in_critical (In_shutdown a) \<longleftrightarrow> a \<noteq> Swap \<and> a \<noteq> Take_shutdown"
| "in_critical _ \<longleftrightarrow> False"

definition mutex_ok :: "race \<Rightarrow> bool" where
  "mutex_ok r \<longleftrightarrow> (\<forall>i. in_critical (place r i) \<longleftrightarrow> r_holder r = Some i)"

lemma returned_free [simp]: "\<not> in_critical (returned s)"
  by (simp add: returned_def)

text \<open>The ways a step treats the mutex: not at all, taking it, giving it back.\<close>

lemma mutex_other [simp]:
  "mutex_ok (r\<lparr>r_ready := b\<rparr>) = mutex_ok r" "mutex_ok (r\<lparr>r_started := b\<rparr>) = mutex_ok r"
  "mutex_ok (r\<lparr>r_complete := b\<rparr>) = mutex_ok r" "mutex_ok (r\<lparr>r_files := fs\<rparr>) = mutex_ok r"
  by (simp_all add: mutex_ok_def)

lemma mutex_stay:
  "mutex_ok r \<Longrightarrow> in_critical (slot_at (f (r_slots r i))) = in_critical (place r i) \<Longrightarrow> mutex_ok (set_slot i f r)"
  by (auto simp: mutex_ok_def set_slot_def)

lemma mutex_goto: "mutex_ok r \<Longrightarrow> in_critical c = in_critical (place r i) \<Longrightarrow> mutex_ok (goto i c r)"
  unfolding goto_def by (rule mutex_stay) simp_all

lemma mutex_taken:
  assumes "take_mutex i c r = Moved r'" "mutex_ok r" "in_critical c"
  shows "mutex_ok r'"
proof -
  have "r_holder r = None" "r' = goto i c (r\<lparr>r_holder := Some i\<rparr>)"
    using assms(1) by (auto simp: take_mutex_def split: option.splits)
  with assms(2,3) show ?thesis by (auto simp: mutex_ok_def goto_def set_slot_def)
qed

lemma mutex_given:
  assumes "give_mutex i c r = Moved r'" "mutex_ok r" "in_critical (place r i)" "\<not> in_critical c"
  shows "mutex_ok r'"
proof -
  have h: "r_holder r = Some i" using assms(2,3) by (simp add: mutex_ok_def)
  have "in_critical (place r' j) \<longleftrightarrow> r_holder r' = Some j" for j
  proof (cases "j = i")
    case False
    then have "\<not> in_critical (place r j)" using assms(2) h by (simp add: mutex_ok_def)
    with False assms(1) show ?thesis by (auto simp: give_mutex_def goto_def set_slot_def)
  qed (use assms(1,4) in \<open>auto simp: give_mutex_def goto_def set_slot_def\<close>)
  then show ?thesis by (simp add: mutex_ok_def)
qed

lemma mutex_closed:
  "close_handles i c r = Moved r' \<Longrightarrow> mutex_ok r \<Longrightarrow> in_critical c = in_critical (place r i) \<Longrightarrow> mutex_ok r'"
  by (auto simp: close_handles_def Let_def intro!: mutex_stay split: if_splits)

lemma mutex_step:
  assumes "race_step cfg i ch r = Moved r'" "mutex_ok r"
  shows "mutex_ok r'"
proof -
  note stay = mutex_goto mutex_stay
  from assms(1) show ?thesis
  proof (cases rule: race_stepE)
    case start
    have free: "\<not> in_critical (place r i)" using start(1) by auto
    from start(2) show ?thesis
      by (cases rule: startE) (use free assms(2) in \<open>auto intro!: stay\<close>)
  next
    case (get a stale)
    with assms(2) show ?thesis by (cases a) (auto intro!: stay split: if_splits)
  next
    case (opens io)
    with assms(2) show ?thesis by (auto simp: open_step_def Let_def intro!: stay split: if_splits)
  next
    case (register io a)
    with assms(2) show ?thesis
      by (cases a) (auto intro: mutex_taken mutex_given mutex_closed intro!: stay split: if_splits)
  next
    case writes
    with assms(2) show ?thesis by (auto simp: write_step_def intro!: stay split: if_splits)
  next
    case patches
    with assms(2) show ?thesis by (auto simp: patch_step_def intro!: stay split: if_splits)
  next
    case leaves
    with assms(2) show ?thesis by (auto simp: leave_step_def intro!: stay)
  next
    case (end_thread a)
    with assms(2) show ?thesis
      by (cases a) (auto intro: mutex_taken mutex_given mutex_closed intro!: stay split: if_splits)
  next
    case (shutdown a)
    with assms(2) show ?thesis
      by (cases "(i, a, r)" rule: shutdown_step.cases)
        (auto simp: Let_def intro: mutex_taken mutex_given intro!: stay split: if_splits)
  qed
qed

text \<open>Two threads are never in the critical sections at once.\<close>

lemma mutex_exclusive:
  "mutex_ok r \<Longrightarrow> in_critical (place r i) \<Longrightarrow> in_critical (place r j) \<Longrightarrow> j = i"
  by (simp add: mutex_ok_def)

section \<open>What holds of a thread's file by itself\<close>

definition place_ok :: "slot \<Rightarrow> bool" where
  "place_ok s \<longleftrightarrow>
     (in_tracer (slot_at s) \<longrightarrow> \<not> slot_cancel s) \<and>
     (case slot_at s of
        Rest \<Rightarrow> slot_alive s
      | Gone \<Rightarrow> \<not> slot_alive s
      | In_get a \<Rightarrow> slot_alive s
      | In_open \<Rightarrow> slot_alive s \<and> slot_attempted s \<and> \<not> slot_fp s
      | In_register a \<Rightarrow>
          slot_alive s \<and> slot_attempted s \<and>
          (a \<in> {Take, Check, Push, Close_own} \<longrightarrow> slot_fp s \<and> \<not> slot_registered s)
      | In_write \<Rightarrow> slot_alive s \<and> slot_fp s
      | In_patch \<Rightarrow> slot_alive s
      | In_leave \<Rightarrow> slot_alive s
      | In_end a \<Rightarrow>
          slot_alive s \<and> slot_guard s \<and> (a = Take_end \<or> a = Exchange \<longrightarrow> slot_fp s) \<and>
          (a = Erase \<longrightarrow> \<not> slot_fp s \<and> slot_registered s) \<and>
          (a = Give_end \<longrightarrow> \<not> slot_fp s \<and> \<not> slot_registered s)
      | In_shutdown a \<Rightarrow> slot_guard s)"

definition slot_ok :: "slot \<Rightarrow> bool" where
  "slot_ok s \<longleftrightarrow>
     (slot_fp s \<longleftrightarrow> slot_stream s = Opened) \<and>
     (slot_patch s \<longleftrightarrow> slot_descriptor s = Opened) \<and> (slot_patch s \<longrightarrow> slot_fp s) \<and>
     (slot_registered s \<longrightarrow> slot_fp s \<or> slot_at s = In_end Erase) \<and>
     (slot_fp s \<longrightarrow> slot_attempted s) \<and>
     (\<not> slot_alive s \<longrightarrow> \<not> slot_fp s \<and> \<not> slot_registered s \<and> slot_guard s) \<and> place_ok s"

text \<open>A step moves its own thread; of another thread's file it may flush the stream.\<close>

lemma other_slots:
  assumes "race_step cfg i ch r = Moved r'" "j \<noteq> i"
  shows "r_slots r' j = r_slots r j \<or> r_slots r' j = (r_slots r j)\<lparr>slot_flushed := True\<rparr>"
  using assms(1)
proof (cases rule: race_stepE)
  case start
  from start(2) show ?thesis by (cases rule: startE) (use assms(2) in \<open>auto simp: race_defs\<close>)
next
  case (get a stale)
  then show ?thesis using assms(2) by (cases a) (auto simp: race_defs split: if_splits)
next
  case (opens io)
  then show ?thesis using assms(2) by (auto simp: race_defs Let_def split: if_splits)
next
  case (register io a)
  then show ?thesis using assms(2)
    by (cases a) (auto simp: race_defs Let_def split: if_splits option.splits)
next
  case writes
  then show ?thesis using assms(2) by (auto simp: race_defs split: if_splits)
next
  case patches
  then show ?thesis using assms(2) by (auto simp: race_defs split: if_splits)
next
  case leaves
  then show ?thesis using assms(2) by (auto simp: race_defs)
next
  case (end_thread a)
  then show ?thesis using assms(2)
    by (cases a) (auto simp: race_defs Let_def split: if_splits option.splits)
next
  case (shutdown a)
  then show ?thesis using assms(2)
    by (cases "(i, a, r)" rule: shutdown_step.cases)
      (auto simp: race_defs Let_def split: if_splits option.splits)
qed

lemma slot_ok_flushed [simp]: "slot_ok (s\<lparr>slot_flushed := b\<rparr>) = slot_ok s"
  by (cases "slot_at s") (simp_all add: slot_ok_def place_ok_def)

lemma slot_ok_move:
  "slot_ok s \<Longrightarrow> slot_at s \<noteq> In_end Erase \<Longrightarrow> place_ok (s\<lparr>slot_at := c\<rparr>) \<Longrightarrow> slot_ok (s\<lparr>slot_at := c\<rparr>)"
  by (auto simp: slot_ok_def)

lemma slot_ok_place: "slot_ok s \<Longrightarrow> place_ok s"
  by (simp add: slot_ok_def)

lemma slot_ok_same:
  "slot_ok s \<Longrightarrow> slot_at s \<noteq> In_end Erase \<Longrightarrow> slot_fp t = slot_fp s \<Longrightarrow> slot_stream t = slot_stream s \<Longrightarrow>
   slot_patch t = slot_patch s \<Longrightarrow> slot_descriptor t = slot_descriptor s \<Longrightarrow> slot_registered t = slot_registered s \<Longrightarrow>
   slot_attempted t = slot_attempted s \<Longrightarrow> slot_alive t = slot_alive s \<Longrightarrow> (slot_guard s \<Longrightarrow> slot_guard t) \<Longrightarrow>
   place_ok t \<Longrightarrow> slot_ok t"
  by (auto simp: slot_ok_def)

lemma close_handles_slot:
  assumes "close_handles i c r = Moved r'" "slot_ok (r_slots r i)"
    and "slot_registered (r_slots r i) \<longrightarrow> c = In_end Erase" "slot_alive (r_slots r i)"
    and "place_ok (r_slots r' i)"
  shows "slot_ok (r_slots r' i)"
  using assms
  by (auto simp: close_handles_def slot_ok_def Let_def split: if_splits)

lemma own_start:
  assumes start: "place r i = Rest \<or> place r i = Gone" "start cfg i ch r = Moved r'" and ok: "slot_ok (r_slots r i)"
  shows "slot_ok (r_slots r' i)"
proof -
  note place = slot_ok_place [OF ok]
  have e: "place r i \<noteq> In_end Erase" using start(1) by auto
  from start(2) show ?thesis
  proof (cases rule: startE)
    case (hook c)
    then show ?thesis by (intro slot_ok_same [OF ok e]) (auto simp: place_ok_def)
  next
    case ends
    then show ?thesis by (intro slot_ok_same [OF ok e]) (auto simp: place_ok_def)
  next
    case shuts
    then show ?thesis by (intro slot_ok_same [OF ok e]) (auto simp: place_ok_def)
  next
    case (sets b)
    then show ?thesis
      using place start(1) by (intro slot_ok_same [OF ok e]) (auto simp: place_ok_def)
  qed (use ok in simp_all)
qed

lemma own_get:
  assumes get: "place r i = In_get a" "get_step i stale a r = Moved r'" and ok: "slot_ok (r_slots r i)"
  shows "slot_ok (r_slots r' i)"
proof -
  note place = slot_ok_place [OF ok]
  note move = slot_ok_move [OF ok]
  have alive: "slot_alive (r_slots r i)" "\<not> slot_cancel (r_slots r i)"
    using place get(1) by (simp_all add: place_ok_def)
  show ?thesis
  proof (cases "a = Load_attempted \<and> \<not> slot_attempted (r_slots r i)")
    case True
    with get ok show ?thesis by (auto simp: slot_ok_def place_ok_def)
  next
    case False
    have "place_ok ((r_slots r i)\<lparr>slot_at := In_leave\<rparr>)" "place_ok ((r_slots r i)\<lparr>slot_at := In_get b\<rparr>)"
      "slot_fp (r_slots r i) \<Longrightarrow> place_ok ((r_slots r i)\<lparr>slot_at := In_write\<rparr>)" for b
      using alive by (simp_all add: place_ok_def)
    with move get False show ?thesis by (cases a) (auto split: if_splits)
  qed
qed

lemma own_open:
  assumes opens: "place r i = In_open" "open_step cfg i io r = Moved r'" and ok: "slot_ok (r_slots r i)"
  shows "slot_ok (r_slots r' i)"
proof -
  note place = slot_ok_place [OF ok]
  note move = slot_ok_move [OF ok]
  have own: "slot_alive (r_slots r i)" "slot_attempted (r_slots r i)" "\<not> slot_fp (r_slots r i)"
    "\<not> slot_cancel (r_slots r i)"
    using place opens(1) by (simp_all add: place_ok_def)
  then have free: "\<not> slot_registered (r_slots r i)" "\<not> slot_patch (r_slots r i)"
    "slot_descriptor (r_slots r i) \<noteq> Opened"
    using ok opens(1) by (auto simp: slot_ok_def)
  have "place_ok ((r_slots r i)\<lparr>slot_at := In_leave\<rparr>)" "place_ok ((r_slots r i)\<lparr>slot_at := In_get Load_fp\<rparr>)"
    using own by (simp_all add: place_ok_def)
  with move opens own free show ?thesis
    by (auto simp: open_step_def Let_def slot_ok_def [of "_\<lparr>slot_fp := _, slot_stream := _, slot_patch := _,
          slot_descriptor := _, slot_at := _\<rparr>"] place_ok_def split: if_splits)
qed

lemma own_register:
  assumes register: "place r i = In_register a" "register_step i io a r = Moved r'" and ok: "slot_ok (r_slots r i)"
  shows "slot_ok (r_slots r' i)"
proof -
  note place = slot_ok_place [OF ok]
  note move = slot_ok_move [OF ok]
  have own: "slot_alive (r_slots r i)" "slot_attempted (r_slots r i)" "\<not> slot_cancel (r_slots r i)"
    "a \<in> {Take, Check, Push, Close_own} \<longrightarrow> slot_fp (r_slots r i) \<and> \<not> slot_registered (r_slots r i)"
    using place register(1) by (simp_all add: place_ok_def)
  show ?thesis
  proof (cases a)
    case Close_own
    with register own have "place_ok (r_slots r' i)"
      by (auto simp: close_handles_def place_ok_def Let_def split: if_splits)
    with close_handles_slot [OF _ ok] register own Close_own show ?thesis by simp
  next
    case Push
    with register own ok show ?thesis
      by (auto simp: slot_ok_def place_ok_def split: if_splits)
  next
    case (Give threw)
    have "place_ok ((r_slots r i)\<lparr>slot_at := In_leave\<rparr>)" "place_ok ((r_slots r i)\<lparr>slot_at := In_get Load_fp\<rparr>)"
      using own by (simp_all add: place_ok_def)
    with move register Give show ?thesis by (auto simp: give_mutex_def split: if_splits)
  next
    case Take
    have "place_ok ((r_slots r i)\<lparr>slot_at := In_register Check\<rparr>)" using own Take by (simp add: place_ok_def)
    with move register Take show ?thesis by (auto simp: take_mutex_def split: option.splits)
  next
    case Check
    have "place_ok ((r_slots r i)\<lparr>slot_at := In_register Push\<rparr>)"
      "place_ok ((r_slots r i)\<lparr>slot_at := In_register Close_own\<rparr>)"
      using own Check by (simp_all add: place_ok_def)
    with move register Check show ?thesis by (auto split: if_splits)
  qed
qed

lemma own_end:
  assumes end_thread: "place r i = In_end a" "end_step i a r = Moved r'" and ok: "slot_ok (r_slots r i)"
  shows "slot_ok (r_slots r' i)"
proof -
  note place = slot_ok_place [OF ok]
  show ?thesis
  proof (cases a)
    case Exchange
    with end_thread place have "slot_alive (r_slots r i)" "slot_guard (r_slots r i)" "slot_fp (r_slots r i)"
        "\<not> slot_cancel (r_slots r i)"
      by (simp_all add: place_ok_def)
    moreover from this end_thread Exchange have "place_ok (r_slots r' i)"
      by (auto simp: close_handles_def place_ok_def Let_def split: if_splits)
    ultimately show ?thesis using close_handles_slot [OF _ ok] end_thread Exchange by simp
  qed (use end_thread ok in \<open>auto simp: slot_ok_def place_ok_def take_mutex_def give_mutex_def
      split: if_splits option.splits\<close>)
qed

lemma own_shutdown:
  assumes shutdown: "place r i = In_shutdown a" "shutdown_step i a r = Moved r'" and ok: "slot_ok (r_slots r i)"
  shows "slot_ok (r_slots r' i)"
proof -
  note place = slot_ok_place [OF ok]
  note move = slot_ok_move [OF ok]
  have guard: "slot_guard (r_slots r i)" using place shutdown(1) by (simp add: place_ok_def)
  have moved: "slot_ok ((r_slots r i)\<lparr>slot_at := In_shutdown b\<rparr>)" for b
    using guard shutdown(1) by (intro move) (simp_all add: place_ok_def)
  have rest: "slot_ok ((r_slots r i)\<lparr>slot_at := returned (r_slots r i)\<rparr>)"
    using shutdown(1) by (intro move) (simp_all add: place_ok_def returned_def)
  show ?thesis
  proof (cases "\<exists>f fs. a = Flush (f # fs)")
    case True
    then obtain f fs where a: "a = Flush (f # fs)" by blast
    with shutdown have "r_slots r' i = (r_slots r i)\<lparr>slot_at := In_shutdown (Flush fs)\<rparr> \<or>
        r_slots r' i = (r_slots r i)\<lparr>slot_at := In_shutdown (Flush fs), slot_flushed := True\<rparr>"
      by (auto simp: Let_def split: if_splits)
    with moved [of "Flush fs"] show ?thesis by (metis slot_ok_flushed)
  next
    case False
    with shutdown moved rest show ?thesis
      by (cases "(i, a, r)" rule: shutdown_step.cases)
        (auto simp: take_mutex_def give_mutex_def split: if_splits option.splits)
  qed
qed

lemma own_slot_step:
  assumes "race_step cfg i ch r = Moved r'" "slot_ok (r_slots r i)"
  shows "slot_ok (r_slots r' i)"
  using assms(1)
proof (cases rule: race_stepE)
  case writes
  with assms(2) show ?thesis by (auto simp: write_step_def slot_ok_def place_ok_def split: if_splits)
next
  case patches
  with assms(2) show ?thesis by (auto simp: patch_step_def slot_ok_def place_ok_def split: if_splits)
next
  case leaves
  with assms(2) show ?thesis by (auto simp: leave_step_def slot_ok_def place_ok_def)
qed (rule own_start own_get own_open own_register own_end own_shutdown; (assumption | rule assms))+

lemma slots_step:
  assumes "race_step cfg i ch r = Moved r'" "\<forall>j. slot_ok (r_slots r j)"
  shows "slot_ok (r_slots r' j)"
proof (cases "j = i")
  case True
  with own_slot_step [OF assms(1)] assms(2) show ?thesis by simp
next
  case False
  from other_slots [OF assms(1) False] assms(2) show ?thesis by (metis slot_ok_flushed)
qed

section \<open>What holds of the registry and the flags\<close>

text \<open>The registry has been emptied for good.\<close>

definition emptied :: "race \<Rightarrow> bool" where
  "emptied r \<longleftrightarrow> r_complete r \<or> (\<exists>j. place r j = In_shutdown Store)"

definition registry_sound :: "race \<Rightarrow> bool" where
  "registry_sound r \<longleftrightarrow>
     distinct (r_files r) \<and> (emptied r \<longrightarrow> r_files r = []) \<and>
     (\<not> emptied r \<longrightarrow> (\<forall>j. j \<in> set (r_files r) \<longleftrightarrow> slot_registered (r_slots r j))) \<and>
     (\<forall>j. place r j = In_register Push \<longrightarrow> \<not> r_complete r) \<and>
     (\<forall>j. place r j = In_register Close_own \<longrightarrow> r_complete r)"

text \<open>The progress of the shutdown's flushing.\<close>

definition flushing_sound :: "race \<Rightarrow> bool" where
  "flushing_sound r \<longleftrightarrow>
     (\<forall>j fs. place r j = In_shutdown (Flush fs) \<longrightarrow>
        set fs \<subseteq> set (r_files r) \<and>
        (\<forall>f \<in> set (r_files r) - set fs. slot_flushed (r_slots r f))) \<and>
     (\<forall>j. place r j = In_shutdown Clear \<longrightarrow> (\<forall>f \<in> set (r_files r). slot_flushed (r_slots r f))) \<and>
     (emptied r \<longrightarrow> (\<forall>j. slot_registered (r_slots r j) \<longrightarrow> slot_flushed (r_slots r j)))"

definition race_ok :: "race \<Rightarrow> bool" where
  "race_ok r \<longleftrightarrow> mutex_ok r \<and> (\<forall>j. slot_ok (r_slots r j)) \<and> registry_sound r \<and> flushing_sound r"

text \<open>
  Most steps are quiet: they leave the registry, the flag and what is known of registered files alone,
  and do not arrive at a place that the invariants speak of.
\<close>

fun watched :: "control \<Rightarrow> bool" where
  "watched (In_register a) \<longleftrightarrow> a = Push \<or> a = Close_own"
| "watched (In_shutdown a) \<longleftrightarrow> a = Store \<or> a = Clear \<or> (\<exists>fs. a = Flush fs)"
| "watched _ \<longleftrightarrow> False"

definition quiet_step :: "race \<Rightarrow> race \<Rightarrow> bool" where
  "quiet_step r r' \<longleftrightarrow> r_files r' = r_files r \<and> r_complete r' = r_complete r \<and>
     (\<forall>j. slot_registered (r_slots r' j) = slot_registered (r_slots r j) \<and>
          slot_flushed (r_slots r' j) = slot_flushed (r_slots r j) \<and>
          (watched (place r' j) \<longrightarrow> place r' j = place r j) \<and>
          (place r j = In_shutdown Store \<longrightarrow> place r' j = In_shutdown Store))"

lemma quiet_emptied: "quiet_step r r' \<Longrightarrow> emptied r' = emptied r"
  unfolding quiet_step_def emptied_def by (metis watched.simps(2))

lemma quiet_registry: "quiet_step r r' \<Longrightarrow> registry_sound r \<Longrightarrow> registry_sound r'"
  using quiet_emptied [of r r'] unfolding registry_sound_def quiet_step_def by (metis watched.simps(1))

lemma quiet_flushing: "quiet_step r r' \<Longrightarrow> flushing_sound r \<Longrightarrow> flushing_sound r'"
  using quiet_emptied [of r r'] unfolding flushing_sound_def quiet_step_def by (metis watched.simps(2))

text \<open>In a critical section, the invariants speak of the one thread in it.\<close>

lemma alone_at:
  "\<forall>j. j \<noteq> i \<longrightarrow> \<not> in_critical (place r j) \<Longrightarrow> in_critical c \<Longrightarrow> place r j = c \<Longrightarrow> j = i"
  by auto

lemma alone_emptied:
  assumes "\<forall>j. j \<noteq> i \<longrightarrow> \<not> in_critical (place r j)"
  shows "emptied r \<longleftrightarrow> r_complete r \<or> place r i = In_shutdown Store"
proof -
  have "j = i" if "place r j = In_shutdown Store" for j using alone_at [OF assms _ that] by simp
  then show ?thesis unfolding emptied_def by metis
qed

lemma alone_registry:
  assumes "\<forall>j. j \<noteq> i \<longrightarrow> \<not> in_critical (place r j)"
  shows "registry_sound r \<longleftrightarrow>
     distinct (r_files r) \<and> (r_complete r \<or> place r i = In_shutdown Store \<longrightarrow> r_files r = []) \<and>
     (\<not> r_complete r \<and> place r i \<noteq> In_shutdown Store \<longrightarrow>
        (\<forall>j. j \<in> set (r_files r) \<longleftrightarrow> slot_registered (r_slots r j))) \<and>
     (place r i = In_register Push \<longrightarrow> \<not> r_complete r) \<and> (place r i = In_register Close_own \<longrightarrow> r_complete r)"
proof -
  have "j = i" if "place r j = In_register Push" for j using alone_at [OF assms _ that] by simp
  then have push: "(\<forall>j. place r j = In_register Push \<longrightarrow> P) \<longleftrightarrow> (place r i = In_register Push \<longrightarrow> P)" for P
    by metis
  have "j = i" if "place r j = In_register Close_own" for j using alone_at [OF assms _ that] by simp
  then have close: "(\<forall>j. place r j = In_register Close_own \<longrightarrow> P) \<longleftrightarrow>
      (place r i = In_register Close_own \<longrightarrow> P)" for P
    by metis
  show ?thesis unfolding registry_sound_def alone_emptied [OF assms] push close by simp
qed

lemma alone_flushing:
  assumes "\<forall>j. j \<noteq> i \<longrightarrow> \<not> in_critical (place r j)"
  shows "flushing_sound r \<longleftrightarrow>
     (\<forall>fs. place r i = In_shutdown (Flush fs) \<longrightarrow>
        set fs \<subseteq> set (r_files r) \<and> (\<forall>f \<in> set (r_files r) - set fs. slot_flushed (r_slots r f))) \<and>
     (place r i = In_shutdown Clear \<longrightarrow> (\<forall>f \<in> set (r_files r). slot_flushed (r_slots r f))) \<and>
     (r_complete r \<or> place r i = In_shutdown Store \<longrightarrow>
        (\<forall>j. slot_registered (r_slots r j) \<longrightarrow> slot_flushed (r_slots r j)))"
proof -
  have "j = i" if "place r j = In_shutdown (Flush fs)" for j fs
    using alone_at [OF assms, of "In_shutdown (Flush fs)"] that by simp
  then have f: "(\<forall>j fs. place r j = In_shutdown (Flush fs) \<longrightarrow> P fs) \<longleftrightarrow>
      (\<forall>fs. place r i = In_shutdown (Flush fs) \<longrightarrow> P fs)" for P
    by metis
  have c: "(\<forall>j. place r j = In_shutdown Clear \<longrightarrow> Q) \<longleftrightarrow> (place r i = In_shutdown Clear \<longrightarrow> Q)" for Q
    using alone_at [OF assms, of "In_shutdown Clear"] by fastforce
  show ?thesis unfolding flushing_sound_def alone_emptied [OF assms] f c by (rule refl)
qed

lemma critical_alone:
  "mutex_ok r \<Longrightarrow> in_critical (place r i) \<Longrightarrow> \<forall>j. j \<noteq> i \<longrightarrow> \<not> in_critical (place r j)"
  "mutex_ok r \<Longrightarrow> r_holder r = None \<Longrightarrow> \<not> in_critical (place r j)"
  by (auto simp: mutex_ok_def)

definition loud :: "control \<Rightarrow> bool" where
  "loud c \<longleftrightarrow> c \<in> {In_register Check, In_register Push, In_end Erase, In_shutdown Take_shutdown,
     In_shutdown Clear, In_shutdown Store} \<or> (\<exists>fs. c = In_shutdown (Flush fs))"

lemma quiet_refl [simp]: "quiet_step r r"
  by (simp add: quiet_step_def)

lemma quiet_trans: "quiet_step r s \<Longrightarrow> quiet_step s t \<Longrightarrow> quiet_step r t"
  unfolding quiet_step_def by metis

lemma quiet_flags [simp]:
  "quiet_step r (r\<lparr>r_ready := b\<rparr>)" "quiet_step s (r\<lparr>r_holder := h\<rparr>) = quiet_step s r"
  "quiet_step (r\<lparr>r_holder := h\<rparr>) s = quiet_step r s" "quiet_step (r\<lparr>r_started := b\<rparr>) s = quiet_step r s"
  by (simp_all add: quiet_step_def)

lemma quiet_set:
  "slot_registered (f (r_slots r i)) = slot_registered (r_slots r i) \<Longrightarrow>
   slot_flushed (f (r_slots r i)) = slot_flushed (r_slots r i) \<Longrightarrow> \<not> watched (slot_at (f (r_slots r i))) \<Longrightarrow>
   place r i \<noteq> In_shutdown Store \<Longrightarrow> quiet_step r (set_slot i f r)"
  by (simp add: quiet_step_def)

lemma quiet_goto: "\<not> watched c \<Longrightarrow> place r i \<noteq> In_shutdown Store \<Longrightarrow> quiet_step r (goto i c r)"
  unfolding goto_def by (rule quiet_set) simp_all

lemma quiet_started:
  "\<not> watched c \<Longrightarrow> place r i \<noteq> In_shutdown Store \<Longrightarrow> quiet_step r (goto i c (r\<lparr>r_started := b\<rparr>))"
  using quiet_goto [of c "r\<lparr>r_started := b\<rparr>" i] by simp

lemma quiet_mutex:
  "take_mutex i c r = Moved r' \<Longrightarrow> \<not> watched c \<Longrightarrow> place r i \<noteq> In_shutdown Store \<Longrightarrow> quiet_step r r'"
  "give_mutex i c r = Moved r' \<Longrightarrow> \<not> watched c \<Longrightarrow> place r i \<noteq> In_shutdown Store \<Longrightarrow> quiet_step r r'"
  using quiet_goto [of c "r\<lparr>r_holder := Some i\<rparr>" i] quiet_goto [of c "r\<lparr>r_holder := None\<rparr>" i]
  by (auto simp: take_mutex_def give_mutex_def split: option.splits)

lemma quiet_close:
  "close_handles i c r = Moved r' \<Longrightarrow> \<not> watched c \<Longrightarrow> place r i \<noteq> In_shutdown Store \<Longrightarrow> quiet_step r r'"
  by (auto simp: close_handles_def Let_def intro!: quiet_set split: if_splits)

lemma quiet_steps:
  assumes "race_step cfg i ch r = Moved r'" "\<not> loud (place r i)"
  shows "quiet_step r r'"
proof -
  note quiet = quiet_goto quiet_set
  from assms(1) show ?thesis
  proof (cases rule: race_stepE)
    case start
    have e: "place r i \<noteq> In_shutdown Store" "\<not> watched (place r i)" using start(1) by auto
    from start(2) show ?thesis by (cases rule: startE) (use e in \<open>auto intro!: quiet\<close>)
  next
    case (get a stale)
    then show ?thesis by (cases a) (auto intro!: quiet split: if_splits)
  next
    case (opens io)
    then show ?thesis by (auto simp: open_step_def Let_def intro!: quiet split: if_splits)
  next
    case (register io a)
    with assms(2) show ?thesis
      by (cases a) (auto simp: loud_def intro: quiet_close quiet_mutex split: if_splits)
  next
    case writes
    then show ?thesis by (auto simp: write_step_def intro!: quiet split: if_splits)
  next
    case patches
    then show ?thesis by (auto simp: patch_step_def intro!: quiet split: if_splits)
  next
    case leaves
    then show ?thesis by (auto simp: leave_step_def intro!: quiet)
  next
    case (end_thread a)
    show ?thesis
    proof (cases a)
      case Give_end
      let ?r = "set_slot i (\<lambda>s. (cancel_again s)\<lparr>slot_alive := False\<rparr>) r"
      have "quiet_step r ?r"
        using end_thread(1) Give_end by (intro quiet_set) simp_all
      moreover have "quiet_step ?r r'"
        using end_thread Give_end by (intro quiet_mutex(2) [of i Gone]) simp_all
      ultimately show ?thesis by (rule quiet_trans)
    next
      case Load_own
      with end_thread show ?thesis by (auto intro!: quiet split: if_splits)
    next
      case Take_end
      with end_thread show ?thesis by (auto dest: quiet_mutex(1))
    next
      case Exchange
      with end_thread show ?thesis by (auto intro!: quiet dest: quiet_close split: if_splits)
    next
      case Erase
      with end_thread assms(2) show ?thesis by (simp add: loud_def)
    qed
  next
    case (shutdown a)
    have w: "\<not> watched (returned s)" for s by (simp add: returned_def)
    with shutdown assms(2) show ?thesis
      by (cases "(i, a, r)" rule: shutdown_step.cases)
        (auto simp: loud_def intro: quiet_mutex quiet_goto quiet_started split: if_splits)
  qed
qed

text \<open>The loud steps, one by one; each has the mutex, or takes it.\<close>

lemma registering_step:
  assumes "register_step i io a r = Moved r'" "place r i = In_register a" "a = Check \<or> a = Push" "race_ok r"
  shows "registry_sound r' \<and> flushing_sound r'"
proof -
  have alone: "\<forall>j. j \<noteq> i \<longrightarrow> \<not> in_critical (place r j)"
    using critical_alone(1) [of r i] assms(2-4) by (auto simp: race_ok_def)
  have alone': "\<forall>j. j \<noteq> i \<longrightarrow> \<not> in_critical (place r' j)"
    using alone assms(1,3) by (auto split: if_splits)
  have sound: "registry_sound r" "flushing_sound r" using assms(4) by (simp_all add: race_ok_def)
  have "slot_ok (r_slots r i)" using assms(4) by (simp add: race_ok_def)
  then have fresh: "\<not> slot_registered (r_slots r i)" using assms(2,3) by (auto simp: slot_ok_def place_ok_def)
  note facts = sound(1) [unfolded alone_registry [OF alone]] sound(2) [unfolded alone_flushing [OF alone]]
  from assms(3) show ?thesis
  proof
    assume a: "a = Check"
    then have "r' = goto i (In_register (if r_complete r then Close_own else Push)) r" using assms(1) by simp
    then show ?thesis
      unfolding alone_registry [OF alone'] alone_flushing [OF alone']
      using assms(2) facts a by (cases "r_complete r") simp_all
  next
    assume a: "a = Push"
    show ?thesis
    proof (cases "io_push_throws io")
      case True
      with assms(1) a have r': "r' = goto i (In_register (Give True)) r" by simp
      from facts assms(2) a show ?thesis
        unfolding alone_registry [OF alone'] alone_flushing [OF alone'] by (simp add: r')
    next
      case False
      with assms(1) a have r': "r' = set_slot i (\<lambda>s. s\<lparr>slot_registered := True, slot_at := In_register (Give False)\<rparr>)
          (r\<lparr>r_files := r_files r @ [i]\<rparr>)" by simp
      from facts assms(2) a have "i \<notin> set (r_files r)" using fresh by simp
      with facts assms(2) a show ?thesis
        unfolding alone_registry [OF alone'] alone_flushing [OF alone']
        by (simp add: r')
    qed
  qed
qed

lemma erasing_step:
  assumes "end_step i Erase r = Moved r'" "place r i = In_end Erase" "race_ok r"
  shows "registry_sound r' \<and> flushing_sound r'"
proof -
  have r': "r' = set_slot i (\<lambda>s. s\<lparr>slot_registered := False, slot_at := In_end Give_end\<rparr>)
      (r\<lparr>r_files := remove1 i (r_files r)\<rparr>)" using assms(1) by simp
  have alone: "\<forall>j. j \<noteq> i \<longrightarrow> \<not> in_critical (place r j)"
    using critical_alone(1) [of r i] assms(2,3) by (auto simp: race_ok_def)
  then have alone': "\<forall>j. j \<noteq> i \<longrightarrow> \<not> in_critical (place r' j)" by (simp add: r')
  have "registry_sound r" "flushing_sound r" using assms(3) by (simp_all add: race_ok_def)
  then show ?thesis
    unfolding alone_registry [OF alone] alone_flushing [OF alone] alone_registry [OF alone']
      alone_flushing [OF alone']
    using assms(2) by (simp add: r' set_remove1_eq)
qed

lemma flushed_file:
  assumes "race_ok r" "place r i = In_shutdown (Flush (f # fs))"
  shows "slot_alive (r_slots r f)" "slot_fp (r_slots r f)" "slot_stream (r_slots r f) = Opened"
proof -
  have alone: "\<forall>j. j \<noteq> i \<longrightarrow> \<not> in_critical (place r j)"
    using critical_alone(1) [of r i] assms by (simp add: race_ok_def)
  have sound: "registry_sound r" "flushing_sound r" and f: "slot_ok (r_slots r f)"
    using assms(1) by (simp_all add: race_ok_def)
  from sound(2) have "f \<in> set (r_files r)" unfolding alone_flushing [OF alone] using assms(2) by simp
  with sound(1) have reg: "slot_registered (r_slots r f)"
    unfolding alone_registry [OF alone] using assms(2) by auto
  moreover have "place r f \<noteq> In_end Erase"
    using alone assms(2) by (cases "f = i") auto
  ultimately show "slot_alive (r_slots r f)" "slot_fp (r_slots r f)" "slot_stream (r_slots r f) = Opened"
    using f by (auto simp: slot_ok_def)
qed

lemma shutting_step:
  assumes "shutdown_step i a r = Moved r'" "place r i = In_shutdown a" "race_ok r"
    and "a = Take_shutdown \<or> a = Clear \<or> a = Store \<or> (\<exists>fs. a = Flush fs)"
  shows "registry_sound r' \<and> flushing_sound r'"
proof -
  have alone: "\<forall>j. j \<noteq> i \<longrightarrow> \<not> in_critical (place r j)"
  proof (cases "a = Take_shutdown")
    case True
    then have "r_holder r = None" using assms(1) by (auto simp: take_mutex_def split: option.splits)
    with assms(3) show ?thesis by (auto simp: race_ok_def mutex_ok_def)
  next
    case False
    then show ?thesis using critical_alone(1) [of r i] assms(2-4) by (auto simp: race_ok_def)
  qed
  have sound: "registry_sound r" "flushing_sound r" using assms(3) by (simp_all add: race_ok_def)
  note facts = sound(1) [unfolded alone_registry [OF alone]] sound(2) [unfolded alone_flushing [OF alone]]
  from assms(4) consider "a = Take_shutdown" | "a = Flush []" | f fs where "a = Flush (f # fs)" | "a = Clear" | "a = Store"
    by (metis list.exhaust)
  then show ?thesis
  proof cases
    case 1
    with assms(1) have r': "r' = goto i (In_shutdown (Flush (r_files r))) (r\<lparr>r_holder := Some i\<rparr>)"
      by (auto simp: take_mutex_def split: option.splits)
    have alone': "\<forall>j. j \<noteq> i \<longrightarrow> \<not> in_critical (place r' j)" using alone by (simp add: r')
    show ?thesis unfolding alone_registry [OF alone'] alone_flushing [OF alone']
      using facts assms(2) 1 by (simp add: r')
  next
    case 2
    with assms(1) have r': "r' = goto i (In_shutdown Clear) r" by simp
    have alone': "\<forall>j. j \<noteq> i \<longrightarrow> \<not> in_critical (place r' j)" using alone by (simp add: r')
    show ?thesis unfolding alone_registry [OF alone'] alone_flushing [OF alone']
      using facts assms(2) 2 by (simp add: r')
  next
    case 3
    have own: "slot_alive (r_slots r f)" "slot_fp (r_slots r f)" "slot_stream (r_slots r f) = Opened"
      using flushed_file [OF assms(3)] assms(2) 3 by blast+
    with assms(1) 3 have r': "r' = goto i (In_shutdown (Flush fs)) (set_slot f (\<lambda>s. s\<lparr>slot_flushed := True\<rparr>) r)"
      by simp
    have alone': "\<forall>j. j \<noteq> i \<longrightarrow> \<not> in_critical (place r' j)" using alone by (simp add: r')
    show ?thesis unfolding alone_registry [OF alone'] alone_flushing [OF alone']
      using facts assms(2) 3 by (auto simp: r')
  next
    case 4
    with assms(1) have r': "r' = goto i (In_shutdown Store) (r\<lparr>r_files := []\<rparr>)" by simp
    have alone': "\<forall>j. j \<noteq> i \<longrightarrow> \<not> in_critical (place r' j)" using alone by (simp add: r')
    show ?thesis unfolding alone_registry [OF alone'] alone_flushing [OF alone']
      using facts assms(2) 4 by (auto simp: r')
  next
    case 5
    with assms(1) have r': "r' = goto i (In_shutdown Give_shutdown) (r\<lparr>r_complete := True\<rparr>)" by simp
    have alone': "\<forall>j. j \<noteq> i \<longrightarrow> \<not> in_critical (place r' j)" using alone by (simp add: r')
    show ?thesis unfolding alone_registry [OF alone'] alone_flushing [OF alone']
      using facts assms(2) 5 by (simp add: r')
  qed
qed

lemma race_ok_step:
  assumes "race_step cfg i ch r = Moved r'" "race_ok r"
  shows "race_ok r'"
proof -
  have "registry_sound r' \<and> flushing_sound r'"
  proof (cases "loud (place r i)")
    case False
    with quiet_steps [OF assms(1)] quiet_registry quiet_flushing assms(2) show ?thesis
      by (auto simp: race_ok_def)
  next
    case True
    from assms(1) show ?thesis
    proof (cases rule: race_stepE)
      case (register io a)
      with registering_step [OF register(2,1) _ assms(2)] True show ?thesis by (auto simp: loud_def)
    next
      case (end_thread a)
      with erasing_step [OF _ _ assms(2)] True show ?thesis by (auto simp: loud_def)
    next
      case (shutdown a)
      with shutting_step [OF shutdown(2,1) assms(2)] True show ?thesis by (auto simp: loud_def)
    qed (use True in \<open>auto simp: loud_def\<close>)
  qed
  with mutex_step [OF assms(1)] slots_step [OF assms(1)] assms(2) show ?thesis by (simp add: race_ok_def)
qed

lemma race_ok_initial: "race_ok initial_race"
  by (simp add: race_ok_def mutex_ok_def registry_sound_def flushing_sound_def emptied_def initial_race_def
      fresh_slot_def slot_ok_def place_ok_def)

lemma racing_ok: "racing cfg r \<Longrightarrow> race_ok r"
  by (induction rule: racing.induct) (auto intro: race_ok_initial race_ok_step)

section \<open>No use after the end, and progress\<close>

lemma close_defined: "slot_ok (r_slots r i) \<Longrightarrow> slot_fp (r_slots r i) \<Longrightarrow> close_handles i c r \<noteq> Undefined"
  by (auto simp: close_handles_def slot_ok_def Let_def)

lemma mutex_defined [simp]: "take_mutex i c r \<noteq> Undefined" "give_mutex i c r \<noteq> Undefined"
  by (simp_all add: take_mutex_def give_mutex_def split: option.split)

lemma race_ok_defined:
  assumes "race_ok r"
  shows "race_step cfg i ch r \<noteq> Undefined"
proof -
  have s: "slot_ok (r_slots r i)" using assms by (simp add: race_ok_def)
  note p = slot_ok_place [OF s]
  have alive: "slot_guard (r_slots r i) \<or> slot_alive (r_slots r i)" using s by (auto simp: slot_ok_def)
  have "start cfg i ch r \<noteq> Undefined" for ch
    using alive by (auto simp: start_def start_hook_def Let_def split: choice.split)
  moreover have "cancelled i r \<noteq> Undefined" using p by (auto simp: cancelled_def place_ok_def)
  moreover have "continue cfg i io stale r \<noteq> Undefined" for io stale
  proof (cases "place r i")
    case (In_get a)
    then show ?thesis by (cases a) (simp_all add: continue_def)
  next
    case In_open
    then show ?thesis by (simp add: continue_def open_step_def)
  next
    case (In_register a)
    then show ?thesis using p close_defined [OF s]
      by (cases a) (simp_all add: continue_def place_ok_def)
  next
    case In_write
    then show ?thesis using p s by (auto simp: continue_def write_step_def place_ok_def slot_ok_def)
  next
    case In_patch
    then show ?thesis using s by (auto simp: continue_def patch_step_def slot_ok_def)
  next
    case In_leave
    then show ?thesis by (simp add: continue_def leave_step_def)
  next
    case (In_end a)
    then show ?thesis using p close_defined [OF s]
      by (cases a) (simp_all add: continue_def place_ok_def)
  next
    case (In_shutdown a)
    show ?thesis
    proof (cases "\<exists>f fs. a = Flush (f # fs)")
      case True
      then obtain f fs where "a = Flush (f # fs)" by blast
      with flushed_file [OF assms, of i f fs] In_shutdown show ?thesis by (simp add: continue_def)
    next
      case False
      with In_shutdown show ?thesis
        by (cases "(i, a, r)" rule: shutdown_step.cases) (simp_all add: continue_def)
    qed
  qed (simp_all add: continue_def)
  ultimately show ?thesis by (simp add: race_step_def split: choice.split)
qed

lemma close_moves: "close_handles i c r \<noteq> Blocked"
  by (simp add: close_handles_def Let_def)

lemma blocked_taking:
  assumes "race_step cfg i (Go_on io stale) r = Blocked" "place r i \<noteq> Rest" "place r i \<noteq> Gone"
  shows "r_holder r \<noteq> None" "\<not> in_critical (place r i)"
proof -
  have b: "continue cfg i io stale r = Blocked" using assms(1) by (simp add: race_step_def)
  have "r_holder r \<noteq> None \<and> \<not> in_critical (place r i)"
  proof (cases "place r i")
    case (In_get a)
    with b show ?thesis by (cases a) (simp_all add: continue_def)
  next
    case (In_register a)
    with b close_moves show ?thesis
      by (cases a) (auto simp: continue_def take_mutex_def give_mutex_def split: option.splits)
  next
    case (In_end a)
    with b close_moves show ?thesis
      by (cases a) (auto simp: continue_def take_mutex_def give_mutex_def split: option.splits if_splits)
  next
    case (In_shutdown a)
    with b show ?thesis
      by (cases "(i, a, r)" rule: shutdown_step.cases)
        (auto simp: continue_def take_mutex_def give_mutex_def Let_def split: option.splits if_splits)
  qed (use b assms(2,3) in \<open>auto simp: continue_def open_step_def write_step_def patch_step_def leave_step_def
      split: if_splits\<close>)
  then show "r_holder r \<noteq> None" "\<not> in_critical (place r i)" by simp_all
qed

end
