(* ===== verification/RaceProperties.thy ===== *)
theory RaceProperties
  imports FileRaces
begin

text \<open>
  What the interleavings of theory FileRaces show: a bound on the lines after the shutdown, the refinement of the
  atomic operations of theory TraceFiles, progress, and cancellation.
\<close>

section \<open>Lines after the shutdown\<close>

fun race_run :: "config \<Rightarrow> (nat \<times> choice) list \<Rightarrow> race \<Rightarrow> race moved" where
  "race_run cfg [] r = Moved r"
| "race_run cfg ((i, ch) # acts) r =
     (case race_step cfg i ch r of
        Blocked \<Rightarrow> Blocked | Undefined \<Rightarrow> Undefined | Moved r' \<Rightarrow> race_run cfg acts r')"

lemma racing_run: "racing cfg r \<Longrightarrow> race_run cfg acts r = Moved r' \<Longrightarrow> racing cfg r'"
  by (induction cfg acts r rule: race_run.induct) (auto split: moved.splits intro: racing.step)

fun reads_now :: "choice \<Rightarrow> bool" where
  "reads_now (Go_on io stale) \<longleftrightarrow> \<not> stale"
| "reads_now _ \<longleftrightarrow> True"

text \<open>Past its check of the flag a hook has one line to write.\<close>

fun lines_due :: "control \<Rightarrow> nat" where
  "lines_due (In_get a) = (if a = Load_attempted \<or> a = Load_fp then 1 else 0)"
| "lines_due In_open = 1"
| "lines_due (In_register a) = 1"
| "lines_due In_write = 1"
| "lines_due _ = 0"

definition lines_bound :: "race \<Rightarrow> nat \<Rightarrow> nat" where
  "lines_bound r j = slot_lines (r_slots r j) + lines_due (place r j)"

lemma complete_stays:
  assumes "race_step cfg i ch r = Moved r'" "r_complete r"
  shows "r_complete r'"
  using assms(1)
proof (cases rule: race_stepE)
  case start
  from start(2) show ?thesis by (cases rule: startE) (use assms(2) in simp_all)
next
  case (get a stale)
  with assms(2) show ?thesis by (cases a) (auto split: if_splits)
next
  case (register io a)
  with assms(2) show ?thesis
    by (cases a) (auto simp: race_defs Let_def split: if_splits option.splits)
next
  case (end_thread a)
  with assms(2) show ?thesis
    by (cases a) (auto simp: race_defs Let_def split: if_splits option.splits)
next
  case (shutdown a)
  with assms(2) show ?thesis
    by (cases "(i, a, r)" rule: shutdown_step.cases) (auto simp: race_defs Let_def split: if_splits option.splits)
qed (use assms(2) in \<open>auto simp: race_defs Let_def split: if_splits\<close>)

lemma lines_bound_own:
  assumes "race_step cfg i ch r = Moved r'" "r_complete r" "reads_now ch"
  shows "lines_bound r' i \<le> lines_bound r i"
proof -
  have fresh: "place r i = In_get a \<Longrightarrow> get_step i stale a r = Moved r' \<Longrightarrow> ch = Go_on io stale \<Longrightarrow>
      lines_bound r' i \<le> lines_bound r i" for a stale io
    using assms(2,3) by (cases a) (auto simp: lines_bound_def split: if_splits)
  from assms(1) show ?thesis
  proof (cases rule: race_stepE)
    case start
    have "lines_due (place r i) = 0" using start(1) by auto
    from start(2) this show ?thesis by (cases rule: startE) (auto simp: lines_bound_def)
  next
    case (get a stale)
    from assms(1) get(1) obtain io s where ch: "ch = Go_on io s" "get_step i s a r = Moved r'"
      by (cases ch) (auto simp: race_step_def continue_def cancelled_def split: if_splits)
    from fresh [OF get(1) ch(2,1)] show ?thesis .
  next
    case (opens io)
    then show ?thesis by (auto simp: lines_bound_def open_step_def Let_def split: if_splits)
  next
    case (register io a)
    then show ?thesis
      by (cases a) (auto simp: lines_bound_def take_mutex_def give_mutex_def close_handles_def Let_def
          split: if_splits option.splits)
  next
    case writes
    then show ?thesis by (auto simp: lines_bound_def write_step_def split: if_splits)
  next
    case patches
    then show ?thesis by (auto simp: lines_bound_def patch_step_def split: if_splits)
  next
    case leaves
    then show ?thesis by (auto simp: lines_bound_def leave_step_def)
  next
    case (end_thread a)
    then show ?thesis
      by (cases a) (auto simp: lines_bound_def take_mutex_def give_mutex_def close_handles_def Let_def
          split: if_splits option.splits)
  next
    case (shutdown a)
    then show ?thesis
      by (cases "(i, a, r)" rule: shutdown_step.cases)
        (auto simp: lines_bound_def take_mutex_def give_mutex_def returned_def Let_def
          split: if_splits option.splits)
  qed
qed

lemma lines_bound_step:
  assumes "race_step cfg i ch r = Moved r'" "r_complete r" "reads_now ch"
  shows "lines_bound r' j \<le> lines_bound r j"
proof (cases "j = i")
  case True
  with lines_bound_own [OF assms] show ?thesis by simp
next
  case False
  from other_slots [OF assms(1) False] show ?thesis by (auto simp: lines_bound_def)
qed

lemma lines_bound_run:
  "race_run cfg acts r = Moved r' \<Longrightarrow> r_complete r \<Longrightarrow> list_all (\<lambda>(i, ch). reads_now ch) acts \<Longrightarrow>
   lines_bound r' j \<le> lines_bound r j"
proof (induction cfg acts r rule: race_run.induct)
  case (2 cfg i ch acts r)
  then obtain r1 where r1: "race_step cfg i ch r = Moved r1" "race_run cfg acts r1 = Moved r'"
    by (auto split: moved.splits)
  have "lines_bound r' j \<le> lines_bound r1 j"
    using "2.IH" [OF r1(1,2) complete_stays [OF r1(1)]] "2.prems" by simp
  also have "\<dots> \<le> lines_bound r j" using lines_bound_step [OF r1(1)] "2.prems" by simp
  finally show ?case .
qed simp

section \<open>Cancellation\<close>

text \<open>The cancellation state that the program has set.\<close>

definition wanted :: "slot \<Rightarrow> bool" where
  "wanted s = (if in_tracer (slot_at s) then slot_saved s else slot_cancel s)"

lemma wanted_move: "in_tracer c = in_tracer (slot_at s) \<Longrightarrow> wanted (s\<lparr>slot_at := c\<rparr>) = wanted s"
  by (simp add: wanted_def)

lemma returned_outside [simp]: "\<not> in_tracer (returned s)"
  by (simp add: returned_def)

lemma wanted_own:
  assumes "race_step cfg i ch r = Moved r'" "\<forall>b. ch \<noteq> Set_cancel b"
  shows "wanted (r_slots r' i) = wanted (r_slots r i)"
  using assms(1)
proof (cases rule: race_stepE)
  case start
  then have "\<not> in_tracer (place r i)" by auto
  from start(2) this show ?thesis
    by (cases rule: startE) (use assms(2) in \<open>auto simp: wanted_def\<close>)
next
  case (get a stale)
  then show ?thesis by (cases a) (auto simp: wanted_def split: if_splits)
next
  case (register io a)
  then show ?thesis
    by (cases a) (auto simp: wanted_def race_defs Let_def split: if_splits option.splits)
next
  case (end_thread a)
  then show ?thesis
    by (cases a) (auto simp: wanted_def race_defs Let_def split: if_splits option.splits)
next
  case (shutdown a)
  then show ?thesis
    by (cases "(i, a, r)" rule: shutdown_step.cases)
      (auto simp: wanted_def race_defs Let_def split: if_splits option.splits)
qed (auto simp: wanted_def race_defs Let_def split: if_splits)

lemma wanted_step:
  assumes "race_step cfg i ch r = Moved r'" "\<forall>b. ch \<noteq> Set_cancel b"
  shows "wanted (r_slots r' j) = wanted (r_slots r j)"
proof (cases "j = i")
  case True
  with wanted_own [OF assms] show ?thesis by simp
next
  case False
  from other_slots [OF assms(1) False] show ?thesis by (auto simp: wanted_def)
qed

section \<open>The atomic operations\<close>

text \<open>
  What a state of the race means for the operations of theory TraceFiles: the registry has been
  emptied from the clearing on, and a thread has left it from the closing of its stream on.
\<close>

definition seen_globals :: "race \<Rightarrow> trace_globals" where
  "seen_globals r = initial_globals\<lparr>trace_ready := r_ready r,
     open_files := filter (\<lambda>j. place r j \<noteq> In_end Erase) (r_files r),
     shutdown_started := emptied r, shutdown_complete := emptied r\<rparr>"

definition seen_thread :: "race \<Rightarrow> nat \<Rightarrow> thread_state" where
  "seen_thread r j =
     (let s = r_slots r j
      in (fresh_thread j [])\<lparr>in_instrumentation := slot_guard s, trace_fp := slot_fp s, patch_fd := slot_patch s,
           open_attempted := slot_attempted s,
           registered := slot_registered s \<and> slot_at s \<noteq> In_end Erase\<rparr>)"

definition seen :: "race \<Rightarrow> trace_globals \<times> (nat \<Rightarrow> thread_state)" where
  "seen r = (seen_globals r, seen_thread r)"

text \<open>The atomic operations, of one thread on its own state and the globals.\<close>

inductive atomically ::
    "nat \<Rightarrow> trace_globals \<times> (nat \<Rightarrow> thread_state) \<Rightarrow> trace_globals \<times> (nat \<Rightarrow> thread_state) \<Rightarrow> bool"
  for i where
  silent: "atomically i s s"
| begun: "atomically i (g, ts) (g\<lparr>trace_ready := True\<rparr>, ts)"
| guarded: "atomically i (g, ts) (g, ts(i := (ts i)\<lparr>in_instrumentation := True\<rparr>))"
| attempted: "atomically i (g, ts) (g, ts(i := (ts i)\<lparr>open_attempted := True\<rparr>))"
| opened: "atomically i (g, ts) (g, ts(i := (ts i)\<lparr>trace_fp := True, patch_fd := b\<rparr>))"
| registered: "register_file io g (ts i) = (threw, g', t') \<Longrightarrow> atomically i (g, ts) (g', ts(i := t'))"
| closed: "close_thread_file g (ts i) = (g', t') \<Longrightarrow> atomically i (g, ts) (g', ts(i := t'))"
| shut: "trace_shutdown g (ts i) = (g', t') \<Longrightarrow> atomically i (g, ts) (g', ts(i := t'))"

lemma emptied_cong:
  "r_complete r' = r_complete r \<Longrightarrow> (\<And>j. place r' j = In_shutdown Store \<longleftrightarrow> place r j = In_shutdown Store) \<Longrightarrow>
   emptied r' = emptied r"
  by (simp add: emptied_def)

lemma seen_globals_cong:
  assumes "r_ready r' = r_ready r" "r_complete r' = r_complete r" "r_files r' = r_files r"
    and "\<And>j. place r' j = In_shutdown Store \<longleftrightarrow> place r j = In_shutdown Store"
    and "\<And>j. place r' j = In_end Erase \<longleftrightarrow> place r j = In_end Erase"
  shows "seen_globals r' = seen_globals r"
  using emptied_cong [OF assms(2,4)] assms by (simp add: seen_globals_def)

lemma seen_thread_cong:
  assumes "slot_guard (r_slots r' j) = slot_guard (r_slots r j)" "slot_fp (r_slots r' j) = slot_fp (r_slots r j)"
    and "slot_patch (r_slots r' j) = slot_patch (r_slots r j)"
    and "slot_attempted (r_slots r' j) = slot_attempted (r_slots r j)"
    and "slot_registered (r_slots r' j) = slot_registered (r_slots r j)"
    and "place r' j = In_end Erase \<longleftrightarrow> place r j = In_end Erase"
  shows "seen_thread r' j = seen_thread r j"
  using assms by (simp add: seen_thread_def Let_def)

text \<open>A step that changes its own slot alone, away from the two places above.\<close>

definition passing :: "control \<Rightarrow> bool" where
  "passing c \<longleftrightarrow> c \<noteq> In_shutdown Store \<and> c \<noteq> In_end Erase"

lemma seen_set:
  assumes "passing (place r i)" "passing (slot_at (f (r_slots r i)))"
  shows "seen (set_slot i f r) = (seen_globals r, (seen_thread r)(i := seen_thread (set_slot i f r) i))"
proof -
  have "seen_globals (set_slot i f r) = seen_globals r"
    using assms by (intro seen_globals_cong) (auto simp: passing_def)
  moreover have "seen_thread (set_slot i f r) j = seen_thread r j" if "j \<noteq> i" for j
    using that by (simp add: seen_thread_def)
  ultimately show ?thesis by (auto simp: seen_def)
qed

lemma seen_goto: "passing (place r i) \<Longrightarrow> passing c \<Longrightarrow> seen (goto i c r) = seen r"
  unfolding goto_def
  by (subst seen_set) (auto simp: seen_def passing_def seen_thread_def Let_def fun_eq_iff)

lemma seen_flags [simp]:
  "seen (r\<lparr>r_holder := h\<rparr>) = seen r" "seen (r\<lparr>r_started := b\<rparr>) = seen r"
  by (simp_all add: seen_def seen_globals_def seen_thread_def emptied_def fun_eq_iff)

text \<open>The operations seen by another thread: what a move of the control alone, or of the mutex, is.\<close>

lemma silent_goto: "passing (place r i) \<Longrightarrow> passing c \<Longrightarrow> atomically i (seen r) (seen (goto i c r))"
  by (simp add: seen_goto atomically.silent)

lemma silent_mutex:
  assumes "take_mutex i c r = Moved r' \<or> give_mutex i c r = Moved r'" "passing (place r i)" "passing c"
  shows "seen r' = seen r"
  using assms seen_goto [of "r\<lparr>r_holder := Some i\<rparr>" i c] seen_goto [of "r\<lparr>r_holder := None\<rparr>" i c]
  by (auto simp: take_mutex_def give_mutex_def split: option.splits)

lemma silent_taken:
  "take_mutex i c r = Moved r' \<Longrightarrow> passing (place r i) \<Longrightarrow> passing c \<Longrightarrow> atomically i (seen r) (seen r')"
  using silent_mutex [of i c r r'] by (simp add: atomically.silent)

lemma silent_given:
  "give_mutex i c r = Moved r' \<Longrightarrow> passing (place r i) \<Longrightarrow> passing c \<Longrightarrow> atomically i (seen r) (seen r')"
  using silent_mutex [of i c r r'] by (simp add: atomically.silent)

lemma seen_own:
  assumes "passing (place r i)" "passing (slot_at (f (r_slots r i)))" "seen_thread (set_slot i f r) i = t'"
  shows "seen (set_slot i f r) = (seen_globals r, (seen_thread r)(i := t'))"
  using seen_set [where f = f, OF assms(1,2)] assms(3) by simp

lemma seen_thread_at:
  "passing (place r i) \<Longrightarrow> seen_thread r i = (fresh_thread i [])\<lparr>in_instrumentation := slot_guard (r_slots r i),
     trace_fp := slot_fp (r_slots r i), patch_fd := slot_patch (r_slots r i),
     open_attempted := slot_attempted (r_slots r i), registered := slot_registered (r_slots r i)\<rparr>"
  by (simp add: seen_thread_def Let_def passing_def)

lemma seen_same:
  assumes "passing (place r i)" "passing (slot_at (f (r_slots r i)))"
    and "seen_thread (set_slot i f r) i = seen_thread r i"
  shows "seen (set_slot i f r) = seen r"
  using seen_own [OF assms] by (simp add: seen_def)

lemma seen_threads [simp]:
  "seen_thread (r\<lparr>r_files := fs\<rparr>) = seen_thread r" "seen_thread (r\<lparr>r_complete := b\<rparr>) = seen_thread r"
  "seen_thread (r\<lparr>r_ready := b\<rparr>) = seen_thread r"
  by (simp_all add: seen_thread_def fun_eq_iff)

lemma passing_places [simp]:
  "passing Rest" "passing Gone" "passing (In_get a)" "passing In_open" "passing (In_register b)" "passing In_write"
  "passing In_patch" "passing In_leave"
  "passing (In_end d) \<longleftrightarrow> d \<noteq> Erase" "passing (In_shutdown e) \<longleftrightarrow> e \<noteq> Store" "passing (returned s)"
  by (simp_all add: passing_def returned_def)

lemma atomic_start:
  assumes "start cfg i ch r = Moved r'" "place r i = Rest \<or> place r i = Gone"
  shows "atomically i (seen r) (seen r')"
proof -
  have p: "passing (place r i)" using assms(2) by auto
  have guard: "atomically i (seen r) (seen (set_slot i f r))"
    if "seen_thread (set_slot i f r) i = (seen_thread r i)\<lparr>in_instrumentation := True\<rparr>"
      "passing (slot_at (f (r_slots r i)))" for f
    using seen_own [where f = f, OF p that(2,1)] by (simp add: seen_def atomically.guarded)
  from assms(1) show ?thesis
  proof (cases rule: startE)
    case ready
    then have "seen r' = ((seen_globals r)\<lparr>trace_ready := True\<rparr>, seen_thread r)"
      by (simp add: seen_def seen_globals_def emptied_def)
    then show ?thesis by (simp add: seen_def atomically.begun)
  next
    case (hook c)
    have "seen r' = seen r" unfolding hook(4) using p hook(3) by (intro seen_same) (auto simp: seen_thread_at)
    then show ?thesis by (simp add: atomically.silent)
  next
    case ends
    show ?thesis unfolding ends(2) using p by (intro guard) (simp_all add: seen_thread_at)
  next
    case shuts
    show ?thesis unfolding shuts using p by (intro guard) (simp_all add: seen_thread_at)
  next
    case (sets b)
    have "seen r' = seen r" unfolding sets(2) using p by (intro seen_same) (simp_all add: seen_thread_at)
    then show ?thesis by (simp add: atomically.silent)
  qed (simp add: atomically.silent)
qed

lemma atomic_get:
  assumes "get_step i stale a r = Moved r'" "place r i = In_get a"
  shows "atomically i (seen r) (seen r')"
proof (cases "a = Load_attempted \<and> \<not> slot_attempted (r_slots r i)")
  case True
  with assms(1) have r': "r' = set_slot i (\<lambda>s. s\<lparr>slot_attempted := True, slot_at := In_open\<rparr>) r" by simp
  have "seen r' = (seen_globals r, (seen_thread r)(i := (seen_thread r i)\<lparr>open_attempted := True\<rparr>))"
    unfolding r' using assms(2) by (intro seen_own) (simp_all add: seen_thread_at)
  then show ?thesis by (simp add: seen_def atomically.attempted)
next
  case False
  have p: "passing (place r i)" using assms(2) by simp
  from False assms(1) show ?thesis by (cases a) (auto intro!: silent_goto [OF p] split: if_splits)
qed

lemma atomic_open:
  assumes "open_step cfg i io r = Moved r'" "place r i = In_open"
  shows "atomically i (seen r) (seen r')"
proof (cases "io_path_throws io \<or> \<not> io_open io \<or> \<not> io_fdopen io")
  case True
  with assms show ?thesis by (auto simp: open_step_def intro!: silent_goto split: if_splits)
next
  case False
  define b where "b = (line_patching cfg \<and> io_reopen io)"
  define f where "f = (\<lambda>s :: slot. s\<lparr>slot_fp := True, slot_stream := Opened, slot_patch := b,
      slot_descriptor := (if b then Opened else slot_descriptor s),
      slot_at := (if io_header_throws io then In_leave else In_register Take)\<rparr>)"
  from False assms(1) have r': "r' = set_slot i f r" by (auto simp: open_step_def b_def f_def Let_def)
  have "seen r' = (seen_globals r, (seen_thread r)(i := (seen_thread r i)\<lparr>trace_fp := True, patch_fd := b\<rparr>))"
    unfolding r' using assms(2) by (intro seen_own) (simp_all add: seen_thread_at f_def)
  then show ?thesis by (simp add: seen_def atomically.opened)
qed

text \<open>Closing the thread's handles, as seen: the thread's pointers are cleared.\<close>

lemma closed_slot:
  assumes "close_handles i c r = Moved r'"
  obtains f where "r' = set_slot i f r" "slot_at (f (r_slots r i)) = c"
    "slot_guard (f (r_slots r i)) = slot_guard (r_slots r i)"
    "slot_attempted (f (r_slots r i)) = slot_attempted (r_slots r i)"
    "slot_registered (f (r_slots r i)) = slot_registered (r_slots r i)"
    "\<not> slot_fp (f (r_slots r i))" "\<not> slot_patch (f (r_slots r i))"
  using assms by (auto simp: close_handles_def Let_def split: if_splits intro!: that)

lemma seen_open_files: "(\<And>j. place r j \<noteq> In_end Erase) \<Longrightarrow> open_files (seen_globals r) = r_files r"
  by (simp add: seen_globals_def)

lemma atomic_register:
  assumes "register_step i io a r = Moved r'" "place r i = In_register a" "race_ok r"
  shows "atomically i (seen r) (seen r')"
proof -
  have p: "passing (place r i)" using assms(2) by simp
  have own: "seen_thread r i = (fresh_thread i [])\<lparr>in_instrumentation := slot_guard (r_slots r i),
     trace_fp := slot_fp (r_slots r i), patch_fd := slot_patch (r_slots r i),
     open_attempted := slot_attempted (r_slots r i), registered := slot_registered (r_slots r i)\<rparr>"
    by (rule seen_thread_at [OF p])
  have g: "shutdown_complete (seen_globals r) = emptied r" by (simp add: seen_globals_def)
  have alone: "\<forall>j. j \<noteq> i \<longrightarrow> \<not> in_critical (place r j)" if "a \<noteq> Take"
    using critical_alone(1) [of r i] assms(2,3) that by (simp add: race_ok_def)
  show ?thesis
  proof (cases a)
    case Close_own
    with assms(2,3) have "emptied r" by (auto simp: race_ok_def registry_sound_def emptied_def)
    have "close_handles i (In_register (Give False)) r = Moved r'" using assms(1) Close_own by simp
    then obtain f where f: "r' = set_slot i f r" "slot_at (f (r_slots r i)) = In_register (Give False)"
        "slot_guard (f (r_slots r i)) = slot_guard (r_slots r i)"
        "slot_attempted (f (r_slots r i)) = slot_attempted (r_slots r i)"
        "slot_registered (f (r_slots r i)) = slot_registered (r_slots r i)"
        "\<not> slot_fp (f (r_slots r i))" "\<not> slot_patch (f (r_slots r i))"
      by (rule closed_slot)
    have "seen r' = (seen_globals r, (seen_thread r)(i := (seen_thread r i)\<lparr>trace_fp := False, patch_fd := False\<rparr>))"
      unfolding f(1) using p f by (intro seen_own) (simp_all add: seen_thread_at)
    with \<open>emptied r\<close> g show ?thesis
      by (simp add: seen_def) (rule atomically.registered [of io _ _ _ False], simp add: register_file_def)
  next
    case Push
    have erase: "place r j \<noteq> In_end Erase" for j using alone Push assms(2) by (cases "j = i") auto
    have "\<not> emptied r"
      using alone_emptied [OF alone] assms(2,3) Push by (auto simp: race_ok_def registry_sound_def)
    show ?thesis
    proof (cases "io_push_throws io")
      case True
      with assms(1) Push have "r' = goto i (In_register (Give True)) r" by simp
      then show ?thesis using silent_goto [OF p] by simp
    next
      case False
      let ?r = "r\<lparr>r_files := r_files r @ [i]\<rparr>"
      from False assms(1) Push have r': "r' = set_slot i (\<lambda>s. s\<lparr>slot_registered := True,
          slot_at := In_register (Give False)\<rparr>) ?r" by simp
      have files: "seen_globals ?r = (seen_globals r)\<lparr>open_files := open_files (seen_globals r) @ [i]\<rparr>"
        using erase by (simp add: seen_globals_def emptied_def)
      have "seen r' = (seen_globals ?r, (seen_thread ?r)(i := (seen_thread r i)\<lparr>registered := True\<rparr>))"
        unfolding r' using p by (intro seen_own) (simp_all add: seen_thread_at)
      moreover have "register_file io (seen_globals r) (seen_thread r i) =
          (False, seen_globals ?r, (seen_thread r i)\<lparr>registered := True\<rparr>)"
        using g \<open>\<not> emptied r\<close> False files own by (simp add: register_file_def fresh_thread_def)
      ultimately show ?thesis by (simp add: seen_def) (rule atomically.registered)
    qed
  qed (use assms(1) p in \<open>auto intro: silent_taken silent_given silent_goto split: if_splits\<close>)
qed

lemma passing_free: "\<not> in_critical c \<Longrightarrow> passing c"
  by (auto simp: passing_def)

lemma remove1_filter: "distinct xs \<Longrightarrow> filter (\<lambda>y. y \<noteq> x) xs = remove1 x xs"
  unfolding distinct_remove1_removeAll removeAll_filter_not_eq by (rule filter_cong) auto

lemma alone_end:
  "race_ok r \<Longrightarrow> place r i = In_end a \<Longrightarrow> in_critical (In_end a) \<Longrightarrow> j \<noteq> i \<Longrightarrow> place r j \<noteq> In_end Erase"
  using critical_alone(1) [of r i] by (auto simp: race_ok_def)

lemma atomic_exchange:
  assumes "end_step i Exchange r = Moved r'" "place r i = In_end Exchange" "race_ok r"
  shows "atomically i (seen r) (seen r')"
proof -
  have ok: "place_ok (r_slots r i)" using assms(3) by (simp add: race_ok_def slot_ok_def)
  have alone: "place r j \<noteq> In_end Erase" if "j \<noteq> i" for j
    using alone_end [OF assms(3,2) _ that] by simp
  have own: "slot_fp (r_slots r i)" "slot_guard (r_slots r i)"
    using ok assms(2) by (simp_all add: place_ok_def)
  let ?c = "In_end (if slot_registered (r_slots r i) then Erase else Give_end)"
  have "close_handles i ?c r = Moved r'" using assms(1) own by simp
  then obtain f where f: "r' = set_slot i f r" "slot_at (f (r_slots r i)) = ?c"
      "slot_guard (f (r_slots r i)) = slot_guard (r_slots r i)"
      "slot_attempted (f (r_slots r i)) = slot_attempted (r_slots r i)"
      "slot_registered (f (r_slots r i)) = slot_registered (r_slots r i)"
      "\<not> slot_fp (f (r_slots r i))" "\<not> slot_patch (f (r_slots r i))"
    by (rule closed_slot)
  let ?t = "(seen_thread r i)\<lparr>trace_fp := False, patch_fd := False, registered := False\<rparr>"
  have p: "passing (place r i)" using assms(2) by simp
  have here: "seen_thread r' i = ?t"
    using p f by (simp add: seen_thread_at) (simp add: seen_thread_def Let_def)
  have "seen_thread r' j = seen_thread r j" if "j \<noteq> i" for j
    using that f(1) by (simp add: seen_thread_def)
  with here have threads: "seen_thread r' = (seen_thread r)(i := ?t)" by auto
  have "place r j \<noteq> In_end Erase" for j using alone [of j] assms(2) by (cases "j = i") auto
  then have files: "open_files (seen_globals r) = r_files r" by (rule seen_open_files)
  have places: "place r' j = In_end Erase \<longleftrightarrow> j = i \<and> slot_registered (r_slots r i)" for j
    using f alone [of j] by simp
  have "emptied r' = emptied r"
    using f assms(2) by (intro emptied_cong) auto
  moreover have "r_files r' = r_files r" "r_ready r' = r_ready r" using f(1) by simp_all
  moreover have "filter (\<lambda>j. j \<noteq> i) (r_files r) = remove1 i (r_files r)"
    using assms(3) by (simp add: race_ok_def registry_sound_def remove1_filter)
  ultimately have globals: "seen_globals r' = (if slot_registered (r_slots r i)
      then (seen_globals r)\<lparr>open_files := remove1 i (open_files (seen_globals r))\<rparr> else seen_globals r)"
    using files places by (auto simp: seen_globals_def conj_commute)
  have "close_thread_file (seen_globals r) (seen_thread r i) = (seen_globals r', ?t)"
    using own p globals by (simp add: close_thread_file_def seen_thread_at fresh_thread_def)
  then show ?thesis unfolding seen_def threads by (rule atomically.closed)
qed

lemma atomic_erase:
  assumes "end_step i Erase r = Moved r'" "place r i = In_end Erase" "race_ok r"
  shows "atomically i (seen r) (seen r')"
proof -
  from assms(1) have r': "r' = set_slot i (\<lambda>s. s\<lparr>slot_registered := False, slot_at := In_end Give_end\<rparr>)
      (r\<lparr>r_files := remove1 i (r_files r)\<rparr>)" by simp
  have "seen_thread r' j = seen_thread r j" for j
    using assms(2) by (cases "j = i") (simp_all add: r' seen_thread_def Let_def)
  moreover have "emptied r' = emptied r"
    using assms(2) by (intro emptied_cong) (auto simp: r')
  moreover have "filter (\<lambda>j. place r' j \<noteq> In_end Erase) (r_files r') = filter (\<lambda>j. place r j \<noteq> In_end Erase) (r_files r)"
  proof -
    have "distinct (r_files r)" using assms(3) by (simp add: race_ok_def registry_sound_def)
    moreover have "place r' j = In_end Erase \<longleftrightarrow> False" "place r j = In_end Erase \<longleftrightarrow> j = i" for j
      using alone_end [OF assms(3,2), of j] assms(2) by (auto simp: r')
    ultimately show ?thesis
      by (simp add: r' remove1_filter)
  qed
  ultimately have "seen r' = seen r" by (simp add: seen_def seen_globals_def r' fun_eq_iff)
  then show ?thesis by (simp add: atomically.silent)
qed

lemma atomic_end:
  assumes "end_step i a r = Moved r'" "place r i = In_end a" "race_ok r"
  shows "atomically i (seen r) (seen r')"
proof -
  show ?thesis
  proof (cases a)
    case Load_own
    have gone: "seen (set_slot i (\<lambda>s. (cancel_again s)\<lparr>slot_alive := False, slot_at := Gone\<rparr>) r) = seen r"
      using assms(2) Load_own by (intro seen_same) (simp_all add: seen_thread_at)
    show ?thesis
      using assms(1,2) Load_own gone by (auto simp: atomically.silent intro!: silent_goto split: if_splits)
  next
    case Take_end
    have "seen r' = seen r" using assms(1,2) Take_end by (intro silent_mutex) auto
    then show ?thesis by (simp add: atomically.silent)
  next
    case Exchange
    with assms show ?thesis by (auto intro: atomic_exchange)
  next
    case Erase
    with assms show ?thesis by (auto intro: atomic_erase)
  next
    case Give_end
    have p: "passing (place r i)" using assms(2) Give_end by simp
    let ?r = "set_slot i (\<lambda>s. (cancel_again s)\<lparr>slot_alive := False\<rparr>) r"
    have "seen ?r = seen r"
      using p by (intro seen_same) (simp_all add: seen_thread_at)
    moreover have "seen r' = seen ?r"
      using assms(1) Give_end p by (intro silent_mutex [where i = i and c = Gone]) auto
    ultimately show ?thesis by (simp add: atomically.silent)
  qed
qed

lemma atomic_clear:
  assumes "shutdown_step i Clear r = Moved r'" "place r i = In_shutdown Clear" "race_ok r"
  shows "atomically i (seen r) (seen r')"
proof -
  have guard: "slot_guard (r_slots r i)"
    using assms(2,3) by (auto simp: race_ok_def slot_ok_def place_ok_def dest: spec [of _ i])
  from assms(1) have r': "r' = goto i (In_shutdown Store) (r\<lparr>r_files := []\<rparr>)" by simp
  have p: "passing (place r i)" using assms(2) by simp
  have "seen_thread r' j = seen_thread r j" for j
    using assms(2) by (cases "j = i") (simp_all add: r' seen_thread_def Let_def)
  then have threads: "seen_thread r' = (seen_thread r)(i := seen_thread r i)" by auto
  have "emptied r'" by (auto simp: emptied_def r')
  then have "seen_globals r' = (seen_globals r)\<lparr>shutdown_started := True, open_files := [], shutdown_complete := True\<rparr>"
    by (simp add: seen_globals_def r')
  moreover have "seen_globals r' = seen_globals r" if "emptied r"
    using that \<open>emptied r'\<close> assms(3) by (simp add: seen_globals_def r' race_ok_def registry_sound_def)
  moreover have "(seen_thread r i)\<lparr>in_instrumentation := True\<rparr> = seen_thread r i"
    using guard p by (simp add: seen_thread_at)
  ultimately have "trace_shutdown (seen_globals r) (seen_thread r i) = (seen_globals r', seen_thread r i)"
    by (auto simp: trace_shutdown_def Let_def seen_globals_def [of r])
  then show ?thesis unfolding seen_def threads by (rule atomically.shut)
qed

lemma atomic_store:
  assumes "shutdown_step i Store r = Moved r'" "place r i = In_shutdown Store"
  shows "atomically i (seen r) (seen r')"
proof -
  from assms(1) have r': "r' = goto i (In_shutdown Give_shutdown) (r\<lparr>r_complete := True\<rparr>)" by simp
  have "emptied r'" "emptied r" using assms(2) by (auto simp: emptied_def r')
  moreover have "seen_thread r' j = seen_thread r j" for j
    using assms(2) by (cases "j = i") (simp_all add: r' seen_thread_def Let_def)
  moreover have "place r' j = In_end Erase \<longleftrightarrow> place r j = In_end Erase" for j
    using assms(2) by (simp add: r')
  ultimately have "seen r' = seen r" by (simp add: seen_def seen_globals_def r' fun_eq_iff)
  then show ?thesis by (simp add: atomically.silent)
qed

lemma atomic_shutdown:
  assumes "shutdown_step i a r = Moved r'" "place r i = In_shutdown a" "race_ok r"
  shows "atomically i (seen r) (seen r')"
proof -
  have alone: "\<forall>j. j \<noteq> i \<longrightarrow> \<not> in_critical (place r j)" if "a \<noteq> Swap" "a \<noteq> Take_shutdown"
    using critical_alone(1) [of r i] assms(2,3) that by (simp add: race_ok_def)
  have silent: ?thesis if "seen r' = seen r" using that by (simp add: atomically.silent)
  consider "a = Swap" | "a = Take_shutdown" | "a = Flush []" | f fs where "a = Flush (f # fs)" | "a = Clear"
    | "a = Store" | "a = Give_shutdown"
    by (metis list.exhaust shutdown_at.exhaust)
  then show ?thesis
  proof cases
    case 1
    with assms seen_goto [of r i] seen_goto [of "r\<lparr>r_started := True\<rparr>" i] show ?thesis
      by (intro silent) (auto split: if_splits)
  next
    case 4
    have "in_critical (place r i)" using assms(2) 4 by simp
    then have p: "passing (place r f)"
      using alone 4 assms(2) by (cases "f = i") (auto intro: passing_free)
    have "seen (set_slot f (\<lambda>s. s\<lparr>slot_flushed := True\<rparr>) r) = seen r"
      using p by (intro seen_same) (simp_all add: seen_thread_at)
    moreover have "seen (goto i (In_shutdown (Flush fs)) q) = seen q" if "place q i = place r i" for q
      using assms(2) 4 that by (intro seen_goto) simp_all
    ultimately show ?thesis
      using assms(1) 4 by (intro silent) (auto simp: Let_def split: if_splits)
  next
    case 5
    with assms show ?thesis by (auto intro: atomic_clear)
  next
    case 6
    with assms show ?thesis by (auto intro: atomic_store)
  qed (use assms(1,2) in \<open>intro silent; auto intro: silent_mutex seen_goto\<close>)+
qed

text \<open>The refinement: what other threads can tell apart happens in one step of an atomic operation.\<close>

lemma atomic_step:
  assumes "race_step cfg i ch r = Moved r'" "race_ok r"
  shows "atomically i (seen r) (seen r')"
  using assms(1)
proof (cases rule: race_stepE)
  case writes
  then have "r' = set_slot i (\<lambda>s. s\<lparr>slot_lines := slot_lines s + 1, slot_at := In_leave\<rparr>) r"
    by (simp add: write_step_def split: if_splits)
  moreover have "seen (set_slot i (\<lambda>s. s\<lparr>slot_lines := slot_lines s + 1, slot_at := In_leave\<rparr>) r) = seen r"
    using writes(1) by (intro seen_same) (simp_all add: seen_thread_at)
  ultimately show ?thesis by (simp add: atomically.silent)
next
  case patches
  then show ?thesis by (auto simp: patch_step_def intro!: silent_goto split: if_splits)
next
  case leaves
  then have "r' = set_slot i (\<lambda>s. (cancel_again s)\<lparr>slot_at := Rest\<rparr>) r" by (simp add: leave_step_def)
  moreover have "seen (set_slot i (\<lambda>s. (cancel_again s)\<lparr>slot_at := Rest\<rparr>) r) = seen r"
    using leaves(1) by (intro seen_same) (simp_all add: seen_thread_at)
  ultimately show ?thesis by (simp add: atomically.silent)
qed (rule atomic_start atomic_get atomic_open atomic_register atomic_end atomic_shutdown; (assumption | rule assms))+

lemma complete_run: "race_run cfg acts r = Moved r' \<Longrightarrow> r_complete r \<Longrightarrow> r_complete r'"
  by (induction cfg acts r rule: race_run.induct) (auto split: moved.splits dest: complete_stays)

section \<open>Progress\<close>

text \<open>The accesses left in a critical section, at most.\<close>

fun critical_left :: "control \<Rightarrow> nat" where
  "critical_left (In_register a) = (case a of Take \<Rightarrow> 0 | Check \<Rightarrow> 3 | Push \<Rightarrow> 2 | Close_own \<Rightarrow> 2 | Give _ \<Rightarrow> 1)"
| "critical_left (In_end a) =
     (case a of Load_own \<Rightarrow> 0 | Take_end \<Rightarrow> 0 | Exchange \<Rightarrow> 3 | Erase \<Rightarrow> 2 | Give_end \<Rightarrow> 1)"
| "critical_left (In_shutdown a) =
     (case a of Swap \<Rightarrow> 0 | Take_shutdown \<Rightarrow> 0 | Flush fs \<Rightarrow> length fs + 4 | Clear \<Rightarrow> 3 | Store \<Rightarrow> 2
      | Give_shutdown \<Rightarrow> 1)"
| "critical_left _ = 0"

lemma closed_left:
  "close_handles i c r = Moved r' \<Longrightarrow> place r' i = c \<and> r_holder r' = r_holder r"
  by (auto simp: close_handles_def Let_def split: if_splits)

lemma given_free: "give_mutex i c r = Moved r' \<Longrightarrow> r_holder r' = None"
  by (auto simp: give_mutex_def)

lemma critical_closer:
  assumes "race_step cfg i (Go_on io stale) r = Moved r'" "in_critical (place r i)" "r_holder r = Some i"
  shows "r_holder r' = None \<or> r_holder r' = Some i \<and> critical_left (place r' i) < critical_left (place r i)"
proof -
  have c: "continue cfg i io stale r = Moved r'" using assms(1) by (simp add: race_step_def)
  show ?thesis
  proof (cases "place r i")
    case (In_register a)
    with c assms(2,3) show ?thesis
      by (cases a) (auto simp: continue_def dest: closed_left given_free split: if_splits)
  next
    case (In_end a)
    with c assms(2,3) show ?thesis
      by (cases a) (auto simp: continue_def dest: closed_left given_free split: if_splits)
  next
    case (In_shutdown a)
    with c assms(2,3) show ?thesis
      by (cases "(i, a, r)" rule: shutdown_step.cases)
        (auto simp: continue_def Let_def dest: given_free split: if_splits)
  qed (use assms(2) in simp_all)
qed

lemma critical_moves:
  assumes "race_ok r" "r_holder r = Some i"
  obtains r' where "race_step cfg i (Go_on io stale) r = Moved r'"
proof (cases "race_step cfg i (Go_on io stale) r")
  case Blocked
  have "in_critical (place r i)" using assms by (simp add: race_ok_def mutex_ok_def)
  moreover from this have "place r i \<noteq> Rest" "place r i \<noteq> Gone" by auto
  ultimately show thesis using blocked_taking(2) [OF Blocked] by simp
qed (use race_ok_defined [OF assms(1)] that in auto)

abbreviation goes_on :: "nat \<Rightarrow> (open_input \<times> bool) list \<Rightarrow> (nat \<times> choice) list" where
  "goes_on i outcomes \<equiv> map (\<lambda>(io, stale). (i, Go_on io stale)) outcomes"

lemma critical_ends:
  assumes "race_ok r" "r_holder r = Some i" "critical_left (place r i) \<le> length outcomes"
  shows "\<exists>n \<le> length outcomes. \<exists>r'. race_run cfg (goes_on i (take n outcomes)) r = Moved r' \<and> r_holder r' = None"
  using assms
proof (induction outcomes arbitrary: r)
  case Nil
  then have "in_critical (place r i)" "critical_left (place r i) = 0" by (simp_all add: race_ok_def mutex_ok_def)
  then show ?case by (cases "place r i") (auto split: register_at.splits end_at.splits shutdown_at.splits)
next
  case (Cons out outcomes)
  obtain io stale where out: "out = (io, stale)" by fastforce
  obtain r1 where r1: "race_step cfg i (Go_on io stale) r = Moved r1"
    using critical_moves [OF Cons.prems(1,2)] .
  have c: "in_critical (place r i)" using Cons.prems by (simp add: race_ok_def mutex_ok_def)
  show ?case
  proof (cases "r_holder r1")
    case None
    with r1 out show ?thesis by (intro exI [of _ 1]) auto
  next
    case (Some k)
    with critical_closer [OF r1 c Cons.prems(2)] Cons.prems(3)
    have "r_holder r1 = Some i" "critical_left (place r1 i) \<le> length outcomes" by auto
    from Cons.IH [OF race_ok_step [OF r1 Cons.prems(1)] this] obtain n r' where
      "n \<le> length outcomes" "race_run cfg (goes_on i (take n outcomes)) r1 = Moved r'" "r_holder r' = None"
      by blast
    with r1 out show ?thesis by (intro exI [of _ "Suc n"]) auto
  qed
qed

section \<open>The properties\<close>

text \<open>A run for the witnesses: thread 0 opens its file and writes a line, while thread 1 runs \<open>exit()\<close>.\<close>

definition racing_config :: config where
  "racing_config = \<lparr>log_elapsed = True, log_exceptions = False, log_addr = False\<rparr>"

definition racing_open :: open_input where
  "racing_open = \<lparr>io_gettid = 1, io_path_throws = False, io_open = True, io_fdopen = True, io_reopen = True,
     io_header_throws = False, io_header = Wrote_line, io_seekable = True, io_push_throws = False, io_render = (\<lambda>_. []), io_clock = 0\<rparr>"

abbreviation on :: "nat \<Rightarrow> nat \<times> choice" where
  "on i \<equiv> (i, Go_on racing_open False)"

definition racing_acts :: "(nat \<times> choice) list" where
  "racing_acts = [(0, Begin_tracing), (0, Call_hook)] @ replicate 8 (on 0) @ [(1, Shut_down), on 1, on 1]"

definition raced :: "(nat \<times> choice) list \<Rightarrow> race" where
  "raced acts = (case race_run racing_config acts initial_race of Moved r \<Rightarrow> r | _ \<Rightarrow> initial_race)"

lemma raced_racing: "racing racing_config (raced acts)"
  by (auto simp: raced_def intro: racing.initial racing_run split: moved.split)

definition racing_state :: race where
  "racing_state = raced racing_acts"

lemma racing_state_value:
  "place racing_state 0 = In_get Load_fp" "place racing_state 1 = In_shutdown (Flush [0])"
  "r_holder racing_state = Some 1" "r_files racing_state = [0]" "r_complete racing_state = False"
  by code_simp+

text \<open>
  C10. Nothing is used after its end, wherever the threads are inside the hooks, the opening of their files,
  their ends and the shutdown, and whatever their unlocked reads see: no step closes, flushes, writes or
  patches through a handle that is not open, nor touches the state of a thread that has ended; the registry
  points to no file of such a thread; and at most one thread is in a critical section.
\<close>

theorem race_never_undefined:
  assumes "racing cfg r"
  shows "race_step cfg i ch r \<noteq> Undefined \<and> (j \<in> set (r_files r) \<longrightarrow> slot_alive (r_slots r j)) \<and>
    (in_critical (place r j) \<and> in_critical (place r k) \<longrightarrow> j = k)"
proof -
  have ok: "race_ok r" by (rule racing_ok [OF assms])
  then have "slot_alive (r_slots r j)" if "j \<in> set (r_files r)"
    using that by (cases "emptied r") (auto simp: race_ok_def registry_sound_def slot_ok_def)
  with race_ok_defined [OF ok] ok mutex_exclusive [of r k j] show ?thesis by (auto simp: race_ok_def)
qed

theorem race_never_undefined_witness:
  "race_step racing_config 1 (Go_on racing_open False) racing_state \<noteq> Undefined \<and>
     0 \<in> set (r_files racing_state) \<and> slot_alive (r_slots racing_state 0) \<and> in_critical (place racing_state 1)"
  using race_never_undefined [OF raced_racing [of racing_acts], folded racing_state_def,
      of 1 "Go_on racing_open False" 0] racing_state_value
  by simp

text \<open>
  C11. The operations are atomic to the other threads: in every state that threads can reach by interleaving their
  single accesses, a step is, for what the others can see, nothing at all, one assignment to the thread's own
  state, or one whole operation of theory TraceFiles: the registration with its check of the flag, the
  closing of the thread's file, or the shutdown.
\<close>

theorem races_refine_atomic:
  assumes "racing cfg r" "race_step cfg i ch r = Moved r'"
  shows "atomically i (seen r) (seen r')"
  using atomic_step [OF assms(2) racing_ok [OF assms(1)]] .

definition racing_clear :: race where
  "racing_clear = raced (racing_acts @ [on 1, on 1])"

theorem races_refine_atomic_witness:
  "place racing_clear 1 = In_shutdown Clear \<and>
     (\<exists>r'. race_step racing_config 1 (Go_on racing_open False) racing_clear = Moved r' \<and>
       atomically 1 (seen racing_clear) (seen r') \<and>
       fst (seen r') = (fst (seen racing_clear))\<lparr>open_files := [], shutdown_started := True, shutdown_complete := True\<rparr>)"
proof -
  have p: "place racing_clear 1 = In_shutdown Clear" by code_simp
  then have step: "race_step racing_config 1 (Go_on racing_open False) racing_clear =
      Moved (goto 1 (In_shutdown Store) (racing_clear\<lparr>r_files := []\<rparr>))" (is "_ = Moved ?r'")
    by (simp add: race_step_def continue_def)
  have "emptied ?r'" by (auto simp: emptied_def)
  with races_refine_atomic [OF raced_racing [of "racing_acts @ [on 1, on 1]", folded racing_clear_def] step] p step
  show ?thesis by (auto simp: seen_def seen_globals_def)
qed

text \<open>
  C12. What the shutdown leaves to happen: once it is complete, and as soon as the flag's value has reached a
  thread, the thread writes at most the one line whose hook had passed the check before, whatever the threads still
  do; and at every moment from then on the registry is empty and every file that was registered and is not
  closed yet has been flushed.
\<close>

theorem lines_after_shutdown:
  assumes "racing cfg r" "r_complete r" "list_all (\<lambda>(i, ch). reads_now ch) acts" "race_run cfg acts r = Moved r'"
  shows "slot_lines (r_slots r' j) \<le> slot_lines (r_slots r j) + 1 \<and> r_files r' = [] \<and>
    (slot_registered (r_slots r' j) \<longrightarrow> slot_flushed (r_slots r' j))"
proof -
  have "slot_lines (r_slots r' j) \<le> lines_bound r' j" "lines_bound r j \<le> slot_lines (r_slots r j) + 1"
    by (cases "place r j"; simp add: lines_bound_def)+
  moreover have "emptied r'" using complete_run [OF assms(4,2)] by (simp add: emptied_def)
  ultimately show ?thesis
    using lines_bound_run [OF assms(4,2,3), of j] racing_ok [OF racing_run [OF assms(1,4)]]
    by (auto simp: race_ok_def registry_sound_def flushing_sound_def)
qed

definition racing_done :: race where
  "racing_done = raced (racing_acts @ replicate 4 (on 1))"

definition racing_late :: race where
  "racing_late = (case race_run racing_config [on 1, on 0, on 0] racing_done of Moved r \<Rightarrow> r | _ \<Rightarrow> initial_race)"

theorem lines_after_shutdown_witness:
  "slot_lines (r_slots racing_done 0) = 0 \<and> slot_lines (r_slots racing_late 0) = 1 \<and>
     slot_lines (r_slots racing_late 0) \<le> slot_lines (r_slots racing_done 0) + 1 \<and> r_files racing_late = [] \<and>
     slot_registered (r_slots racing_late 0) \<and> slot_flushed (r_slots racing_late 0)"
proof -
  have "r_complete racing_done" "list_all (\<lambda>(i, ch). reads_now ch) [on 1, on 0, on 0]" by code_simp+
  moreover have "race_run racing_config [on 1, on 0, on 0] racing_done = Moved racing_late"
  proof -
    have "case race_run racing_config [on 1, on 0, on 0] racing_done of Moved r \<Rightarrow> True | _ \<Rightarrow> False" by code_simp
    then show ?thesis by (simp add: racing_late_def del: race_run.simps split: moved.splits)
  qed
  ultimately have "slot_lines (r_slots racing_late 0) \<le> slot_lines (r_slots racing_done 0) + 1 \<and> r_files racing_late = [] \<and>
     (slot_registered (r_slots racing_late 0) \<longrightarrow> slot_flushed (r_slots racing_late 0))"
    using lines_after_shutdown [OF raced_racing [of "racing_acts @ replicate 4 (on 1)", folded racing_done_def]] by blast
  moreover have "slot_lines (r_slots racing_done 0) = 0 \<and> slot_lines (r_slots racing_late 0) = 1 \<and>
      slot_registered (r_slots racing_late 0)" by code_simp
  ultimately show ?thesis by simp
qed

text \<open>
  C13. No thread waits forever for the others: a thread that cannot go on is waiting for the mutex, which another
  thread holds, and that thread can always go on and gives the mutex back within as many accesses as its
  critical section has left, one for each file still to flush and at most four more, whatever the outside
  answers it.
\<close>

theorem waits_end:
  assumes "racing cfg r" "race_step cfg i (Go_on io stale) r = Blocked" "place r i \<noteq> Rest" "place r i \<noteq> Gone"
  shows "\<exists>k. k \<noteq> i \<and> r_holder r = Some k \<and>
    (\<forall>outcomes. length outcomes = critical_left (place r k) \<longrightarrow>
       (\<exists>n \<le> length outcomes. \<exists>r'. race_run cfg (goes_on k (take n outcomes)) r = Moved r' \<and> r_holder r' = None))"
proof -
  have ok: "race_ok r" by (rule racing_ok [OF assms(1)])
  obtain k where k: "r_holder r = Some k" using blocked_taking(1) [OF assms(2-4)] by auto
  with blocked_taking(2) [OF assms(2-4)] ok have "k \<noteq> i" by (auto simp: race_ok_def mutex_ok_def)
  with k critical_ends [OF ok k] show ?thesis by (metis order_refl)
qed

definition racing_waiting :: race where
  "racing_waiting = raced (racing_acts @ [on 0, on 0, on 0, (0, End_thread), on 0])"

theorem waits_end_witness:
  "place racing_waiting 0 = In_end Take_end \<and> critical_left (place racing_waiting 1) = 5 \<and>
     r_holder racing_waiting = Some 1 \<and>
     (\<exists>n. n \<le> 5 \<and> (\<exists>r'. race_run racing_config
        (goes_on 1 (take n (replicate 5 (racing_open, False)))) racing_waiting = Moved r' \<and> r_holder r' = None))"
proof -
  have p: "place racing_waiting 0 = In_end Take_end" "critical_left (place racing_waiting 1) = 5"
    "r_holder racing_waiting = Some 1"
    by code_simp+
  then have "race_step racing_config 0 (Go_on racing_open False) racing_waiting = Blocked"
    by (simp add: race_step_def continue_def take_mutex_def)
  from waits_end [OF raced_racing [of "racing_acts @ [on 0, on 0, on 0, (0, End_thread), on 0]", folded racing_waiting_def] this] p
  have "\<forall>outcomes. length outcomes = 5 \<longrightarrow> (\<exists>n \<le> length outcomes. \<exists>r'.
      race_run racing_config (goes_on 1 (take n outcomes)) racing_waiting = Moved r' \<and> r_holder r' = None)"
    by simp
  from this [rule_format, of "replicate 5 (racing_open, False)"] p show ?thesis by simp
qed

text \<open>
  C14. The tracer is no place to be cancelled at, and hides no cancellation: wherever a thread is in a hook or in
  the destructor of its file, its cancellation is disabled, so that a pending request cannot unwind it; and
  whatever it or another thread does, short of the program's own change of the state, the state the program had set
  is in force whenever the thread is back in the program, or at rest after its end.
\<close>

theorem cancellation_deferred:
  assumes "racing cfg r" "race_step cfg i ch r = Moved r'" "\<forall>b. ch \<noteq> Set_cancel b"
  shows "(in_tracer (place r j) \<longrightarrow> \<not> slot_cancel (r_slots r j)) \<and>
    wanted (r_slots r' j) = wanted (r_slots r j) \<and>
    (place r' j = Rest \<or> place r' j = Gone \<longrightarrow> slot_cancel (r_slots r' j) = wanted (r_slots r j))"
proof -
  have "place_ok (r_slots r j)" using racing_ok [OF assms(1)] by (simp add: race_ok_def slot_ok_def)
  with wanted_step [OF assms(2,3), of j] show ?thesis by (auto simp: place_ok_def wanted_def)
qed

definition racing_leave :: race where
  "racing_leave = raced [(0, Begin_tracing), (0, Set_cancel False), (1, Call_hook), (0, Call_hook)]"

theorem cancellation_deferred_witness:
  "place racing_leave 1 = In_get Load_ready \<and> slot_saved (r_slots racing_leave 1) \<and>
     \<not> slot_cancel (r_slots racing_leave 1) \<and> \<not> wanted (r_slots racing_leave 0) \<and>
     (\<exists>r'. race_step racing_config 0 (Go_on racing_open True) racing_leave = Moved r' \<and> place r' 0 = In_leave \<and>
       \<not> wanted (r_slots r' 0))"
proof -
  have p: "place racing_leave 0 = In_get Load_ready" "place racing_leave 1 = In_get Load_ready"
    "slot_saved (r_slots racing_leave 1)" "\<not> wanted (r_slots racing_leave 0)" by code_simp+
  then have step: "race_step racing_config 0 (Go_on racing_open True) racing_leave =
      Moved (goto 0 In_leave racing_leave)"
    by (simp add: race_step_def continue_def)
  note facts = cancellation_deferred [OF raced_racing [of "[(0, Begin_tracing), (0, Set_cancel False), (1, Call_hook),
      (0, Call_hook)]", folded racing_leave_def] step]
  from facts [of 1] facts [of 0] p step show ?thesis by simp
qed

end
