(* ===== verification/SharedCaches.thy ===== *)
theory SharedCaches
  imports ProcessProperties ResolverCaches
begin

text \<open>
  The resolver's memory over a whole process: the shared caches of \<open>src/callStack.cpp\<close>, the thread-local
  front caches before them, which hold pointers into the shared maps, and every thread's cache of
  level rules. Every step of the process, of whichever thread, only adds to the shared caches and
  leaves every thread's front caches pointing at what the shared maps hold. So what one thread has
  resolved is the answer all threads get from then on.
\<close>

section \<open>Steps that leave a thread's memory alone\<close>

definition memory_kept :: "thread_state \<Rightarrow> thread_state \<Rightarrow> bool" where
  "memory_kept t t' \<longleftrightarrow> thread_fronts t' = thread_fronts t \<and> thread_levels t' = thread_levels t"

named_theorems kept

lemma memory_kept_refl [simp, intro]: "memory_kept t t"
  by (simp add: memory_kept_def)

lemma memory_kept_trans: "memory_kept t t' \<Longrightarrow> memory_kept t' t'' \<Longrightarrow> memory_kept t t''"
  by (simp add: memory_kept_def)

lemma kept_updates [simp]:
  "memory_kept s (t\<lparr>in_instrumentation := b\<rparr>) \<longleftrightarrow> memory_kept s t"
  "memory_kept s (t\<lparr>frame_overflow_count := n\<rparr>) \<longleftrightarrow> memory_kept s t"
  "memory_kept s (t\<lparr>open_attempted := b\<rparr>) \<longleftrightarrow> memory_kept s t"
  "memory_kept s (t\<lparr>trace_fp := b\<rparr>) \<longleftrightarrow> memory_kept s t"
  "memory_kept s (t\<lparr>patch_fd := b\<rparr>) \<longleftrightarrow> memory_kept s t"
  "memory_kept s (t\<lparr>registered := b\<rparr>) \<longleftrightarrow> memory_kept s t"
  "memory_kept s (t\<lparr>thread_time := tc\<rparr>) \<longleftrightarrow> memory_kept s t"
  "memory_kept (s\<lparr>in_instrumentation := b\<rparr>) t \<longleftrightarrow> memory_kept s t"
  by (simp_all add: memory_kept_def)

lemma kept_pops: "pops cfg t t' \<Longrightarrow> memory_kept t t'"
  by (auto simp: pops_def popped_to_def memory_kept_def)

lemma kept_file [kept]:
  "memory_kept t (snd (current_tid gettid t))"
  "memory_kept t (seed_cursor cfg io t)"
  "memory_kept t (snd (write_run_separator_header io tid t))"
  "memory_kept t (snd (snd (register_file io g t)))"
  by (simp_all add: memory_kept_def current_tid_def seed_cursor_def write_run_separator_header_def
      register_file_def Let_def case_prod_beta)

lemma kept_open [kept]: "memory_kept t (snd (snd (open_this_thread_file cfg io g t)))"
  by (auto simp: memory_kept_def open_this_thread_file_def current_tid_def seed_cursor_def
      write_run_separator_header_def register_file_def Let_def case_prod_beta)

lemma kept_fp [kept]: "memory_kept t (snd (snd (snd (get_thread_fp cfg io g t))))"
  using kept_open [of t cfg io g] by (auto simp: get_thread_fp_def Let_def case_prod_beta)

lemma kept_lines [kept]:
  "memory_kept t (write_line cfg r l t)"
  "memory_kept t (log_call cfg inp v t)"
  "memory_kept t (push_record cfg inp key b base start t)"
  "memory_kept t (snd (make_room inp t))"
  "memory_kept t (resolve_thread_stack_bounds stack t)"
  by (auto simp: memory_kept_def write_line_def log_call_def push_record_def make_room_def
      resolve_thread_stack_bounds_def Let_def case_prod_beta split: write_result.split option.split)

lemma kept_patch [simp]:
  "memory_kept s (patch_line_bytes start off bytes t) \<longleftrightarrow> memory_kept s t"
  "memory_kept s (mark_frame_end cfg r how field t) \<longleftrightarrow> memory_kept s t"
  by (simp_all add: memory_kept_def mark_frame_end_def patch_line_bytes_def Let_def split: option.split)

lemma kept_finish:
  "memory_kept t (finish_line cfg inp r (t\<lparr>frames := fs, current_stack_depth := d\<rparr>))"
  "memory_kept t (t\<lparr>frames := fs\<rparr>)"
  by (simp_all add: finish_line_def Let_def) (simp_all add: memory_kept_def)

lemma kept_event_line:
  assumes "write_event_line cfg inp v label suf cw tname w site g t = (threw, g', t')"
  shows "memory_kept t t'"
proof -
  obtain ot fp g1 t1 where f: "get_thread_fp cfg (ei_open inp) g t = (ot, fp, g1, t1)"
    by (metis prod_cases4)
  have k: "memory_kept t t1" using kept_fp [of t cfg "ei_open inp" g] f by simp
  have "memory_kept t (write_line cfg r l (t1\<lparr>thread_time := tc\<rparr>))" for r l tc
    using memory_kept_trans [OF k, of "t1\<lparr>thread_time := tc\<rparr>"] kept_lines(1) memory_kept_trans
    by fastforce
  with assms f k show ?thesis
    by (auto simp: write_event_line_def Let_def split: if_splits prod.splits)
qed

section \<open>Lookups inside the operations\<close>

definition grows :: "resolver_input \<Rightarrow> bool" where
  "grows r \<longleftrightarrow> (\<forall>c. caches_grow c (in_interfere r c))"

lemma lookup_parts_grow:
  assumes "\<And>c. caches_grow c (interfere c)"
  shows "caches_grow c (fst (snd (resolve_location w interfere c a out)))"
    and "caches_grow c (fst (snd (resolve_inline_chain w interfere c a)))"
  using lookups_grow [OF fronts_ok_empty assms, where w = w and c = c and out = out and address = a] by (simp_all add: case_prod_beta)

lemma inline_chain_at_grows: "grows r \<Longrightarrow> caches_grow c (snd (inline_chain_at r a c))"
  using lookup_parts_grow(2) [of "in_interfere r"]
  by (simp add: inline_chain_at_def grows_def Let_def case_prod_beta)

lemma resolve_event_site_grows:
  "grows (ei_resolver inp) \<Longrightarrow> caches_grow c (snd (resolve_event_site inp a c))"
  using lookup_parts_grow(1) [of "in_interfere (ei_resolver inp)"]
  by (simp add: resolve_event_site_def grows_def Let_def case_prod_beta split: option.split)

text \<open>
  What every operation does to the memory, with its lookups in a world where other threads only add.
\<close>

definition remembers :: "caches \<Rightarrow> thread_state \<Rightarrow> caches \<Rightarrow> thread_state \<Rightarrow> bool" where
  "remembers c t c' t' \<longleftrightarrow>
     (fronts_ok c (thread_fronts t) \<longrightarrow> caches_grow c c' \<and> fronts_ok c' (thread_fronts t')) \<and>
     (level_cache_valid (level_cache (thread_levels t)) \<longrightarrow>
      level_cache_valid (level_cache (thread_levels t')))"

lemma remembers_kept: "memory_kept t t' \<Longrightarrow> caches_grow c c' \<Longrightarrow> remembers c t c' t'"
  by (auto simp: remembers_def memory_kept_def intro: fronts_ok_mono)

lemma remembers_trans: "remembers c t c' t' \<Longrightarrow> remembers c' t' c'' t'' \<Longrightarrow> remembers c t c'' t''"
  by (auto simp: remembers_def intro: caches_grow_trans)

lemma remembers_then_kept: "remembers c t c' t' \<Longrightarrow> memory_kept t' t'' \<Longrightarrow> remembers c t c' t''"
  by (simp add: remembers_def memory_kept_def)

lemma kept_then_remembers: "memory_kept t t' \<Longrightarrow> remembers c t' c'' t'' \<Longrightarrow> remembers c t c'' t''"
  by (simp add: remembers_def memory_kept_def)

lemma frame_level_cache_valid:
  "level_cache_valid (level_cache lm) \<Longrightarrow>
   level_cache_valid (level_cache (snd (frame_level env lm site frame)))"
  by (auto simp: frame_level_def Let_def levels.valid_store split: option.split)

lemma hook_level_remembers: "remembers c t c (snd (hook_level inp t))"
  by (auto simp: remembers_def hook_level_def Let_def case_prod_beta intro: frame_level_cache_valid)

lemma resolve_for_hook_remembers:
  assumes "grows (hi_resolver inp)" "resolve_for_hook inp c t = (view, c', t')"
  shows "remembers c t c' t'"
proof (cases "resolve_throws (hi_resolver inp)")
  case True
  with assms show ?thesis
    by (auto simp: resolve_for_hook_def grows_def Let_def intro!: remembers_kept)
next
  case False
  obtain v c2 f2 acts where r: "resolve (in_world (hi_resolver inp)) (in_interfere (hi_resolver inp)) c
      (thread_fronts t) (hi_callee inp) (hi_caller inp) empty_view = (v, c2, f2, acts)"
    by (metis prod_cases4)
  have g: "caches_grow d (in_interfere (hi_resolver inp) d)" for d using assms(1) by (simp add: grows_def)
  have e: "c' = c2" "t' = t\<lparr>thread_fronts := f2\<rparr>"
    using assms(2) r False by (auto simp: resolve_for_hook_def Let_def)
  have "caches_grow c c2 \<and> fronts_ok c2 f2" if "fronts_ok c (thread_fronts t)"
    using resolve_settles [OF that g r [unfolded resolve_def]] by simp
  then show ?thesis by (simp add: remembers_def e)
qed

section \<open>The hooks\<close>

lemma reclaim_on_enter_remembers:
  assumes "grows r"
  shows "case reclaim_dead_inlined_records_on_enter cfg r u key site place c t of
    (threw, c', t') \<Rightarrow> remembers c t c' t'"
  using inline_chain_at_grows [OF assms, of c site] kept_pops [OF reclaim_by_chain_pops]
  by (auto simp: reclaim_dead_inlined_records_on_enter_def intro!: remembers_kept
      split: prod.split outcome.split)

lemma reclaim_on_catch_remembers:
  assumes "grows r"
  shows "case reclaim_dead_inlined_records_on_catch cfg r u level site c t of
    (threw, c', t') \<Rightarrow> remembers c t c' t'"
  using inline_chain_at_grows [OF assms, of c site] kept_pops [OF reclaim_above_named_pops]
  by (auto simp: reclaim_dead_inlined_records_on_catch_def intro!: remembers_kept
      split: prod.split outcome.split)

lemma reconcile_enter_remembers:
  assumes "grows (hi_resolver inp)" "reconcile_enter cfg inp c t = (threw, key, c', t')"
  shows "remembers c t c' t'"
proof -
  let ?t1 = "resolve_thread_stack_bounds (hi_stack inp) t"
  obtain level t2 where l: "hook_level inp ?t1 = (level, t2)" by fastforce
  let ?key = "\<lparr>key_callee = hi_callee inp, key_caller = hi_caller inp, key_level = level\<rparr>"
  let ?t3 = "reclaim_dead_records cfg (uncaught_exceptions inp)
      (dead_records_on_enter (frames t2) ?key (thread_bounds t2)) at_enter t2"
  have "remembers c ?t1 c t2" using hook_level_remembers [of c ?t1 inp] l by simp
  then have "remembers c t c t2" by (rule kept_then_remembers [OF kept_lines(5)])
  moreover have "memory_kept t2 ?t3" by (rule kept_pops [OF reclaim_dead_records_pops [OF on_enter.dead_le]])
  ultimately have "remembers c t c ?t3" by (rule remembers_then_kept)
  moreover have "remembers c ?t3 c' t'"
    using reclaim_on_enter_remembers [OF assms(1), of c ?t3 cfg "uncaught_exceptions inp"
        ?key "hook_site inp - 1" at_enter] assms(2) l
    by (auto simp: reconcile_enter_def Let_def split: prod.splits)
  ultimately show ?thesis by (rule remembers_trans)
qed

lemma enter_with_slot_remembers:
  assumes "grows (hi_resolver inp)" "enter_with_slot cfg inp c g t = (c', g', t')"
  shows "remembers c t c' t'"
proof -
  obtain threw key c1 t1 where r: "reconcile_enter cfg inp c t = (threw, key, c1, t1)"
    by (metis prod_cases4)
  note r1 = reconcile_enter_remembers [OF assms(1) r]
  obtain ot fp g2 t2 where f: "get_thread_fp cfg (hi_open inp) g t1 = (ot, fp, g2, t2)"
    by (metis prod_cases4)
  have r2: "remembers c t c1 t2"
    using remembers_then_kept [OF r1] kept_fp [of t1 cfg "hi_open inp" g] f by simp
  obtain view c3 t3 where v: "resolve_for_hook inp c1 t2 = (view, c3, t3)" by (metis prod_cases3)
  have r3: "remembers c t c3 t3"
    by (rule remembers_trans [OF r2 resolve_for_hook_remembers [OF assms(1) v]])
  have push: "remembers c t d s \<Longrightarrow> remembers c t d (push_record cfg inp key b base start s)"
    for d s b base start by (rule remembers_then_kept [OF _ kept_lines(3)])
  have line: "remembers c t c3 (log_call cfg inp w
      (reclaim_dead_inlined_records_above_parent cfg (uncaught_exceptions inp) key base at_enter t3))" for w base
    by (rule remembers_then_kept [OF remembers_then_kept [OF r3 kept_pops [OF reclaim_above_parent_pops]]
          kept_lines(2)])
  show ?thesis
    using assms(2) r f v push [OF r1] push [OF r2] push [OF r3] push [OF line]
    by (auto simp: enter_with_slot_def Let_def split: if_splits option.splits)
qed

lemma enter_hook_remembers:
  assumes "grows (hi_resolver inp)" "enter_hook cfg inp c g t = (c', g', t')"
  shows "remembers c t c' t'"
proof (cases "in_instrumentation t \<or> frame_overflow_count t > 0")
  case True
  with assms(2) show ?thesis
    by (intro remembers_kept) (auto simp: enter_hook_def Let_def split: if_splits)
next
  case False
  obtain slot t1 where m: "make_room inp (t\<lparr>in_instrumentation := True\<rparr>) = (slot, t1)" by fastforce
  have k: "memory_kept t t1" using kept_lines(4) [of "t\<lparr>in_instrumentation := True\<rparr>" inp] m by simp
  obtain c2 g2 t2 where e: "enter_with_slot cfg inp c g t1 = (c2, g2, t2)" by (metis prod_cases3)
  have "remembers c t c2 (t2\<lparr>in_instrumentation := False\<rparr>)"
    by (rule remembers_then_kept [OF kept_then_remembers [OF k enter_with_slot_remembers [OF assms(1) e]]]) simp
  with False m e k assms(2) show ?thesis
    by (cases slot) (auto simp: enter_hook_def Let_def intro: remembers_kept)
qed

lemma exit_with_record_remembers:
  assumes "frames t \<noteq> []"
  shows "remembers c t c (exit_with_record cfg inp t)"
proof -
  obtain level t1 where l: "hook_level inp t = (level, t1)" by fastforce
  have fr: "frames t1 = frames t"
    using same_file_steps(4) [of t inp] l by (simp add: same_file_def)
  have h: "remembers c t c t1" using hook_level_remembers [of c t inp] l by simp
  let ?n = "length (frames t1) - 1 - exit_index inp level t1"
  let ?t2 = "reclaim_dead_records cfg (uncaught_exceptions inp) ?n at_exit t1"
  have p: "pops cfg t1 ?t2" by (rule reclaim_dead_records_pops) simp
  have "memory_kept ?t2 (pop_own_record cfg inp ?t2)"
    by (simp add: pop_own_record_def Let_def kept_finish)
  then have "remembers c t c (pop_own_record cfg inp ?t2)"
    by (rule remembers_then_kept [OF h memory_kept_trans [OF kept_pops [OF p]]])
  then show ?thesis by (simp add: exit_with_record_def l Let_def fr)
qed

lemma exit_hook_remembers: "remembers c t c (exit_hook cfg inp t)"
proof (cases "in_instrumentation t \<or> frame_overflow_count t > 0 \<or> frames t = []")
  case True
  then show ?thesis by (intro remembers_kept) (auto simp: exit_hook_def Let_def)
next
  case False
  let ?t = "t\<lparr>in_instrumentation := True\<rparr>"
  have e: "exit_hook cfg inp t = (exit_with_record cfg inp ?t)\<lparr>in_instrumentation := False\<rparr>"
    using False by (simp add: exit_hook_def Let_def)
  have "remembers c ?t c (exit_with_record cfg inp ?t)"
    using exit_with_record_remembers False by simp
  then have "remembers c t c (exit_with_record cfg inp ?t)"
    by (rule kept_then_remembers [rotated]) simp
  then show ?thesis unfolding e by (rule remembers_then_kept) simp
qed

section \<open>The runtime calls\<close>

lemma reclaim_unwound_kept: "memory_kept t (reclaim_unwound cfg inp level t)"
  unfolding reclaim_unwound_def by (rule kept_pops [OF reclaim_dead_records_pops [OF on_catch.dead_le]])

lemma catch_terminating_kept:
  assumes "catch_terminating cfg inp tname w site frame g t = (threw, g', t')"
  shows "memory_kept t t'"
  using kept_event_line [OF assms [unfolded catch_terminating_def Let_def]]
  by (rule memory_kept_trans [OF memory_kept_trans [OF kept_lines(5) reclaim_unwound_kept]])

lemma catch_handled_remembers:
  assumes "grows (ei_resolver inp)"
    and "catch_handled cfg inp tname w site frame at c g t = (c', g', t')"
  shows "remembers c t c' t'"
proof -
  let ?t1 = "resolve_thread_stack_bounds (ei_stack inp) t"
  let ?l = "event_level inp site frame ?t1"
  let ?t2 = "reclaim_unwound cfg inp ?l ?t1"
  obtain threw c1 t3 where r: "reclaim_dead_inlined_records_on_catch cfg (ei_resolver inp)
      (ei_uncaught inp) ?l (site - 1) c ?t2 = (threw, c1, t3)" by (metis prod_cases3)
  have "remembers c ?t2 c1 t3"
    using reclaim_on_catch_remembers [OF assms(1), of c ?t2 cfg "ei_uncaught inp" ?l "site - 1"] r by simp
  then have h: "remembers c t c1 t3"
    by (rule kept_then_remembers [OF memory_kept_trans [OF kept_lines(5) reclaim_unwound_kept]])
  show ?thesis
    using assms(2) r h remembers_then_kept [OF h kept_event_line]
    by (auto simp: catch_handled_def Let_def split: if_splits prod.splits)
qed

lemma throw_line_kept: "throw_line cfg inp kind tname w at g t = (threw, g', t') \<Longrightarrow> memory_kept t t'"
  by (cases kind) (auto simp: throw_line_def dest: kept_event_line)

text \<open>Each event looks its site up, and then keeps the memory or looks a chain up.\<close>

lemma on_throw_remembers:
  assumes "grows (ei_resolver inp)"
    and "on_throw cfg inp kind type w site (c, names, g) t = ((c', names', g'), t')"
  shows "remembers c t c' t'"
proof (rule remembers_kept)
  show "caches_grow c c'"
    using resolve_event_site_grows [OF assms(1), of c "Some site"] assms(2)
    by (auto simp: on_throw_def Let_def split: if_splits prod.splits option.splits)
  show "memory_kept t t'"
    using assms(2) throw_line_kept [of cfg inp kind _ w _ g "t\<lparr>in_instrumentation := True\<rparr>"]
    by (fastforce simp: on_throw_def Let_def split: if_splits prod.splits option.splits)
qed

lemma on_terminate_remembers:
  assumes "grows (ei_resolver inp)"
    and "on_terminate cfg inp reason type w site (c, names, g) t = ((c', names', g'), t')"
  shows "remembers c t c' t'"
proof (rule remembers_kept)
  show "caches_grow c c'"
    using resolve_event_site_grows [OF assms(1), of c site] assms(2)
    unfolding on_terminate_def Let_def by (auto split: if_splits prod.splits option.splits)
  show "memory_kept t t'"
    using assms(2) kept_event_line [where t = "t\<lparr>in_instrumentation := True\<rparr>" and g = g and cfg = cfg and inp = inp]
    unfolding on_terminate_def Let_def by (fastforce split: if_splits prod.splits option.splits)
qed

lemma on_catch_remembers:
  assumes "grows (ei_resolver inp)"
    and "on_catch cfg inp type w dep site frame (c, names, g) t = (b, (c', names', g'), t')"
  shows "remembers c t c' t'"
proof -
  let ?t = "t\<lparr>in_instrumentation := True\<rparr>"
  obtain at c1 where s: "resolve_event_site inp (Some (site - 1)) c = (at, c1)" by fastforce
  have g: "caches_grow c c1" using resolve_event_site_grows [OF assms(1), of c "Some (site - 1)"] s by simp
  have k: "remembers c t c1 (s\<lparr>in_instrumentation := b\<rparr>)" if "memory_kept ?t s" for s b
    using that g by (intro remembers_kept) simp_all
  have h: "remembers c t c2 (t2\<lparr>in_instrumentation := b\<rparr>)"
    if "catch_handled cfg inp tname w' site frame at' c1 g ?t = (c2, g2, t2)" for tname w' at' c2 g2 t2 b
  proof -
    have "remembers c t c1 ?t" using k [OF memory_kept_refl, of True] by simp
    from remembers_trans [OF this catch_handled_remembers [OF assms(1) that]]
    show ?thesis by (rule remembers_then_kept) simp
  qed
  show ?thesis
    using assms(2) s g k k [OF catch_terminating_kept] h
    unfolding on_catch_def Let_def
    by (auto intro: remembers_kept split: if_splits prod.splits option.splits)
qed

lemma runtime_step_remembers:
  assumes "runtime_step cfg call (ist, (c, names, g), t) = Some (ist', (c', names', g'), t')"
    and "grows (ei_resolver (ri_event (call_input call)))"
  shows "remembers c t c' t'"
  using assms
  by (cases call)
    (auto simp: cslg_cxa_throw_def cslg_cxa_rethrow_def cslg_rethrow_exception_def
      cslg_cxa_begin_catch_def cslg_terminate_def Let_def
      split: if_splits option.splits prod.splits
      intro: on_throw_remembers on_terminate_remembers on_catch_remembers remembers_kept)

section \<open>The public entry points\<close>

lemma resolve_stack_remembers:
  assumes "\<And>c. caches_grow c (interfere c)" "fronts_ok c f"
  shows "case resolve_stack w now interfere c f stack is of
    (rs, c', f') \<Rightarrow> caches_grow c c' \<and> fronts_ok c' f'"
  using assms(2)
proof (induction "is" arbitrary: c f)
  case (Cons i js)
  obtain r c1 f1 acts where r: "resolve_physical_frame w now interfere c f (stack ! i) (frame_caller stack i) =
      (r, c1, f1, acts)" by (metis prod_cases4)
  then obtain v where "resolve_no_unwind outermost_function w interfere c f
      (inside_call_instruction (stack ! i)) (frame_caller stack i) empty_view = (v, c1, f1, acts)"
    by (auto simp: resolve_physical_frame_def Let_def split: prod.splits)
  from resolve_settles [OF Cons.prems assms(1) this] have "caches_grow c c1" "fronts_ok c1 f1" by auto
  with Cons.IH [of c1 f1] r show ?case
    by (auto simp: Let_def intro: caches_grow_trans split: prod.splits)
qed simp

primrec api_resolver :: "api_call \<Rightarrow> resolver_input" where
  "api_resolver (Resolve_frame r now callee caller) = r"
| "api_resolver (Capture_stack r frames_before now chain) = r"

lemma api_step_remembers:
  assumes "grows (api_resolver call)" "api_step call c t = (c', t')"
  shows "remembers c t c' t'"
proof -
  let ?r = "api_resolver call"
  have g: "caches_grow d (in_interfere ?r d)" for d using assms(1) by (simp add: grows_def)
  have "thread_levels (snd (api_step call c t)) = thread_levels t"
    by (subst api_step_thread) simp
  then have levels: "thread_levels t' = thread_levels t" using assms(2) by simp
  have "caches_grow c c' \<and> fronts_ok c' (thread_fronts t')" if ok: "fronts_ok c (thread_fronts t)"
  proof (cases call)
    case (Resolve_frame r now callee caller)
    obtain v c2 f2 acts where l: "resolve (in_world r) (in_interfere r) c (thread_fronts t) callee caller
        empty_view = (v, c2, f2, acts)" by (metis prod_cases4)
    have "caches_grow c c2 \<and> fronts_ok c2 f2"
      using resolve_settles [OF ok g] l Resolve_frame by (simp add: resolve_def)
    with l ok g fronts_ok_mono [OF ok g] assms(2) Resolve_frame show ?thesis
      by (auto simp: api_resolve_def scope_defs Let_def split: if_splits)
  next
    case (Capture_stack r before now chain)
    have stack: "caches_grow c c2 \<and> fronts_ok c2 f2"
      if "resolve_stack (in_world r) now (in_interfere r) c (thread_fronts t) stack js = (rs, c2, f2)"
      for stack js rs c2 f2
      using resolve_stack_remembers [OF g ok, of "in_world r" now stack js] that Capture_stack by simp
    have thrown: "caches_grow c (in_interfere r c2) \<and> fronts_ok (in_interfere r c2) f2"
      if "resolve_stack (in_world r) now (in_interfere r) c (thread_fronts t) stack js = (rs, c2, f2)"
      for stack js rs c2 f2
      using stack [OF that] g [of c2] caches_grow_trans fronts_ok_mono Capture_stack by auto
    show ?thesis
    proof (cases "resolve_throws r")
      case True
      then show ?thesis
        using assms(2) Capture_stack
        by (auto dest: thrown simp: api_call_stack_def scope_defs Let_def split: prod.splits)
    next
      case False
      then show ?thesis
        using assms(2) Capture_stack stack ok
        by (auto simp: api_call_stack_def get_call_stack_def scope_defs Let_def
            split: prod.splits if_splits outcome.splits)
    qed
  qed
  with levels show ?thesis by (simp add: remembers_def)
qed

section \<open>The process\<close>

text \<open>During a step, other threads only add to the shared caches: what each of them does there is a lookup.\<close>

fun sharing_env :: "process_op \<Rightarrow> process \<Rightarrow> bool" where
  "sharing_env (Enter i inp) p \<longleftrightarrow> grows (hi_resolver inp)"
| "sharing_env (Runtime i call) p \<longleftrightarrow> grows (ei_resolver (ri_event (call_input call)))"
| "sharing_env (Api i call) p \<longleftrightarrow> grows (api_resolver call)"
| "sharing_env _ p \<longleftrightarrow> True"

lemma begin_kept: "trace_begin cfg bi g t = Some (g', t') \<Longrightarrow> memory_kept t t'"
  by (auto simp: trace_begin_def current_tid_def memory_kept_def Let_def case_prod_beta split: if_splits)

lemma end_kept:
  "trace_shutdown g t = (g', t') \<Longrightarrow> memory_kept t t'"
  "close_thread_file g t = (g', t') \<Longrightarrow> memory_kept t t'"
  by (auto simp: trace_shutdown_def close_thread_file_def memory_kept_def Let_def split: if_splits)

lemma step_remembers:
  assumes "process_step cfg op p = Some p'" "sharing_env op p"
  shows "remembers (p_caches p) (p_threads p (op_thread op)) (p_caches p') (p_threads p' (op_thread op))"
  using assms
  by (cases op)
    (auto simp: Let_def exit_hook_remembers split: option.splits prod.splits
      intro: enter_hook_remembers runtime_step_remembers api_step_remembers
        remembers_kept [OF begin_kept] remembers_kept [OF end_kept(1)] remembers_kept [OF end_kept(2)])

definition memory_sound :: "caches \<Rightarrow> thread_state \<Rightarrow> bool" where
  "memory_sound c t \<longleftrightarrow>
     fronts_ok c (thread_fronts t) \<and> level_cache_valid (level_cache (thread_levels t))"

lemma memory_sound_step:
  assumes "process_step cfg op p = Some p'" "sharing_env op p"
    and "\<And>i. memory_sound (p_caches p) (p_threads p i)"
  shows "memory_sound (p_caches p') (p_threads p' i)" "caches_grow (p_caches p) (p_caches p')"
proof -
  note r = step_remembers [OF assms(1,2)]
  show g: "caches_grow (p_caches p) (p_caches p')"
    using r assms(3) by (simp add: remembers_def memory_sound_def)
  show "memory_sound (p_caches p') (p_threads p' i)"
  proof (cases "i = op_thread op")
    case True
    with r assms(3) show ?thesis by (simp add: remembers_def memory_sound_def)
  next
    case False
    with other_threads_unchanged [OF assms(1)] assms(3) [of i] g show ?thesis
      by (auto simp: memory_sound_def intro: fronts_ok_mono)
  qed
qed

lemma memory_sound_initial: "memory_sound (p_caches (initial_process existing)) (p_threads (initial_process existing) i)"
  by (simp add: memory_sound_def initial_process_def fresh_thread_def fronts_ok_empty
      empty_level_memory_def levels.valid_empty)

lemma reachable_memory_sound:
  "reachable cfg sharing_env existing p \<Longrightarrow> memory_sound (p_caches p) (p_threads p i)"
  by (induction arbitrary: i rule: reachable.induct) (auto intro: memory_sound_initial memory_sound_step(1))

lemma run_grows:
  assumes "process_run cfg ops p = Some p'" "allowed_run cfg sharing_env ops p"
    and "\<And>i. memory_sound (p_caches p) (p_threads p i)"
  shows "caches_grow (p_caches p) (p_caches p') \<and> memory_sound (p_caches p') (p_threads p' j)"
  using assms
proof (induction ops arbitrary: p)
  case (Cons op ops)
  obtain p1 where s: "process_step cfg op p = Some p1" "process_run cfg ops p1 = Some p'"
    using Cons.prems(1) by (auto split: option.splits)
  have e: "sharing_env op p" "allowed_run cfg sharing_env ops p1" using Cons.prems(2) s(1) by auto
  note m = memory_sound_step [OF s(1) e(1) Cons.prems(3)]
  from Cons.IH [OF s(2) e(2) m(1)] m(2) show ?case by (blast intro: caches_grow_trans)
qed simp

section \<open>Properties\<close>

text \<open>
  C21. The memory of every thread is well-formed in every reachable process, however the threads
  interleave: its two front caches have their slots and hold only what the shared maps hold now, for
  whatever key they are asked, so no pointer in them dangles, and its cache of level rules has its
  slots, so every slot a hash picks exists.
\<close>

theorem memory_of_every_thread:
  assumes "reachable cfg sharing_env existing p"
  shows "fronts_ok (p_caches p) (thread_fronts (p_threads p i)) \<and>
    level_cache_valid (level_cache (thread_levels (p_threads p i)))"
  using reachable_memory_sound [OF assms] by (simp add: memory_sound_def)

text \<open>The sample run, in which nothing interferes, and a lookup after it.\<close>

lemma sample_grows: "grows (hi_resolver (sample_hook callee frame))"
  by (simp add: grows_def sample_hook_def)

lemma sample_shares: "allowed_run sample_config sharing_env sample_ops (initial_process (\<lambda>_. []))"
  using sample_begin_succeeds sample_grows
  by (auto simp: sample_ops_def initial_process_def initial_globals_def case_prod_beta Let_def
      split: option.split)

lemma sample_shared_reachable: "\<exists>p. reachable sample_config sharing_env (\<lambda>_. []) p"
  using sample_run reachable_run [OF reachable.initial sample_shares] by blast

theorem memory_of_every_thread_witness:
  "\<exists>p. reachable sample_config sharing_env (\<lambda>_. []) p \<and>
     fronts_ok (p_caches p) (thread_fronts (p_threads p 1)) \<and>
     level_cache_valid (level_cache (thread_levels (p_threads p 1)))"
  using sample_shared_reachable memory_of_every_thread [where i = 1] by blast

text \<open>
  C20. What the program is told about a frame stays true: once \<open>resolve\<close> has answered a thread, every later
  call for the same frame, by any thread, after any further steps of the process and whatever the
  loader and the files answer by then, gives the same frame (or again none), and adds nothing to the
  shared caches.
\<close>

theorem answers_permanent_in_process:
  assumes "reachable cfg sharing_env existing p" "grows r"
    and "api_resolve r now callee caller (p_caches p) (p_threads p i) = (Returned answer, c, t)"
    and "process_step cfg (Api i (Resolve_frame r now callee caller)) p = Some p1"
    and "allowed_run cfg sharing_env ops p1" "process_run cfg ops p1 = Some p2"
    and "\<not> resolve_throws r'" "log_addr_on (in_world r') = log_addr_on (in_world r)"
  shows "\<exists>t'. api_resolve r' now' callee caller (p_caches p2) (p_threads p2 j) =
    (Returned (map_option (\<lambda>f. f\<lparr>rf_timestamp := now'\<rparr>) answer), p_caches p2, t')"
proof -
  have m: "memory_sound (p_caches p) (p_threads p i)" for i by (rule reachable_memory_sound [OF assms(1)])
  have env: "sharing_env (Api i (Resolve_frame r now callee caller)) p" using assms(2) by simp
  have p1: "p_caches p1 = c" using assms(3,4) by auto
  have g: "caches_grow c (p_caches p2)" and ok: "fronts_ok (p_caches p2) (thread_fronts (p_threads p2 j))"
    using run_grows [OF assms(6,5) memory_sound_step(1) [OF assms(4) env m], of j]
    by (simp_all add: p1 memory_sound_def)
  obtain v f acts where l: "resolve (in_world r) (in_interfere r) (p_caches p)
      (thread_fronts (p_threads p i)) callee caller empty_view = (v, c, f, acts)"
    and v: "answer = map_option (own_frame now) v"
    using assms(3) by (auto simp: api_resolve_def scope_defs Let_def split: if_splits prod.splits)
  have grow: "caches_grow d (in_interfere r d)" for d using assms(2) by (simp add: grows_def)
  have "fronts_ok (p_caches p) (thread_fronts (p_threads p i))" using m by (simp add: memory_sound_def)
  from resolver_answers_permanent [OF this grow l g ok assms(8), of "in_interfere r'"]
  obtain f' acts' where "resolve (in_world r') (in_interfere r') (p_caches p2)
      (thread_fronts (p_threads p2 j)) callee caller empty_view = (v, p_caches p2, f', acts')"
    by blast
  moreover have "own_frame now' = (\<lambda>x. (own_frame now x)\<lparr>rf_timestamp := now'\<rparr>)"
    by (simp add: own_frame_def fun_eq_iff)
  ultimately show ?thesis
    using assms(7) by (simp add: api_resolve_def scope_defs Let_def v option.map_comp o_def)
qed

text \<open>Thread 0 resolves a frame, thread 1 enters a function, and asks for the frame in another world.\<close>

theorem answers_permanent_in_process_witness:
  "\<exists>p (p2 :: process) answer c t t'. reachable sample_config sharing_env (\<lambda>_. []) p \<and>
     api_resolve (hi_resolver (sample_hook 64 1000)) ''now'' 64 129 (p_caches p) (p_threads p 0) =
       (Returned answer, c, t) \<and>
     api_resolve ((hi_resolver (sample_hook 64 1000))\<lparr>in_world := sample_world\<rparr>) ''later'' 64 129
         (p_caches p2) (p_threads p2 1) =
       (Returned (map_option (\<lambda>f. f\<lparr>rf_timestamp := ''later''\<rparr>) answer), p_caches p2, t')"
proof -
  let ?r = "hi_resolver (sample_hook 64 1000)"
  obtain p where p: "reachable sample_config sharing_env (\<lambda>_. []) p" using sample_shared_reachable by blast
  have plain: "\<not> resolve_throws ?r" by (simp add: sample_hook_def)
  then obtain answer c t where a: "api_resolve ?r ''now'' 64 129 (p_caches p) (p_threads p 0) =
      (Returned answer, c, t)"
    by (cases "resolve (in_world ?r) (in_interfere ?r) (p_caches p) (thread_fronts (p_threads p 0)) 64 129
          empty_view") (auto simp: api_resolve_def scope_defs Let_def)
  obtain p1 where p1: "process_step sample_config (Api 0 (Resolve_frame ?r ''now'' 64 129)) p = Some p1"
    by (simp add: Let_def case_prod_beta)
  let ?ops = "[Enter 1 (sample_hook 80 900)]"
  obtain p2 where p2: "process_run sample_config ?ops p1 = Some p2"
    by (simp add: Let_def case_prod_beta)
  have allowed: "allowed_run sample_config sharing_env ?ops p1"
    using sample_grows by (simp add: case_prod_beta Let_def)
  have other: "\<not> resolve_throws (?r\<lparr>in_world := sample_world\<rparr>)"
    "log_addr_on (in_world (?r\<lparr>in_world := sample_world\<rparr>)) = log_addr_on (in_world ?r)"
    by (simp_all add: sample_hook_def named_world_def)
  from answers_permanent_in_process [OF p sample_grows a p1 allowed p2 other, of "''later''" 1] p a
  show ?thesis by blast
qed

end
