(* ===== verification/ExceptionTrees.thy ===== *)
theory ExceptionTrees
  imports EventEffects
begin

text \<open>
  Trees of calls with exceptions. Calls may also be left without their exit hook, by an exception
  that a frame below catches, and throws and catches write lines of their own. What such a tree
  appends to the trace is again the text of an abstract writer, and the bookkeeping after it is what
  it was before.
\<close>

section \<open>The line of an abandoned call\<close>

definition abandoned_line :: "config \<Rightarrow> resolved_frame_view \<Rightarrow> string \<Rightarrow> int \<Rightarrow> string" where
  "abandoned_line cfg v now depth =
     (let line = the (format_into FORMAT_BUF_SIZE (v\<lparr>timestamp := now\<rparr>) depth
                   (if log_elapsed cfg then set_duration_flag DURATION_UNWOUND FRAME_END_EXCEPTION @ '' ''
                    else []) True)
      in if 1 \<le> depth
         then line[tree_glyph_offset depth (LINE_PREFIX_EXTRA cfg) := FRAME_END_EXCEPTION] else line)"

lemma mark_with_field:
  "logged r \<Longrightarrow> 0 \<le> line_start r \<Longrightarrow>
   mark_frame_end cfg r how (Some field) t =
     mark_frame_end cfg r how None
       (if log_elapsed cfg
        then patch_line_bytes (line_start r) PLACEHOLDER_OFFSET_IN_LINE (take DURATION_FIELD_WIDTH field) t
        else t)"
  by (simp add: mark_frame_end_def Let_def)

lemma abandon_text:
  assumes r: "pending_record cfg i depth (length pre) r" "log_exceptions cfg" "patch_fd t"
    and bytes: "file_bytes t = pre @ call_line cfg v now depth @ post"
    and v: "loggable cfg v" "length now = PRETTY_TIME_LENGTH"
    and fits: "tree_glyph_offset depth (LINE_PREFIX_EXTRA cfg) + 3 < FORMAT_BUF_SIZE"
  shows "mark_frame_end cfg r FRAME_END_EXCEPTION (unwound_field cfg FRAME_END_EXCEPTION) t =
    t\<lparr>file_bytes := pre @ abandoned_line cfg v now depth @ post\<rparr>"
proof -
  let ?field = "set_duration_flag DURATION_UNWOUND FRAME_END_EXCEPTION"
  let ?splice = "if log_elapsed cfg then ?field @ '' '' else []"
  let ?line = "the (format_into FORMAT_BUF_SIZE (v\<lparr>timestamp := now\<rparr>) depth ?splice True)"
  let ?t = "t\<lparr>file_bytes := pre @ ?line @ post\<rparr>"
  have l: "logged r" "line_start r = int (length pre)" "line_depth r = depth"
    using r(1,2) by (simp_all add: pending_record_def line_patching_def)
  have lens: "length ?splice = length (DURATION_SPLICE cfg)"
    by (simp add: DURATION_SPLICE_def width_defs)
  have "mark_frame_end cfg r FRAME_END_EXCEPTION (unwound_field cfg FRAME_END_EXCEPTION) t =
      mark_frame_end cfg r FRAME_END_EXCEPTION None ?t"
  proof (cases "log_elapsed cfg")
    case True
    note p = duration_patch [OF v True fits length_unwound_field [of FRAME_END_EXCEPTION]]
    have "patch_line_bytes (int (length pre)) PLACEHOLDER_OFFSET_IN_LINE ?field t = ?t"
      using patch_in_line [OF r(3) bytes, of PLACEHOLDER_OFFSET_IN_LINE ?field] p True by simp
    then show ?thesis using True by (simp add: unwound_field_def mark_with_field l)
  next
    case False
    then have line: "?line = call_line cfg v now depth" by (simp add: call_line_def DURATION_SPLICE_def)
    have "?t = t\<lparr>file_bytes := file_bytes t\<rparr>" by (simp only: line bytes)
    then show ?thesis using False by (simp add: unwound_field_def)
  qed
  also have "\<dots> = ?t\<lparr>file_bytes := pre @
      (if 1 \<le> line_depth r
       then ?line[tree_glyph_offset (line_depth r) (LINE_PREFIX_EXTRA cfg) := FRAME_END_EXCEPTION]
       else ?line) @ post\<rparr>"
    by (rule mark_in_line [OF _ _ l(1,2)]) (simp_all add: l(3) r(3) glyph_inside [OF v _ fits lens])
  finally show ?thesis by (simp only: abandoned_line_def Let_def l(3)) (simp split: if_split)
qed

lemma length_abandoned_line:
  assumes "loggable cfg v" "length now = PRETTY_TIME_LENGTH"
    and "tree_glyph_offset depth (LINE_PREFIX_EXTRA cfg) + 3 < FORMAT_BUF_SIZE"
  shows "length (abandoned_line cfg v now depth) = length (call_line cfg v now depth)"
proof -
  let ?splice = "if log_elapsed cfg then set_duration_flag DURATION_UNWOUND FRAME_END_EXCEPTION @ '' '' else []"
  obtain rest where l: "\<And>sp. length sp = length (DURATION_SPLICE cfg) \<Longrightarrow>
       the (format_into FORMAT_BUF_SIZE (v\<lparr>timestamp := now\<rparr>) depth sp True) =
         (''['' @ now @ ''] '') @ sp @ address_text (callee_address v) @ glyph_text depth @ rest"
    using line_with_splice [OF assms] by metis
  have "length ?splice = length (DURATION_SPLICE cfg)" by (simp add: DURATION_SPLICE_def width_defs)
  from l [OF this] l [OF refl] this
  have "length (the (format_into FORMAT_BUF_SIZE (v\<lparr>timestamp := now\<rparr>) depth ?splice True)) =
    length (call_line cfg v now depth)"
    unfolding call_line_def by (simp only: length_append)
  then show ?thesis by (simp add: abandoned_line_def Let_def)
qed

section \<open>Abandoned calls in the file\<close>

text \<open>
  A segment is an abandoned call's part of the file: what precedes its line, the line of a call that
  resolved, and what its own calls wrote.
\<close>

record segment =
  seg_record :: frame_record
  seg_before :: string
  seg_line :: "(resolved_frame_view \<times> string \<times> int) option"
  seg_after :: string

definition open_segment :: "config \<Rightarrow> segment \<Rightarrow> string" where
  "open_segment cfg s = seg_before s @
     (case seg_line s of None \<Rightarrow> [] | Some (v, now, depth) \<Rightarrow> call_line cfg v now depth) @ seg_after s"

definition closed_segment :: "config \<Rightarrow> segment \<Rightarrow> string" where
  "closed_segment cfg s = seg_before s @
     (case seg_line s of None \<Rightarrow> [] | Some (v, now, depth) \<Rightarrow> abandoned_line cfg v now depth) @ seg_after s"

definition segment_ok :: "config \<Rightarrow> nat \<Rightarrow> segment \<Rightarrow> bool" where
  "segment_ok cfg start s \<longleftrightarrow>
     (case seg_line s of
        None \<Rightarrow> \<not> logged (seg_record s)
      | Some (v, now, depth) \<Rightarrow>
          loggable cfg v \<and> length now = PRETTY_TIME_LENGTH \<and>
          tree_glyph_offset depth (LINE_PREFIX_EXTRA cfg) + 3 < FORMAT_BUF_SIZE \<and>
          (\<exists>i. pending_record cfg i depth (start + length (seg_before s)) (seg_record s)))"

fun segments_ok :: "config \<Rightarrow> nat \<Rightarrow> segment list \<Rightarrow> bool" where
  "segments_ok cfg start [] = True"
| "segments_ok cfg start (s # ss) =
     (segment_ok cfg start s \<and> segments_ok cfg (start + length (open_segment cfg s)) ss)"

abbreviation open_text :: "config \<Rightarrow> segment list \<Rightarrow> string" where
  "open_text cfg ss \<equiv> concat (map (open_segment cfg) ss)"

abbreviation closed_text :: "config \<Rightarrow> segment list \<Rightarrow> string" where
  "closed_text cfg ss \<equiv> concat (map (closed_segment cfg) ss)"

lemma segments_ok_append:
  "segments_ok cfg start (ss @ ss') \<longleftrightarrow>
     segments_ok cfg start ss \<and> segments_ok cfg (start + length (open_text cfg ss)) ss'"
  by (induction ss arbitrary: start) (auto simp: add.assoc)

lemma length_closed_segment: "segment_ok cfg start s \<Longrightarrow> length (closed_segment cfg s) = length (open_segment cfg s)"
  by (auto simp: segment_ok_def open_segment_def closed_segment_def length_abandoned_line split: option.splits)

lemma length_closed_text:
  "segments_ok cfg start ss \<Longrightarrow> length (closed_text cfg ss) = length (open_text cfg ss)"
  by (induction ss arbitrary: start) (auto simp: length_closed_segment)

lemma reclaim_top_segment:
  assumes "log_exceptions cfg" "patch_fd t" "frames t = rs @ [seg_record s]"
    and "file_bytes t = pre @ open_segment cfg s @ post" "segment_ok cfg (length pre) s"
  shows "\<exists>d. reclaim_top cfg FRAME_END_EXCEPTION t =
    t\<lparr>frames := rs, current_stack_depth := d, file_bytes := pre @ closed_segment cfg s @ post\<rparr>"
proof (cases "seg_line s")
  case None
  then have "file_bytes t = pre @ closed_segment cfg s @ post" "\<not> logged (seg_record s)"
    using assms(4,5) by (simp_all add: open_segment_def closed_segment_def segment_ok_def)
  then have "reclaim_top cfg FRAME_END_EXCEPTION t = t\<lparr>frames := rs,
      current_stack_depth := current_stack_depth t, file_bytes := pre @ closed_segment cfg s @ post\<rparr>"
    using assms(3) by (simp add: reclaim_top_def Let_def)
  then show ?thesis by blast
next
  case (Some l)
  then obtain v now depth where l: "seg_line s = Some (v, now, depth)" by (metis prod_cases3)
  with assms(5) obtain i where o: "loggable cfg v" "length now = PRETTY_TIME_LENGTH"
    "tree_glyph_offset depth (LINE_PREFIX_EXTRA cfg) + 3 < FORMAT_BUF_SIZE"
    "pending_record cfg i depth (length (pre @ seg_before s)) (seg_record s)"
    by (auto simp: segment_ok_def)
  let ?t = "t\<lparr>frames := rs, current_stack_depth := current_stack_depth t - 1\<rparr>"
  have b: "file_bytes ?t = (pre @ seg_before s) @ call_line cfg v now depth @ (seg_after s @ post)"
    using assms(4) by (simp add: open_segment_def l)
  have fd: "patch_fd ?t" using assms(2) by simp
  have "logged (seg_record s)" using o(4) by (simp add: pending_record_def)
  then have "reclaim_top cfg FRAME_END_EXCEPTION t = t\<lparr>frames := rs,
      current_stack_depth := current_stack_depth t - 1, file_bytes := pre @ closed_segment cfg s @ post\<rparr>"
    using assms(1,3) abandon_text [OF o(4) assms(1) fd b o(1-3)]
    by (simp add: reclaim_top_def Let_def closed_segment_def l)
  then show ?thesis by blast
qed

lemma reclaim_segments:
  assumes "log_exceptions cfg"
  shows "\<lbrakk>patch_fd t; frames t = rs @ map seg_record ss; file_bytes t = pre @ open_text cfg ss @ post;
    segments_ok cfg (length pre) ss\<rbrakk> \<Longrightarrow>
    \<exists>d. reclaim_loop cfg FRAME_END_EXCEPTION (length ss) t =
      t\<lparr>frames := rs, current_stack_depth := d, file_bytes := pre @ closed_text cfg ss @ post\<rparr>"
proof (induction ss arbitrary: t post rule: rev_induct)
  case Nil
  then have "t = t\<lparr>frames := rs, current_stack_depth := current_stack_depth t,
      file_bytes := pre @ closed_text cfg [] @ post\<rparr>" by simp
  then show ?case by (metis list.size(3) reclaim_loop.simps(1))
next
  case (snoc s ss)
  have ok: "segments_ok cfg (length pre) ss" "segment_ok cfg (length (pre @ open_text cfg ss)) s"
    using snoc.prems(4) by (simp_all add: segments_ok_append)
  obtain d where d: "reclaim_top cfg FRAME_END_EXCEPTION t = t\<lparr>frames := rs @ map seg_record ss,
      current_stack_depth := d, file_bytes := (pre @ open_text cfg ss) @ closed_segment cfg s @ post\<rparr>"
    using reclaim_top_segment [OF assms snoc.prems(1) _ _ ok(2), of "rs @ map seg_record ss" post]
      snoc.prems(2,3) by auto
  have "\<exists>d'. reclaim_loop cfg FRAME_END_EXCEPTION (length ss) (reclaim_top cfg FRAME_END_EXCEPTION t) =
      (reclaim_top cfg FRAME_END_EXCEPTION t)\<lparr>frames := rs, current_stack_depth := d',
        file_bytes := pre @ closed_text cfg ss @ (closed_segment cfg s @ post)\<rparr>"
    by (rule snoc.IH [OF _ _ _ ok(1)]) (simp_all add: d snoc.prems(1))
  then show ?case by (auto simp: d)
qed

section \<open>Trees\<close>

text \<open>
  What a function does, in order: calls that return, throws, and catches. A catch comes after a chain
  of abandoned calls, each with what it did before the next one was called; a throw is the last
  thing the last one of them did.
\<close>

record throw_info =
  th_event :: event_input
  th_kind :: throw_kind
  th_type :: event_type
  th_what :: "string option"
  th_site :: addr

record catch_info =
  ca_event :: event_input
  ca_type :: event_type
  ca_what :: "string option"
  ca_dependent :: bool
  ca_site :: addr
  ca_frame :: addr

datatype item =
    Returns hook_input "item list" hook_input
  | Throws throw_info
  | Catches "(hook_input \<times> item list) list" catch_info

type_synonym traced = "caches \<times> type_names \<times> trace_globals \<times> thread_state"

definition traced_enter :: "config \<Rightarrow> hook_input \<Rightarrow> traced \<Rightarrow> traced" where
  "traced_enter cfg i s =
     (let (c, names, g, t) = s; (c, g, t) = enter_hook cfg i c g t in (c, names, g, t))"

definition traced_exit :: "config \<Rightarrow> hook_input \<Rightarrow> traced \<Rightarrow> traced" where
  "traced_exit cfg e s = (let (c, names, g, t) = s in (c, names, g, exit_hook cfg e t))"

definition traced_throw :: "config \<Rightarrow> throw_info \<Rightarrow> traced \<Rightarrow> traced" where
  "traced_throw cfg th s =
     (let (c, names, g, t) = s;
          ((c, names, g), t) = on_throw cfg (th_event th) (th_kind th) (th_type th) (th_what th)
                                 (th_site th) (c, names, g) t
      in (c, names, g, t))"

definition traced_catch :: "config \<Rightarrow> catch_info \<Rightarrow> traced \<Rightarrow> traced" where
  "traced_catch cfg ca s =
     (let (c, names, g, t) = s;
          (terminating, (c, names, g), t) = on_catch cfg (ca_event ca) (ca_type ca) (ca_what ca)
             (ca_dependent ca) (ca_site ca) (ca_frame ca) (c, names, g) t
      in (c, names, g, t))"

fun run_items :: "config \<Rightarrow> item list \<Rightarrow> traced \<Rightarrow> traced"
  and run_chain :: "config \<Rightarrow> (hook_input \<times> item list) list \<Rightarrow> traced \<Rightarrow> traced" where
  "run_items cfg [] s = s"
| "run_items cfg (Returns i inner e # rest) s =
     run_items cfg rest (traced_exit cfg e (run_items cfg inner (traced_enter cfg i s)))"
| "run_items cfg (Throws th # rest) s = run_items cfg rest (traced_throw cfg th s)"
| "run_items cfg (Catches chain ca # rest) s =
     run_items cfg rest (traced_catch cfg ca (run_chain cfg chain s))"
| "run_chain cfg [] s = s"
| "run_chain cfg ((i, inner) # chain) s =
     run_chain cfg chain (run_items cfg inner (traced_enter cfg i s))"

text \<open>
  Consistent levels: every call lies below its caller, abandoned calls lie below the catching frame,
  which is the function that goes on, or one without records that it called.
\<close>

definition catch_level :: "stack_bounds \<Rightarrow> catch_info \<Rightarrow> addr" where
  "catch_level B ca =
     measured_frame_level ((ei_levels (ca_event ca))\<lparr>env_bounds := B\<rparr>) (ca_site ca) (ca_frame ca)"

definition catch_ok :: "stack_bounds \<Rightarrow> addr \<Rightarrow> catch_info \<Rightarrow> bool" where
  "catch_ok B L ca \<longleftrightarrow> bounds_reported (ei_stack (ca_event ca)) = B \<and> catch_level B ca \<le> L \<and>
     on_thread_stack B (catch_level B ca)"

fun items_ok :: "(addr \<Rightarrow> level_rule) \<Rightarrow> stack_bounds \<Rightarrow> addr \<Rightarrow> item list \<Rightarrow> bool"
  and chain_ok :: "(addr \<Rightarrow> level_rule) \<Rightarrow> stack_bounds \<Rightarrow> addr \<Rightarrow> addr \<Rightarrow> (hook_input \<times> item list) list \<Rightarrow> bool"
  where
  "items_ok M B L [] = True"
| "items_ok M B L (Returns i inner e # rest) =
     (returns_normally M B L i e \<and> items_ok M B (input_level M i) inner \<and> items_ok M B L rest)"
| "items_ok M B L (Throws th # rest) = items_ok M B L rest"
| "items_ok M B L (Catches chain ca # rest) =
     (catch_ok B L ca \<and> chain_ok M B L (catch_level B ca) chain \<and> items_ok M B L rest)"
| "chain_ok M B L l [] = True"
| "chain_ok M B L l ((i, inner) # chain) =
     (enters M B L i \<and> input_level M i < l \<and> items_ok M B (input_level M i) inner \<and>
      chain_ok M B (input_level M i) l chain)"

text \<open>Nothing fails, and the tree fits the lines.\<close>

definition hook_undisturbed :: "config \<Rightarrow> int \<Rightarrow> hook_input \<Rightarrow> bool" where
  "hook_undisturbed cfg depth i \<longleftrightarrow>
     timed_hook cfg i \<and> opens_well (hi_open i) \<and> \<not> reserve_throws i \<and> hi_write i = Wrote_line \<and>
     tree_glyph_offset (depth + 1) (LINE_PREFIX_EXTRA cfg) + 3 < FORMAT_BUF_SIZE"

definition event_undisturbed :: "event_input \<Rightarrow> bool" where
  "event_undisturbed ev \<longleftrightarrow> event_succeeds ev \<and> opens_well (ei_open ev)"

fun items_undisturbed :: "config \<Rightarrow> int \<Rightarrow> item list \<Rightarrow> bool"
  and chain_undisturbed :: "config \<Rightarrow> int \<Rightarrow> (hook_input \<times> item list) list \<Rightarrow> bool" where
  "items_undisturbed cfg depth [] = True"
| "items_undisturbed cfg depth (Returns i inner e # rest) =
     (hook_undisturbed cfg depth i \<and> items_undisturbed cfg (depth + 1) inner \<and>
      items_undisturbed cfg depth rest)"
| "items_undisturbed cfg depth (Throws th # rest) =
     (event_undisturbed (th_event th) \<and> items_undisturbed cfg depth rest)"
| "items_undisturbed cfg depth (Catches chain ca # rest) =
     (chain_undisturbed cfg depth chain \<and> event_undisturbed (ca_event ca) \<and>
      items_undisturbed cfg depth rest)"
| "chain_undisturbed cfg depth [] = True"
| "chain_undisturbed cfg depth ((i, inner) # chain) =
     (hook_undisturbed cfg depth i \<and> items_undisturbed cfg (depth + 1) inner \<and>
      chain_undisturbed cfg (depth + 1) chain)"

lemma items_undisturbed_down:
  "items_undisturbed cfg d items \<Longrightarrow> d' \<le> d \<Longrightarrow> items_undisturbed cfg d' items"
  "chain_undisturbed cfg d chain \<Longrightarrow> d' \<le> d \<Longrightarrow> chain_undisturbed cfg d' chain"
proof (induction cfg d items and cfg d chain arbitrary: d' and d'
    rule: items_undisturbed_chain_undisturbed.induct)
  case (2 cfg d i inner e rest)
  then show ?case using glyph_offset_mono [of "d' + 1" "d + 1" "LINE_PREFIX_EXTRA cfg"]
    by (auto simp: hook_undisturbed_def)
next
  case (6 cfg d i inner chain)
  then show ?case using glyph_offset_mono [of "d' + 1" "d + 1" "LINE_PREFIX_EXTRA cfg"]
    by (auto simp: hook_undisturbed_def)
qed simp_all

section \<open>The expected text\<close>

text \<open>A call: what opening the file writes, the line that will stand for the call, its depth.\<close>

definition call_opening ::
    "hook_input \<Rightarrow> int \<Rightarrow> writer \<Rightarrow> string \<times> (resolved_frame_view \<times> string \<times> int) option \<times> int \<times> writer" where
  "call_opening i depth w =
     (let (header, w) = opening_text (hi_open i) w;
          (view, w) = answer_for i w
      in case view of
           None \<Rightarrow> (header, None, depth, w)
         | Some v \<Rightarrow>
             let (now, tc) = pretty_time_into (io_render (hi_open i)) (w_time w)
                               PRETTY_TIME_BUF_SIZE (hi_clock i)
             in (header, Some (v, now, depth + 1), depth + 1, w\<lparr>w_time := tc\<rparr>))"

definition event_entry ::
    "config \<Rightarrow> event_input \<Rightarrow> string \<times> string \<times> string \<times> string \<Rightarrow> event_type \<Rightarrow> string option
       \<Rightarrow> event_site \<Rightarrow> int \<Rightarrow> writer \<Rightarrow> type_names \<Rightarrow> string \<times> writer \<times> type_names" where
  "event_entry cfg ev words type what at depth w names =
     (let (v, label, suf, cw) = words;
          (tname, names) = exception_type_name (in_world (ei_resolver ev)) type names;
          (header, w) = opening_text (ei_open ev) w
      in (header @ event_line_text cfg ev v label suf cw tname what at (w_time w) depth,
          w\<lparr>w_time := time_after ev (w_time w)\<rparr>, names))"

definition looked_up :: "event_input \<Rightarrow> addr \<Rightarrow> writer \<Rightarrow> event_site \<times> writer" where
  "looked_up ev site w =
     (site_of ev (Some site) (w_caches w),
      w\<lparr>w_caches := snd (resolve_event_site ev (Some site) (w_caches w))\<rparr>)"

definition throw_entry :: "config \<Rightarrow> throw_info \<Rightarrow> int \<Rightarrow> writer \<Rightarrow> type_names \<Rightarrow> string \<times> writer \<times> type_names" where
  "throw_entry cfg th depth w names =
     (let (at, w) = looked_up (th_event th) (th_site th) w
      in event_entry cfg (th_event th) (throw_words (th_kind th)) (th_type th) (th_what th) at depth w names)"

text \<open>
  A catch, and whether it is one and not Clang's terminate stub. The inline chain is looked up when the
  catching frame, at level \<open>around\<close>, has a record.
\<close>

definition catch_entry ::
    "config \<Rightarrow> stack_bounds \<Rightarrow> addr option \<Rightarrow> catch_info \<Rightarrow> int \<Rightarrow> writer \<Rightarrow> type_names
       \<Rightarrow> string \<times> bool \<times> writer \<times> type_names" where
  "catch_entry cfg B around ca depth w names =
     (let ev = ca_event ca;
          (at, w) = looked_up ev (ca_site ca - 1) w;
          w = (if around = Some (catch_level B ca)
               then w\<lparr>w_caches := snd (inline_chain_at (ei_resolver ev) (ca_site ca - 1) (w_caches w))\<rparr>
               else w);
          (out, w, names) = event_entry cfg ev (''catch'', ''caught at'', [], DURATION_EVENT_CATCH) (ca_type ca)
             (catch_what ev (ca_what ca) (ca_dependent ca)) at depth w names
      in (out, caller_function_base (es_location at) \<noteq> Some CLANG_TERMINATE_STUB, w, names))"

definition line_text ::
    "(resolved_frame_view \<Rightarrow> string \<Rightarrow> int \<Rightarrow> string) \<Rightarrow> (resolved_frame_view \<times> string \<times> int) option \<Rightarrow> string" where
  "line_text f l = (case l of None \<Rightarrow> [] | Some (v, now, depth) \<Rightarrow> f v now depth)"

fun expected_items ::
    "config \<Rightarrow> (addr \<Rightarrow> level_rule) \<Rightarrow> stack_bounds \<Rightarrow> addr option \<Rightarrow> int \<Rightarrow> item list \<Rightarrow> writer \<times> type_names
       \<Rightarrow> string \<times> bool \<times> writer \<times> type_names"
  and expected_chain ::
    "config \<Rightarrow> (addr \<Rightarrow> level_rule) \<Rightarrow> stack_bounds \<Rightarrow> int \<Rightarrow> (hook_input \<times> item list) list \<Rightarrow> writer \<times> type_names
       \<Rightarrow> string \<times> bool \<times> writer \<times> type_names" where
  "expected_items cfg M B around depth [] (w, names) = ([], True, w, names)"
| "expected_items cfg M B around depth (Returns i inner e # rest) (w, names) =
     (let (header, line, inner_depth, w) = call_opening i depth w;
          (body, ok1, w, names) =
            expected_items cfg M B (Some (input_level M i)) inner_depth inner (w, names);
          (more, ok2, w, names) = expected_items cfg M B around depth rest (w, names)
      in (header @ line_text (finished_line cfg i e) line @ body @ more, ok1 \<and> ok2, w, names))"
| "expected_items cfg M B around depth (Throws th # rest) (w, names) =
     (let (out, w, names) = throw_entry cfg th (depth + 1) w names;
          (more, ok, w, names) = expected_items cfg M B around depth rest (w, names)
      in (out @ more, ok, w, names))"
| "expected_items cfg M B around depth (Catches chain ca # rest) (w, names) =
     (let (body, ok1, w, names) = expected_chain cfg M B depth chain (w, names);
          (out, ok2, w, names) = catch_entry cfg B around ca (depth + 1) w names;
          (more, ok3, w, names) = expected_items cfg M B around depth rest (w, names)
      in (body @ out @ more, ok1 \<and> ok2 \<and> ok3, w, names))"
| "expected_chain cfg M B depth [] (w, names) = ([], True, w, names)"
| "expected_chain cfg M B depth ((i, inner) # chain) (w, names) =
     (let (header, line, inner_depth, w) = call_opening i depth w;
          (body, ok1, w, names) =
            expected_items cfg M B (Some (input_level M i)) inner_depth inner (w, names);
          (more, ok2, w, names) = expected_chain cfg M B inner_depth chain (w, names)
      in (header @ line_text (abandoned_line cfg) line @ body @ more, ok1 \<and> ok2, w, names))"

section \<open>Steps and their text\<close>

lemma settled_keeps:
  assumes "settled M B L t" "keeps t t'" "tracer_ok t'" "\<not> in_instrumentation t'"
  shows "settled M B L t'"
  using assms by (auto intro!: settledI simp: settled_def calm_def keeps_def)

text \<open>The record of an entered call and its part of the file so far.\<close>

lemma enter_step:
  assumes s: "settled M B L t" "enters M B L i" and w: "writes cfg c g t w"
    and ok: "hook_undisturbed cfg (current_stack_depth t) i"
    and step: "enter_hook cfg i c g t = (c', g', t')"
    and texts: "call_opening i (current_stack_depth t) w = (header, line, d, w')"
  obtains r where "frames t' = frames t @ [r]" "settled M B (input_level M i) t'"
    "same_activation_site r (hook_key M i)" "rec_level r = input_level M i"
    "writes cfg c' g' t' w'" "w_open w'" "current_stack_depth t' = d" "d \<le> current_stack_depth t + 1"
    "file_bytes t' = file_bytes t @ header @ line_text (call_line cfg) line"
    "case line of None \<Rightarrow> \<not> logged r \<and> d = current_stack_depth t
      | Some (v, now, d') \<Rightarrow> d' = d \<and> d = current_stack_depth t + 1 \<and> loggable cfg v \<and>
          length now = PRETTY_TIME_LENGTH \<and> tree_glyph_offset d (LINE_PREFIX_EXTRA cfg) + 3 < FORMAT_BUF_SIZE \<and>
          pending_record cfg i d (length (file_bytes t @ header)) r"
proof -
  obtain h1 w1 where o: "opening_text (hi_open i) w = (h1, w1)" by fastforce
  obtain view w2 where a: "answer_for i w1 = (view, w2)" by fastforce
  have open2: "w_open w2" using opening_opens [OF o] answer_keeps_open [OF a] by simp
  have hk: "timed_hook cfg i" "opens_well (hi_open i)" "hi_write i = Wrote_line" "\<not> reserve_throws i"
    "tree_glyph_offset (current_stack_depth t + 1) (LINE_PREFIX_EXTRA cfg) + 3 < FORMAT_BUF_SIZE"
    using ok by (simp_all add: hook_undisturbed_def)
  note en = enter_hook_settled [OF s step]
  note ent = enter_text [OF s w hk(1-4) step o a]
  obtain r where r: "frames t' = frames t @ [r]" "same_activation_site r (hook_key M i)"
    "rec_level r = input_level M i" "frame_overflow_count t' = 0" "view = None \<Longrightarrow> \<not> logged r"
    "\<And>v. view = Some v \<Longrightarrow>
       pending_record cfg i (current_stack_depth t + 1) (length (file_bytes t @ h1)) r"
    using entered_record [OF ent en(2)] by blast
  show thesis
  proof (cases view)
    case None
    then have t: "header = h1" "line = None" "d = current_stack_depth t" "w' = w2"
      using texts by (simp_all add: call_opening_def o a)
    from ent None t r(5) open2 show thesis
      by (intro that [OF r(1) en(1) r(2,3)]) (simp_all add: entered_def line_text_def)
  next
    case (Some v)
    obtain now tc where now: "pretty_time_into (io_render (hi_open i)) (w_time w2)
        PRETTY_TIME_BUF_SIZE (hi_clock i) = (now, tc)" by fastforce
    have t: "header = h1" "line = Some (v, now, d)" "d = current_stack_depth t + 1" "w' = w2\<lparr>w_time := tc\<rparr>"
      using texts by (auto simp: call_opening_def o a Some now)
    from ent Some now t r(6) [OF Some] open2 hk(5) show thesis
      by (intro that [OF r(1) en(1) r(2,3)]) (simp_all add: entered_def line_text_def Let_def)
  qed
qed

lemma exit_step:
  assumes s: "settled M B (input_level M i) t" and start: "settled M B L t0"
    and inp: "returns_normally M B L i e"
    and r: "frames t = frames t0 @ [r]" "same_activation_site r (hook_key M i)" "rec_level r = input_level M i"
    and zero: "frame_overflow_count t0 = 0" and w: "writes cfg c g t w" "w_open w"
    and bytes: "file_bytes t = pre @ line_text (call_line cfg) line @ body"
    and line: "case line of None \<Rightarrow> \<not> logged r
      | Some (v, now, d) \<Rightarrow> loggable cfg v \<and> length now = PRETTY_TIME_LENGTH \<and>
          tree_glyph_offset d (LINE_PREFIX_EXTRA cfg) + 3 < FORMAT_BUF_SIZE \<and>
          pending_record cfg i d (length pre) r"
  shows "settled M B L (exit_hook cfg e t)" "frames (exit_hook cfg e t) = frames t0"
    "writes cfg c g (exit_hook cfg e t) w"
    "file_bytes (exit_hook cfg e t) = pre @ line_text (finished_line cfg i e) line @ body"
proof -
  have over: "frame_overflow_count t = 0" using w(1) by (simp add: writes_def)
  show "settled M B L (exit_hook cfg e t)" "frames (exit_hook cfg e t) = frames t0"
    using exit_hook_settled [OF s start inp, of cfg] r over zero by auto
  note finishes = exit_text [OF s start inp r over w]
  show "writes cfg c g (exit_hook cfg e t) w"
    "file_bytes (exit_hook cfg e t) = pre @ line_text (finished_line cfg i e) line @ body"
    using finishes bytes line by (auto simp: line_text_def split: option.splits)
qed

lemma event_written:
  assumes "writes cfg c g t w" "opens_well (ei_open ev)" "ei_write ev = Wrote_line"
    and "write_event_line cfg ev v label suf cw tname what at g t = (threw, g', t')"
    and "opening_text (ei_open ev) w = (header, w1)"
  shows "\<not> threw" "writes cfg c g' t' (w1\<lparr>w_time := time_after ev (w_time w1)\<rparr>)"
    "file_bytes t' = file_bytes t @ header @ event_line_text cfg ev v label suf cw tname what at (w_time w1)
       (current_stack_depth t + 1)"
    "keeps t t'"
proof -
  obtain ft fp g1 t1 where f: "get_thread_fp cfg (ei_open ev) g t = (ft, fp, g1, t1)"
    by (metis prod_cases4)
  note o = writes_open [OF assms(1,2) f assms(5)]
  have k: "keeps t t1" using keeps_get_thread_fp [of t cfg "ei_open ev" g] f by simp
  have tc: "time_shape (time_after ev (w_time w1))"
    using o assms(2) time_shape_step(1) [of "w_time w1" "io_render (ei_open ev)" "ei_clock ev"]
    by (simp add: time_after_def writes_def opens_well_def timed_io_def prod_eq_iff)
  let ?line = "event_line_text cfg ev v label suf cw tname what at (w_time w1) (current_stack_depth t + 1)"
  have "thread_time t1 = w_time w1" using o by (simp add: writes_def)
  then have r: "threw = False" "g' = g1"
    "t' = with_line cfg (time_after ev (w_time w1)) ?line t1"
    using assms(3,4) f o
    by (auto simp: write_event_line_def Let_def case_prod_beta with_line_def write_line_def
        event_line_text_def time_after_def)
  show "\<not> threw" "file_bytes t' = file_bytes t @ header @ ?line"
    using o by (simp_all add: r)
  show "keeps t t'" using k by (simp add: r keeps_def with_line_def)
  show "writes cfg c g' t' (w1\<lparr>w_time := time_after ev (w_time w1)\<rparr>)"
    using o tc by (auto simp: r writes_def with_line_def)
qed

text \<open>An entry is what an event writes from a state the writer describes.\<close>

lemma event_entry_written:
  assumes "writes cfg c g t w" "event_undisturbed ev"
    and "write_event_line cfg ev v label suf cw (fst (exception_type_name (in_world (ei_resolver ev)) type names))
           what at g t = (threw, g', t')"
    and "event_entry cfg ev (v, label, suf, cw) type what at (current_stack_depth t + 1) w names = (out, w', names')"
  shows "\<not> threw" "writes cfg c g' t' w'" "file_bytes t' = file_bytes t @ out" "keeps t t'" "w_open w'"
    "names' = snd (exception_type_name (in_world (ei_resolver ev)) type names)"
proof -
  obtain header w1 where o: "opening_text (ei_open ev) w = (header, w1)" by fastforce
  have ok: "opens_well (ei_open ev)" "ei_write ev = Wrote_line"
    using assms(2) by (simp_all add: event_undisturbed_def event_succeeds_def)
  note e = event_written [OF assms(1) ok assms(3) o]
  show "\<not> threw" "writes cfg c g' t' w'" "file_bytes t' = file_bytes t @ out" "keeps t t'" "w_open w'"
    "names' = snd (exception_type_name (in_world (ei_resolver ev)) type names)"
    using e assms(4) opening_opens [OF o]
    by (auto simp: event_entry_def o case_prod_beta Let_def)
qed

lemma writes_caches: "writes cfg c g t w \<Longrightarrow> writes cfg c' g t (w\<lparr>w_caches := c'\<rparr>)"
  by (simp add: writes_def)

lemma throw_step:
  assumes s: "settled M B L t" and w: "writes cfg c g t w" and ok: "event_undisturbed (th_event th)"
    and step: "traced_throw cfg th (c, names, g, t) = (c', names', g', t')"
    and entry: "throw_entry cfg th (current_stack_depth t + 1) w names = (out, w', names'')"
  shows "settled M B L t'" "frames t' = frames t" "writes cfg c' g' t' w'" "names'' = names'"
    "file_bytes t' = file_bytes t @ out" "w_open w'"
proof -
  let ?ev = "th_event th" and ?t = "t\<lparr>in_instrumentation := True\<rparr>"
  have calls: "\<not> resolve_throws (ei_resolver ?ev)" "\<not> type_name_throws ?ev"
    using ok by (simp_all add: event_undisturbed_def event_succeeds_def)
  obtain c1 where at: "resolve_event_site ?ev (Some (th_site th)) c = (Some (site_of ?ev (Some (th_site th)) c), c1)"
    using calls(1) by (auto intro: event_site_found)
  obtain tname names1 where n: "exception_type_name (in_world (ei_resolver ?ev)) (th_type th) names = (tname, names1)"
    by fastforce
  obtain v label suf cw where words: "throw_words (th_kind th) = (v, label, suf, cw)" by (metis prod_cases4)
  obtain threw g1 t1 where l: "write_event_line cfg ?ev v label suf cw tname (th_what th)
      (site_of ?ev (Some (th_site th)) c) g ?t = (threw, g1, t1)" by (metis prod_cases3)
  have guard: "\<not> in_instrumentation t" using s by (simp add: settled_def)
  have r: "c' = c1" "names' = names1" "g' = g1" "t' = t1\<lparr>in_instrumentation := False\<rparr>"
    using step guard calls l
    by (simp_all add: traced_throw_def on_throw_def at n throw_line_words [OF words])
  have c: "w_caches w = c" using w by (simp add: writes_def)
  have w1: "writes cfg c1 g ?t (w\<lparr>w_caches := c1\<rparr>)" using writes_caches [OF w, of c1] by simp
  have entry': "event_entry cfg ?ev (v, label, suf, cw) (th_type th) (th_what th)
      (site_of ?ev (Some (th_site th)) c) (current_stack_depth ?t + 1) (w\<lparr>w_caches := c1\<rparr>) names = (out, w', names'')"
    using entry by (simp add: throw_entry_def looked_up_def c at words)
  note e = event_entry_written [OF w1 ok l [unfolded n [THEN arg_cong, of fst, simplified, symmetric]] entry']
  show "writes cfg c' g' t' w'" "names'' = names'" "file_bytes t' = file_bytes t @ out" "w_open w'"
    using e by (simp_all add: r n)
  have k: "keeps t t'" using e(4) by (simp add: r keeps_def)
  then show "frames t' = frames t" by (simp add: keeps_def)
  have "advances cfg t t'"
    using on_throw_advances [of cfg t ?ev "th_kind th" "th_type th" "th_what th" "th_site th" "(c, names, g)"] step
    by (simp add: traced_throw_def case_prod_beta)
  then have "tracer_ok t'" using tracer_ok_advances [of t cfg t'] s by (simp add: settled_def calm_def)
  then show "settled M B L t'" using settled_keeps [OF s k] by (simp add: r)
qed

section \<open>A catch closes the abandoned calls\<close>

definition top_level :: "frame_record list \<Rightarrow> addr option" where
  "top_level rs = (if rs = [] then None else Some (rec_level (last rs)))"

lemma ordered_single_at: "strictly_ordered rs \<Longrightarrow> single_at l rs"
proof -
  assume "strictly_ordered rs"
  then have "length (filter (\<lambda>r. rec_level r = l) rs) \<le> 1"
  proof (induction rs rule: rev_induct)
    case (snoc r rs)
    then have "\<forall>x \<in> set rs. rec_level r < rec_level x"
      by (simp add: strictly_ordered_def sorted_wrt_append)
    then have "filter (\<lambda>x. rec_level x = l) rs = []" if "rec_level r = l"
      using that by (auto simp: filter_empty_conv)
    with snoc show ?case by (auto simp: strictly_ordered_def sorted_wrt_append)
  qed simp
  then show ?thesis by (simp add: single_at_def)
qed

lemma calm_event_bounds:
  assumes "calm M B L t" "bounds_reported (ei_stack ev) = B"
  shows "event_bounds ev t = B" "thread_bounds (resolve_thread_stack_bounds (ei_stack ev) t) = B"
proof -
  show "event_bounds ev t = B"
    using assms bounds_reported_same [of t "ei_stack ev"]
    by (cases "stack_bounds_resolved t") (auto simp: event_bounds_def calm_def resolve_thread_stack_bounds_def)
  then show "thread_bounds (resolve_thread_stack_bounds (ei_stack ev) t) = B" by (simp add: event_bounds_def)
qed

text \<open>The state a catch finds: the abandoned calls' records on top, in reach of the catching frame.\<close>

definition abandoned ::
    "config \<Rightarrow> stack_bounds \<Rightarrow> addr \<Rightarrow> thread_state \<Rightarrow> string \<Rightarrow> segment list \<Rightarrow> thread_state \<Rightarrow> bool" where
  "abandoned cfg B l t pre ss t1 \<longleftrightarrow>
     frames t1 = frames t @ map seg_record ss \<and> file_bytes t1 = pre @ open_text cfg ss \<and>
     segments_ok cfg (length pre) ss \<and>
     (\<forall>x \<in> set ss. rec_level (seg_record x) < l \<and> on_thread_stack B (rec_level (seg_record x)))"

lemma abandoned_reclaimed:
  assumes start: "settled M B L t" and s: "settled M B L1 t1" and ab: "abandoned cfg B (catch_level B ca) t pre ss t1"
    and ok: "catch_ok B L ca" and w: "writes cfg c g t1 w" "ss \<noteq> [] \<longrightarrow> w_open w" "log_exceptions cfg"
  defines "l \<equiv> catch_level B ca"
    and "t2 \<equiv> reclaim_unwound cfg (ca_event ca) (catch_level B ca)
      (resolve_thread_stack_bounds (ei_stack (ca_event ca)) (t1\<lparr>in_instrumentation := True\<rparr>))"
  shows "plain_stack (ca_event ca) (ca_site ca) (ca_frame ca) t1"
    "catcher_level (ca_event ca) (ca_site ca) (ca_frame ca) t1 = l"
    "frames t2 = frames t" "thread_bounds t2 = B" "file_bytes t2 = pre @ closed_text cfg ss"
    "writes cfg c g t2 w" "current_stack_depth t2 = current_stack_depth t"
    "thread_levels t2 = thread_levels t1" "stack_bounds_resolved t2"
proof -
  let ?ev = "ca_event ca" and ?u = "ei_uncaught (ca_event ca)"
  let ?t = "resolve_thread_stack_bounds (ei_stack ?ev) (t1\<lparr>in_instrumentation := True\<rparr>)"
  have calm: "calm M B L1 t1" "calm M B L1 (t1\<lparr>in_instrumentation := True\<rparr>)" "calm M B L t"
    using s start by (simp_all add: settled_def calm_def)
  have B: "bounds_reported (ei_stack ?ev) = B" "l \<le> L" "on_thread_stack B l"
    using ok by (simp_all add: catch_ok_def l_def)
  note b1 = calm_event_bounds [OF calm(1) B(1)] and b2 = calm_event_bounds [OF calm(2) B(1)]
  show lev: "catcher_level ?ev (ca_site ca) (ca_frame ca) t1 = l"
    by (simp add: catcher_level_def b1 catch_level_def l_def)
  have fr: "frames t1 = frames t @ map seg_record ss"
    and deep: "\<forall>x \<in> set ss. rec_level (seg_record x) < l \<and> on_thread_stack B (rec_level (seg_record x))"
    using ab by (simp_all add: abandoned_def l_def)
  have kept: "\<forall>r \<in> set (frames t). l \<le> rec_level r" using calm(3) B(2) by (fastforce simp: calm_def)
  then have parts: "filter (\<lambda>r. l \<le> rec_level r) (frames t1) = frames t"
    "unwound l (frames t1) = map seg_record ss"
    using deep by (auto simp: fr unwound_def filter_empty_conv filter_id_conv filter_map o_def not_le)
  show plain: "plain_stack ?ev (ca_site ca) (ca_frame ca) t1"
    unfolding plain_stack_def Let_def lev parts b1(1)
    using fr deep B(3) calm(1) by (auto simp: all_on_stack_def calm_def ordered_single_at)
  define n where "n = dead_records_on_catch (frames ?t) l (thread_bounds ?t)"
  have n: "n = length ss"
  proof -
    have split: "frames t1 = filter (\<lambda>r. l \<le> rec_level r) (frames t1) @ unwound l (frames t1)"
      unfolding parts by (rule fr)
    have on: "all_on_stack B (unwound l (frames t1))" using deep by (auto simp: parts all_on_stack_def)
    have "n = dead_records_on_catch (frames t1) l B" by (simp add: n_def b2(2))
    then have "drop (length (frames t1) - n) (frames t1) = map seg_record ss"
      using catch_count [OF split on B(3)] by (simp only: parts(2))
    then have "length (drop (length (frames t1) - n) (frames t1)) = length ss" by simp
    moreover have "n \<le> length (frames t1)" using on_catch.dead_le [of "frames t1" l B] by (simp add: n_def b2(2))
    ultimately show ?thesis by simp
  qed
  have t2: "t2 = reclaim_loop cfg (reclaim_mark ?u n at_catch) n ?t"
    by (simp add: t2_def reclaim_unwound_def reclaim_dead_records_def n_def l_def)
  have "\<exists>d. t2 = ?t\<lparr>frames := frames t, current_stack_depth := d, file_bytes := pre @ closed_text cfg ss\<rparr>"
  proof (cases "ss = []")
    case True
    then have e: "t2 = ?t" "frames ?t = frames t" "file_bytes ?t = pre @ closed_text cfg ss"
      using ab by (simp_all add: t2 n abandoned_def)
    have "?t = ?t\<lparr>frames := frames ?t, current_stack_depth := current_stack_depth ?t,
        file_bytes := file_bytes ?t\<rparr>" by simp
    with e show ?thesis by metis
  next
    case False
    then have m: "reclaim_mark ?u (length ss) at_catch = FRAME_END_EXCEPTION" by (simp add: reclaim_mark_def)
    have "patch_fd ?t" using w False by (simp add: writes_def line_patching_def resolve_thread_stack_bounds_def Let_def split: option.split)
    moreover have "frames ?t = frames t @ map seg_record ss" "file_bytes ?t = pre @ open_text cfg ss @ []"
      "segments_ok cfg (length pre) ss" using ab by (simp_all add: abandoned_def)
    ultimately show ?thesis
      using reclaim_segments [OF w(3), of ?t "frames t" ss pre "[]"] by (simp add: t2 m n)
  qed
  then obtain d where d: "t2 = ?t\<lparr>frames := frames t, current_stack_depth := d,
      file_bytes := pre @ closed_text cfg ss\<rparr>" by blast
  show "frames t2 = frames t" "thread_bounds t2 = B" "file_bytes t2 = pre @ closed_text cfg ss"
    "thread_levels t2 = thread_levels t1" "stack_bounds_resolved t2"
    using b2(2) by (simp_all add: d)
  have "tracer_ok ?t" using tracer_ok_advances [OF _ bounds_advances] calm(2) by (simp add: calm_def)
  then have "tracer_ok t2"
    using tracer_ok_advances [OF _ reclaim_unwound_advances] by (simp add: t2_def)
  then show "current_stack_depth t2 = current_stack_depth t"
    using calm(3) d by (simp add: tracer_ok_def calm_def)
  have len: "length (closed_text cfg ss) = length (open_text cfg ss)"
    using ab length_closed_text [of cfg "length pre" ss] by (simp add: abandoned_def)
  have "writes cfg c g ?t w" using w(1) by simp
  then show "writes cfg c g t2 w"
    using ab len by (simp add: d writes_def abandoned_def)
qed

lemma catch_step:
  assumes start: "settled M B L t" and s: "settled M B L1 t1" and ab: "abandoned cfg B (catch_level B ca) t pre ss t1"
    and ok: "catch_ok B L ca" and w: "writes cfg c g t1 w" "ss \<noteq> [] \<longrightarrow> w_open w" "log_exceptions cfg"
    and ev: "event_undisturbed (ca_event ca)"
    and step: "traced_catch cfg ca (c, names, g, t1) = (c', names', g', t')"
    and entry: "catch_entry cfg B (top_level (frames t)) ca (current_stack_depth t + 1) w names =
      (out, True, w', names'')"
  shows "settled M B L t'" "frames t' = frames t" "writes cfg c' g' t' w'" "names'' = names'"
    "file_bytes t' = pre @ closed_text cfg ss @ out" "w_open w'"
proof -
  let ?ev = "ca_event ca" and ?site = "ca_site ca - 1"
  define t2 where "t2 = reclaim_unwound cfg ?ev (catch_level B ca)
      (resolve_thread_stack_bounds (ei_stack ?ev) (t1\<lparr>in_instrumentation := True\<rparr>))"
  note r = abandoned_reclaimed [OF start s ab ok w, folded t2_def]
  have calls: "\<not> resolve_throws (ei_resolver ?ev)" "\<not> type_name_throws ?ev" "\<not> chain_throws (ei_resolver ?ev)"
    using ev by (simp_all add: event_undisturbed_def event_succeeds_def)
  have c: "w_caches w = c" using w(1) by (simp add: writes_def)
  have rep: "reported_catch ?ev (ca_site ca) c"
    using calls entry by (auto simp: reported_catch_def catch_entry_def looked_up_def c Let_def split: prod.splits)
  have guard: "\<not> in_instrumentation t1" using s by (simp add: settled_def)
  define c1 where "c1 = snd (resolve_event_site ?ev (Some ?site) c)"
  obtain threw g1 t3 where o: "on_catch cfg ?ev (ca_type ca) (ca_what ca) (ca_dependent ca) (ca_site ca)
      (ca_frame ca) (c, names, g) t1 = (False, (chain_caches ?ev (catch_level B ca) ?site t2 c1,
        snd (exception_type_name (in_world (ei_resolver ?ev)) (ca_type ca) names), g1),
        t3\<lparr>in_instrumentation := False\<rparr>)"
    "write_event_line cfg ?ev ''catch'' ''caught at'' [] DURATION_EVENT_CATCH
        (fst (exception_type_name (in_world (ei_resolver ?ev)) (ca_type ca) names))
        (catch_what ?ev (ca_what ca) (ca_dependent ca)) (site_of ?ev (Some ?site) c) g t2 = (threw, g1, t3)"
    using on_catch_plain [OF guard rep r(1), of cfg "ca_type ca" "ca_what ca" "ca_dependent ca" names g] calls(3)
    unfolding r(2) t2_def [symmetric] c1_def [symmetric] by metis
  define w1 where "w1 = (if top_level (frames t) = Some (catch_level B ca)
    then w\<lparr>w_caches := snd (inline_chain_at (ei_resolver ?ev) ?site c1)\<rparr> else w\<lparr>w_caches := c1\<rparr>)"
  have cc: "chain_caches ?ev (catch_level B ca) ?site t2 c1 = w_caches w1"
    using ok by (auto simp: chain_caches_def w1_def top_level_def r catch_ok_def)
  have w1: "writes cfg (w_caches w1) g t2 w1"
    using writes_caches [OF r(6)] by (simp add: w1_def)
  have en: "event_entry cfg ?ev (''catch'', ''caught at'', [], DURATION_EVENT_CATCH) (ca_type ca)
      (catch_what ?ev (ca_what ca) (ca_dependent ca)) (site_of ?ev (Some ?site) c) (current_stack_depth t2 + 1) w1
      names = (out, w', names'')"
    using entry by (auto simp: catch_entry_def looked_up_def c c1_def [symmetric] w1_def r(7) Let_def split: prod.splits)
  note e = event_entry_written [OF w1 ev o(2) en]
  have x: "c' = w_caches w1" "names' = snd (exception_type_name (in_world (ei_resolver ?ev)) (ca_type ca) names)"
    "g' = g1" "t' = t3\<lparr>in_instrumentation := False\<rparr>"
    using step o(1) by (simp_all add: traced_catch_def cc)
  show "writes cfg c' g' t' w'" "names'' = names'" "w_open w'"
    using e by (simp_all add: x)
  show "file_bytes t' = pre @ closed_text cfg ss @ out" using e(3) by (simp add: x r(5))
  show fr: "frames t' = frames t" using e(4) by (simp add: x keeps_def r(3))
  have "advances cfg t1 t'"
    using on_catch_advances [of cfg t1 ?ev "ca_type ca" "ca_what ca" "ca_dependent ca" "ca_site ca" "ca_frame ca"
        "(c, names, g)"] step
    by (simp add: traced_catch_def case_prod_beta)
  then have "tracer_ok t'" using tracer_ok_advances [of t1 cfg t'] s by (simp add: settled_def calm_def)
  then show "settled M B L t'"
    using e(4) r start s fr by (auto intro!: settledI simp: x keeps_def settled_def calm_def)
qed

section \<open>Whole trees\<close>

lemma settled_depth:
  "settled M B L t \<Longrightarrow> settled M B L' t' \<Longrightarrow> frames t' = frames t \<Longrightarrow>
   current_stack_depth t' = current_stack_depth t"
  by (simp add: settled_def calm_def tracer_ok_def)

lemma call_opening_depth: "call_opening i depth w = (header, line, d, w') \<Longrightarrow> d \<le> depth + 1"
  by (auto simp: call_opening_def Let_def split: prod.splits option.splits)

text \<open>What a run leaves: the text after the state's bytes, and the writer that goes with it.\<close>

definition left_by ::
    "config \<Rightarrow> (addr \<Rightarrow> level_rule) \<Rightarrow> stack_bounds \<Rightarrow> addr \<Rightarrow> thread_state \<Rightarrow> string \<Rightarrow> writer \<Rightarrow> type_names
       \<Rightarrow> traced \<Rightarrow> bool" where
  "left_by cfg M B L t out w names s \<longleftrightarrow>
     (case s of (c, names', g, t') \<Rightarrow>
        settled M B L t' \<and> frames t' = frames t \<and> file_bytes t' = file_bytes t @ out \<and>
        writes cfg c g t' w \<and> names' = names)"

definition chain_left_by ::
    "config \<Rightarrow> (addr \<Rightarrow> level_rule) \<Rightarrow> stack_bounds \<Rightarrow> addr \<Rightarrow> thread_state \<Rightarrow> string \<Rightarrow> writer \<Rightarrow> type_names
       \<Rightarrow> traced \<Rightarrow> bool" where
  "chain_left_by cfg M B l t out w names s \<longleftrightarrow>
     (case s of (c, names', g, t') \<Rightarrow>
        (\<exists>L ss. settled M B L t' \<and> abandoned cfg B l t (file_bytes t) ss t' \<and> out = closed_text cfg ss \<and>
           (ss \<noteq> [] \<longrightarrow> w_open w)) \<and>
        writes cfg c g t' w \<and> names' = names)"

text \<open>A list of items, or a chain of calls that an exception leaves, has the text expected of it.\<close>

definition items_tell ::
    "config \<Rightarrow> (addr \<Rightarrow> level_rule) \<Rightarrow> stack_bounds \<Rightarrow> addr \<Rightarrow> item list \<Rightarrow> bool" where
  "items_tell cfg M B L items \<longleftrightarrow> (\<forall>t c g w names out w' names'.
     settled M B L t \<longrightarrow> writes cfg c g t w \<longrightarrow> items_undisturbed cfg (current_stack_depth t) items \<longrightarrow>
     expected_items cfg M B (top_level (frames t)) (current_stack_depth t) items (w, names) =
       (out, True, w', names') \<longrightarrow>
     left_by cfg M B L t out w' names' (run_items cfg items (c, names, g, t)) \<and> (w_open w \<longrightarrow> w_open w'))"

definition chain_tells ::
    "config \<Rightarrow> (addr \<Rightarrow> level_rule) \<Rightarrow> stack_bounds \<Rightarrow> addr \<Rightarrow> addr \<Rightarrow> (hook_input \<times> item list) list \<Rightarrow> bool" where
  "chain_tells cfg M B L l chain \<longleftrightarrow> (\<forall>t c g w names out w' names'.
     settled M B L t \<longrightarrow> writes cfg c g t w \<longrightarrow> chain_undisturbed cfg (current_stack_depth t) chain \<longrightarrow>
     expected_chain cfg M B (current_stack_depth t) chain (w, names) = (out, True, w', names') \<longrightarrow>
     chain_left_by cfg M B l t out w' names' (run_chain cfg chain (c, names, g, t)) \<and> (w_open w \<longrightarrow> w_open w'))"

lemmas items_tellI = items_tell_def [THEN iffD2, rule_format]
lemmas items_tellD = items_tell_def [THEN iffD1, rule_format]
lemmas chain_tellsI = chain_tells_def [THEN iffD2, rule_format]
lemmas chain_tellsD = chain_tells_def [THEN iffD1, rule_format]

lemma returns_tell:
  assumes inp: "returns_normally M B L i e"
    and inner: "items_tell cfg M B (input_level M i) inner" and rest: "items_tell cfg M B L rest"
  shows "items_tell cfg M B L (Returns i inner e # rest)"
proof (rule items_tellI)
  fix t c g w names out w' names'
  assume prems: "settled M B L t" "writes cfg c g t w" "items_undisturbed cfg (current_stack_depth t) (Returns i inner e # rest)"
    "expected_items cfg M B (top_level (frames t)) (current_stack_depth t) (Returns i inner e # rest) (w, names) =
       (out, True, w', names')"
  let ?d = "current_stack_depth t"
  have enters: "enters M B L i" by (rule returns_enters [OF inp])
  have un: "hook_undisturbed cfg ?d i" "items_undisturbed cfg (?d + 1) inner" "items_undisturbed cfg ?d rest"
    using prems(3) by simp_all
  obtain c1 g1 t1 where enter: "enter_hook cfg i c g t = (c1, g1, t1)" by (metis prod_cases3)
  obtain header line di w1 where o: "call_opening i ?d w = (header, line, di, w1)" by (metis prod_cases4)
  obtain body ok1 w2 n2 where b: "expected_items cfg M B (Some (input_level M i)) di inner (w1, names) =
      (body, ok1, w2, n2)" by (metis prod_cases4)
  obtain more ok2 where m: "expected_items cfg M B (top_level (frames t)) ?d rest (w2, n2) = (more, ok2, w', names')"
    and out: "ok1" "ok2" "out = header @ line_text (finished_line cfg i e) line @ body @ more"
    using prems(4) by (auto simp: o b split: prod.splits)
  obtain r where r: "frames t1 = frames t @ [r]" "settled M B (input_level M i) t1"
    "same_activation_site r (hook_key M i)" "rec_level r = input_level M i"
    "writes cfg c1 g1 t1 w1" "w_open w1" "current_stack_depth t1 = di" "di \<le> ?d + 1"
    "file_bytes t1 = file_bytes t @ header @ line_text (call_line cfg) line"
    "case line of None \<Rightarrow> \<not> logged r \<and> di = ?d
      | Some (v, now, d') \<Rightarrow> d' = di \<and> di = ?d + 1 \<and> loggable cfg v \<and>
          length now = PRETTY_TIME_LENGTH \<and> tree_glyph_offset di (LINE_PREFIX_EXTRA cfg) + 3 < FORMAT_BUF_SIZE \<and>
          pending_record cfg i di (length (file_bytes t @ header)) r"
    by (rule enter_step [OF prems(1) enters prems(2) un(1) enter o])
  have "items_undisturbed cfg (current_stack_depth t1) inner"
    using items_undisturbed_down(1) [OF un(2)] r(7,8) by simp
  moreover have "expected_items cfg M B (top_level (frames t1)) (current_stack_depth t1) inner (w1, names) =
      (body, True, w2, n2)" using b out(1) r(1,4,7) by (simp add: top_level_def)
  ultimately have left: "left_by cfg M B (input_level M i) t1 body w2 n2 (run_items cfg inner (c1, names, g1, t1))"
    and "w_open w2" using items_tellD [OF inner r(2,5)] r(6) by blast+
  then obtain c2 g2 t2 where run: "run_items cfg inner (c1, names, g1, t1) = (c2, n2, g2, t2)"
    and t2: "settled M B (input_level M i) t2" "frames t2 = frames t @ [r]" "writes cfg c2 g2 t2 w2"
      "file_bytes t2 = (file_bytes t @ header) @ line_text (call_line cfg) line @ body"
    using r(1,9) by (auto simp: left_by_def split: prod.splits)
  have zero: "frame_overflow_count t = 0" using prems(2) by (simp add: writes_def)
  have line: "case line of None \<Rightarrow> \<not> logged r
      | Some (v, now, d) \<Rightarrow> loggable cfg v \<and> length now = PRETTY_TIME_LENGTH \<and>
          tree_glyph_offset d (LINE_PREFIX_EXTRA cfg) + 3 < FORMAT_BUF_SIZE \<and>
          pending_record cfg i d (length (file_bytes t @ header)) r"
    using r(10) by (auto split: option.splits)
  let ?t3 = "exit_hook cfg e t2"
  note x = exit_step [OF t2(1) prems(1) inp t2(2) r(3,4) zero t2(3) \<open>w_open w2\<close> t2(4) line]
  have d: "current_stack_depth ?t3 = ?d" by (rule settled_depth [OF prems(1) x(1,2)])
  have "expected_items cfg M B (top_level (frames ?t3)) (current_stack_depth ?t3) rest (w2, n2) =
      (more, True, w', names')" using m out(2) by (simp add: x(2) d)
  from items_tellD [OF rest x(1,3) _ this] un(3) d x(2,4) \<open>w_open w2\<close> out(3)
  show "left_by cfg M B L t out w' names' (run_items cfg (Returns i inner e # rest) (c, names, g, t)) \<and> (w_open w \<longrightarrow> w_open w')"
    by (auto simp: left_by_def traced_enter_def traced_exit_def enter run)
qed

lemma throws_tell:
  assumes rest: "items_tell cfg M B L rest"
  shows "items_tell cfg M B L (Throws th # rest)"
proof (rule items_tellI)
  fix t c g w names out w' names'
  assume prems: "settled M B L t" "writes cfg c g t w" "items_undisturbed cfg (current_stack_depth t) (Throws th # rest)"
    "expected_items cfg M B (top_level (frames t)) (current_stack_depth t) (Throws th # rest) (w, names) =
       (out, True, w', names')"
  let ?d = "current_stack_depth t"
  have ok: "event_undisturbed (th_event th)" "items_undisturbed cfg ?d rest" using prems(3) by simp_all
  obtain out1 w1 n1 where e: "throw_entry cfg th (?d + 1) w names = (out1, w1, n1)" by (metis prod_cases3)
  obtain c1 names1 g1 t1 where s: "traced_throw cfg th (c, names, g, t) = (c1, names1, g1, t1)"
    by (metis prod_cases4)
  note x = throw_step [OF prems(1,2) ok(1) s e]
  have d: "current_stack_depth t1 = ?d" by (rule settled_depth [OF prems(1) x(1,2)])
  obtain out2 where r: "expected_items cfg M B (top_level (frames t1)) (current_stack_depth t1) rest (w1, n1) =
      (out2, True, w', names')" "out = out1 @ out2"
    using prems(4) by (auto simp: e d x(2) split: prod.splits)
  have "items_undisturbed cfg (current_stack_depth t1) rest" using ok(2) d by simp
  from items_tellD [OF rest x(1,3) this r(1)] x s r(2)
  show "left_by cfg M B L t out w' names' (run_items cfg (Throws th # rest) (c, names, g, t)) \<and> (w_open w \<longrightarrow> w_open w')" by (auto simp: left_by_def)
qed

lemma catches_tell:
  assumes exceptions: "log_exceptions cfg" and ok: "catch_ok B L ca"
    and chain: "chain_tells cfg M B L (catch_level B ca) chain" and rest: "items_tell cfg M B L rest"
  shows "items_tell cfg M B L (Catches chain ca # rest)"
proof (rule items_tellI)
  fix t c g w names out w' names'
  assume prems: "settled M B L t" "writes cfg c g t w" "items_undisturbed cfg (current_stack_depth t) (Catches chain ca # rest)"
    "expected_items cfg M B (top_level (frames t)) (current_stack_depth t) (Catches chain ca # rest) (w, names) =
       (out, True, w', names')"
  let ?d = "current_stack_depth t"
  have un: "chain_undisturbed cfg ?d chain" "event_undisturbed (ca_event ca)" "items_undisturbed cfg ?d rest"
    using prems(3) by simp_all
  obtain body ok1 w1 n1 where b: "expected_chain cfg M B ?d chain (w, names) = (body, ok1, w1, n1)"
    by (metis prod_cases4)
  obtain out1 ok2 w2 n2 where e: "catch_entry cfg B (top_level (frames t)) ca (?d + 1) w1 n1 = (out1, ok2, w2, n2)"
    by (metis prod_cases4)
  obtain more where m: "expected_items cfg M B (top_level (frames t)) ?d rest (w2, n2) = (more, True, w', names')"
    and out: "ok1" "ok2" "out = body @ out1 @ more"
    using prems(4) by (auto simp: b e split: prod.splits)
  have "chain_left_by cfg M B (catch_level B ca) t body w1 n1 (run_chain cfg chain (c, names, g, t))"
    using chain_tellsD [OF chain prems(1,2) un(1)] b out(1) by simp
  then obtain c1 g1 t1 L1 ss where run: "run_chain cfg chain (c, names, g, t) = (c1, n1, g1, t1)"
    and t1: "settled M B L1 t1" "abandoned cfg B (catch_level B ca) t (file_bytes t) ss t1"
      "body = closed_text cfg ss" "ss \<noteq> [] \<longrightarrow> w_open w1" "writes cfg c1 g1 t1 w1"
    by (auto simp: chain_left_by_def split: prod.splits)
  obtain c2 n2' g2 t2 where s: "traced_catch cfg ca (c1, n1, g1, t1) = (c2, n2', g2, t2)" by (metis prod_cases4)
  have e': "catch_entry cfg B (top_level (frames t)) ca (?d + 1) w1 n1 = (out1, True, w2, n2)" using e out(2) by simp
  note x = catch_step [OF prems(1) t1(1,2) ok t1(5,4) exceptions un(2) s e']
  have d: "current_stack_depth t2 = ?d" by (rule settled_depth [OF prems(1) x(1,2)])
  have "expected_items cfg M B (top_level (frames t2)) (current_stack_depth t2) rest (w2, n2) =
      (more, True, w', names')" using m by (simp add: x(2) d)
  from items_tellD [OF rest x(1,3) _ this] un(3) d x t1(3) out(3)
  show "left_by cfg M B L t out w' names' (run_items cfg (Catches chain ca # rest) (c, names, g, t)) \<and> (w_open w \<longrightarrow> w_open w')" by (auto simp: left_by_def run s)
qed

lemma chain_link_tells:
  assumes inp: "enters M B L i" "input_level M i < l"
    and inner: "items_tell cfg M B (input_level M i) inner" and chain: "chain_tells cfg M B (input_level M i) l chain"
  shows "chain_tells cfg M B L l ((i, inner) # chain)"
proof (rule chain_tellsI)
  fix t c g w names out w' names'
  assume prems: "settled M B L t" "writes cfg c g t w" "chain_undisturbed cfg (current_stack_depth t) ((i, inner) # chain)"
    "expected_chain cfg M B (current_stack_depth t) ((i, inner) # chain) (w, names) = (out, True, w', names')"
  let ?d = "current_stack_depth t"
  have un: "hook_undisturbed cfg ?d i" "items_undisturbed cfg (?d + 1) inner" "chain_undisturbed cfg (?d + 1) chain"
    using prems(3) by simp_all
  obtain c1 g1 t1 where enter: "enter_hook cfg i c g t = (c1, g1, t1)" by (metis prod_cases3)
  obtain header line di w1 where o: "call_opening i ?d w = (header, line, di, w1)" by (metis prod_cases4)
  obtain body ok1 w2 n2 where b: "expected_items cfg M B (Some (input_level M i)) di inner (w1, names) =
      (body, ok1, w2, n2)" by (metis prod_cases4)
  obtain more ok2 where m: "expected_chain cfg M B di chain (w2, n2) = (more, ok2, w', names')"
    and out: "ok1" "ok2" "out = header @ line_text (abandoned_line cfg) line @ body @ more"
    using prems(4) by (auto simp: o b split: prod.splits)
  obtain r where r: "frames t1 = frames t @ [r]" "settled M B (input_level M i) t1"
    "same_activation_site r (hook_key M i)" "rec_level r = input_level M i"
    "writes cfg c1 g1 t1 w1" "w_open w1" "current_stack_depth t1 = di" "di \<le> ?d + 1"
    "file_bytes t1 = file_bytes t @ header @ line_text (call_line cfg) line"
    "case line of None \<Rightarrow> \<not> logged r \<and> di = ?d
      | Some (v, now, d') \<Rightarrow> d' = di \<and> di = ?d + 1 \<and> loggable cfg v \<and>
          length now = PRETTY_TIME_LENGTH \<and> tree_glyph_offset di (LINE_PREFIX_EXTRA cfg) + 3 < FORMAT_BUF_SIZE \<and>
          pending_record cfg i di (length (file_bytes t @ header)) r"
    by (rule enter_step [OF prems(1) inp(1) prems(2) un(1) enter o])
  have "items_undisturbed cfg (current_stack_depth t1) inner"
    using items_undisturbed_down(1) [OF un(2)] r(7,8) by simp
  moreover have "expected_items cfg M B (top_level (frames t1)) (current_stack_depth t1) inner (w1, names) =
      (body, True, w2, n2)" using b out(1) r(1,4,7) by (simp add: top_level_def)
  ultimately have left: "left_by cfg M B (input_level M i) t1 body w2 n2 (run_items cfg inner (c1, names, g1, t1))"
    and open2: "w_open w2" using items_tellD [OF inner r(2,5)] r(6) by blast+
  then obtain c2 g2 t2 where run: "run_items cfg inner (c1, names, g1, t1) = (c2, n2, g2, t2)"
    and t2: "settled M B (input_level M i) t2" "frames t2 = frames t1" "frames t2 = frames t @ [r]"
      "writes cfg c2 g2 t2 w2"
      "file_bytes t2 = file_bytes t @ header @ line_text (call_line cfg) line @ body"
    using r(1,9) by (auto simp: left_by_def split: prod.splits)
  have d: "current_stack_depth t2 = di" using settled_depth [OF r(2) t2(1,2)] r(7) by simp
  have "chain_undisturbed cfg (current_stack_depth t2) chain"
    using items_undisturbed_down(2) [OF un(3)] r(8) d by simp
  moreover have "expected_chain cfg M B (current_stack_depth t2) chain (w2, n2) = (more, True, w', names')"
    using m out(2) by (simp add: d)
  ultimately have rest: "chain_left_by cfg M B l t2 more w' names' (run_chain cfg chain (c2, n2, g2, t2))"
    "w_open w'" using chain_tellsD [OF chain t2(1,4)] open2 by blast+
  then obtain c3 g3 t3 L3 ss where run': "run_chain cfg chain (c2, n2, g2, t2) = (c3, names', g3, t3)"
    and t3: "settled M B L3 t3" "abandoned cfg B l t2 (file_bytes t2) ss t3" "more = closed_text cfg ss"
      "writes cfg c3 g3 t3 w'"
    by (auto simp: chain_left_by_def split: prod.splits)
  let ?s = "\<lparr>seg_record = r, seg_before = header, seg_line = line, seg_after = body\<rparr>"
  have os: "open_segment cfg ?s = header @ line_text (call_line cfg) line @ body"
    "closed_segment cfg ?s = header @ line_text (abandoned_line cfg) line @ body"
    by (simp_all add: open_segment_def closed_segment_def line_text_def)
  have "segment_ok cfg (length (file_bytes t)) ?s"
    using r(10) by (auto simp: segment_ok_def split: option.splits)
  moreover have "on_thread_stack B (rec_level r)" using inp(1) r(4) by (simp add: enters_def)
  ultimately have "abandoned cfg B l t (file_bytes t) (?s # ss) t3"
    using t3(2) t2(3,5) os(1) inp(2) r(4) by (simp add: abandoned_def)
  moreover have "out = closed_text cfg (?s # ss)" using out(3) t3(3) os(2) by simp
  ultimately show "chain_left_by cfg M B l t out w' names' (run_chain cfg ((i, inner) # chain) (c, names, g, t)) \<and>
      (w_open w \<longrightarrow> w_open w')"
    using t3(1,4) rest(2) unfolding chain_left_by_def
    by (auto simp: traced_enter_def enter run run')
qed

lemma items_tell_all:
  assumes "log_exceptions cfg"
  shows "items_ok M B L items \<Longrightarrow> items_tell cfg M B L items"
    and "chain_ok M B L l chain \<Longrightarrow> chain_tells cfg M B L l chain"
proof (induction M B L items and M B L l chain rule: items_ok_chain_ok.induct)
  case (1 M B L)
  show ?case by (rule items_tellI) (simp add: left_by_def)
next
  case (5 M B L l)
  have "abandoned cfg B l t (file_bytes t) [] t" for t by (simp add: abandoned_def)
  then show ?case by (intro chain_tellsI) (force simp: chain_left_by_def)
qed (simp_all add: returns_tell throws_tell catches_tell [OF assms] chain_link_tells)

section \<open>Property\<close>

text \<open>
  C2. The trace tells the story of the exceptions: in a build with exception tracing, a tree of calls,
  throws and catches appends exactly the expected text. A call left by an exception and without its
  exit hook, as Clang compiles it, has the line of its entering with the word for unwound and the
  mark of the exception in place of the placeholder and the glyph; throws and catches have their
  lines where they happened, one level below the function they happened in. The records, the depth
  and the guard are as before, so the calls that follow a catch are traced at their own depth again.
  The conditions are those of C1 on the levels (also every abandoned frame lies strictly below the
  frame that called it and below the catching one, which has at most one record: nothing is
  inlined into a frame), on the thread's state, on the environment and on the depth of every call;
  in addition the lookups of the events' sites, chains and type names succeed and their lines are
  written whole, and no catch is Clang's terminate stub (the flag \<open>True\<close> of the expected text).
\<close>

theorem trace_with_exceptions:
  assumes "log_exceptions cfg" "settled M B L t" "items_ok M B L items"
    and "items_undisturbed cfg (current_stack_depth t) items" "writes cfg c g t w"
    and "expected_items cfg M B (top_level (frames t)) (current_stack_depth t) items (w, names) =
      (out, True, w', names')"
  shows "case run_items cfg items (c, names, g, t) of (c', names'', g', t') \<Rightarrow>
    file_bytes t' = file_bytes t @ out \<and> frames t' = frames t \<and>
    current_stack_depth t' = current_stack_depth t \<and> \<not> in_instrumentation t' \<and>
    names'' = names' \<and> writes cfg c' g' t' w'"
  using items_tellD [OF items_tell_all(1) [OF assms(1,3)] assms(2,5,4,6)] settled_depth [OF assms(2)]
  by (fastforce simp: left_by_def settled_def split: prod.splits)

text \<open>A function without records calls one that throws, and catches.\<close>

definition sample_throw :: throw_info where
  "sample_throw = \<lparr>th_event = quiet_event, th_kind = primary, th_type = \<lparr>et_info = None, et_label = None\<rparr>,
     th_what = Some ''why'', th_site = 133\<rparr>"

definition sample_catch :: catch_info where
  "sample_catch = \<lparr>ca_event = quiet_event, ca_type = \<lparr>et_info = None, et_label = None\<rparr>, ca_what = None,
     ca_dependent = False, ca_site = 135, ca_frame = 1500\<rparr>"

definition sample_story :: "item list" where
  "sample_story = [Catches [(sample_hook 64 1000, [Throws sample_throw])] sample_catch]"

lemma sample_story_ok: "items_ok (\<lambda>_. minimum_rule) unknown_bounds 2000 sample_story"
proof -
  have "catch_level unknown_bounds sample_catch = 1524" "bounds_reported None = unknown_bounds"
    by (simp_all add: catch_level_def sample_catch_def quiet_event_def plain_levels_def measured_frame_level_def
      measured_rule_def measure_level_rule_def apply_level_rule_def MIN_LEVEL_DISTANCE_def Let_def
      bounds_reported_def resolve_thread_stack_bounds_def fresh_thread_def)
  moreover have "ei_stack (ca_event sample_catch) = None" by (simp add: sample_catch_def quiet_event_def)
  moreover have "enters (\<lambda>_. minimum_rule) unknown_bounds 2000 (sample_hook 64 1000)"
    by (rule returns_enters [OF sample_hook_returns]) simp_all
  ultimately show ?thesis
    by (simp add: sample_story_def sample_level catch_ok_def unknown_on_stack)
qed

lemma sample_story_undisturbed: "items_undisturbed sample_config (- 1) sample_story"
  using sample_undisturbed
  by (simp add: sample_story_def sample_tree_def hook_undisturbed_def event_undisturbed_def event_succeeds_def
      sample_throw_def sample_catch_def quiet_event_def sample_hook_def)

text \<open>The text depends on the caches only through the lookups.\<close>

lemma call_opening_caches:
  assumes "call_opening i d w = (header, line, d', w')" "\<not> resolve_throws (hi_resolver i)"
  shows "w_caches w' = fst (snd (resolve (in_world (hi_resolver i)) (in_interfere (hi_resolver i)) (w_caches w)
      (w_fronts w) (hi_callee i) (hi_caller i) empty_view))"
  using assms
  by (auto simp: call_opening_def opening_text_def answer_for_def Let_def split: prod.splits option.splits if_splits)

lemma event_entry_caches:
  "event_entry cfg ev words type what at d w names = (out, w', names') \<Longrightarrow> w_caches w' = w_caches w"
  by (auto simp: event_entry_def opening_text_def Let_def split: prod.splits if_splits)

lemma throw_entry_caches:
  "throw_entry cfg th d w names = (out, w', names') \<Longrightarrow>
   w_caches w' = snd (resolve_event_site (th_event th) (Some (th_site th)) (w_caches w))"
  by (auto simp: throw_entry_def looked_up_def dest: event_entry_caches)

lemma catch_entry_flag:
  "fst (snd (catch_entry cfg B around ca d w names)) \<longleftrightarrow>
     caller_function_base (es_location (site_of (ca_event ca) (Some (ca_site ca - 1)) (w_caches w))) \<noteq>
       Some CLANG_TERMINATE_STUB"
  by (simp add: catch_entry_def looked_up_def case_prod_beta Let_def)

lemma sample_lookups:
  "let c = fst (snd (resolve named_world id empty_caches empty_fronts 64 129 empty_view));
       c = fst (snd (resolve_location named_world id c 133 empty_view))
   in caller_function_base (fst (resolve_location named_world id c 134 empty_view)) \<noteq> Some CLANG_TERMINATE_STUB"
  by code_simp

lemma sample_site:
  "snd (resolve_event_site quiet_event (Some a) c) = fst (snd (resolve_location named_world id c a empty_view))"
  "es_location (site_of quiet_event (Some a) c) = fst (resolve_location named_world id c a empty_view)"
  by (simp_all add: quiet_event_def sample_hook_def site_of_def resolve_event_site_def Let_def case_prod_beta)

lemma sample_story_expected:
  obtains out w' names' where "expected_items sample_config M B around (- 1) sample_story
    (first_writer empty_caches, Map.empty) = (out, True, w', names')"
proof -
  obtain header line d w1 where o: "call_opening (sample_hook 64 1000) (- 1) (first_writer empty_caches) =
      (header, line, d, w1)" by (metis prod_cases4)
  obtain out1 w2 n2 where th: "throw_entry sample_config sample_throw (d + 1) w1 Map.empty = (out1, w2, n2)"
    by (metis prod_cases3)
  obtain out2 flag w3 n3 where ca: "catch_entry sample_config B around sample_catch 0 w2 n2 = (out2, flag, w3, n3)"
    by (metis prod_cases4)
  have "w_caches w1 = fst (snd (resolve named_world id empty_caches empty_fronts 64 129 empty_view))"
    using call_opening_caches [OF o] by (simp add: sample_hook_def first_writer_def)
  then have "w_caches w2 = fst (snd (resolve_location named_world id
      (fst (snd (resolve named_world id empty_caches empty_fronts 64 129 empty_view))) 133 empty_view))"
    using throw_entry_caches [OF th] by (simp add: sample_throw_def sample_site)
  then have flag
    using catch_entry_flag [of sample_config B around sample_catch 0 w2 n2] ca sample_lookups
    by (simp add: sample_catch_def sample_site Let_def)
  with o th ca show thesis by (intro that) (simp add: sample_story_def)
qed

theorem trace_with_exceptions_witness:
  "\<exists>out w' names'. expected_items sample_config (\<lambda>_. minimum_rule) unknown_bounds None (- 1) sample_story
      (first_writer empty_caches, Map.empty) = (out, True, w', names') \<and>
    (case run_items sample_config sample_story
            (empty_caches, Map.empty, initial_globals\<lparr>trace_ready := True\<rparr>, fresh_thread 0 ''old'') of
       (c', names'', g', t') \<Rightarrow> file_bytes t' = ''old'' @ out \<and> frames t' = [])"
proof -
  let ?t = "fresh_thread 0 ''old''"
  have t: "top_level (frames ?t) = None" "current_stack_depth ?t = - 1" "file_bytes ?t = ''old''" "frames ?t = []"
    by (simp_all add: fresh_thread_def top_level_def)
  obtain out w' names' where e: "expected_items sample_config (\<lambda>_. minimum_rule) unknown_bounds None (- 1)
      sample_story (first_writer empty_caches, Map.empty) = (out, True, w', names')"
    by (rule sample_story_expected)
  have cfg: "log_exceptions sample_config" by (simp add: sample_config_def)
  have start: "settled (\<lambda>_. minimum_rule) unknown_bounds 2000 ?t" by (rule settled_fresh)
  have w: "writes sample_config empty_caches (initial_globals\<lparr>trace_ready := True\<rparr>) ?t
      (first_writer empty_caches)"
    by (rule writes_fresh) (simp_all add: initial_globals_def)
  have u: "items_undisturbed sample_config (current_stack_depth ?t) sample_story"
    using sample_story_undisturbed by (simp add: t(2))
  have e': "expected_items sample_config (\<lambda>_. minimum_rule) unknown_bounds (top_level (frames ?t))
      (current_stack_depth ?t) sample_story (first_writer empty_caches, Map.empty) = (out, True, w', names')"
    using e by (simp add: t(1,2))
  from trace_with_exceptions [OF cfg start sample_story_ok u w e'] e show ?thesis
    by (auto simp: t(3,4) split: prod.splits)
qed

end
