(* ===== verification/ObjectOpening.thy ===== *)
theory ObjectOpening
  imports ElfLayout ObjectFiles
begin

text \<open>
  How object files are opened and registered with libbacktrace (\<open>src/backtraceExtension.c\<close>): the
  checked \<open>open\<close> that replaces libbacktrace's own, with the directory relative names are taken from,
  and the two entry points the resolver calls. The file system and \<open>elf_add\<close> are parameters.
\<close>

section \<open>The checked open\<close>

definition PATH_MAX :: nat where
  "PATH_MAX = 4096"

text \<open>What \<open>open\<close>, \<open>fstat\<close> and \<open>readlink\<close> of \<open>/proc/self/fd\<close> answer.\<close>

datatype open_error = No_entry | No_access | Not_directory | Other_error

record opened_file =
  regular :: bool
  contents :: string
  fd_link :: "string option"

type_synonym file_system = "string \<Rightarrow> open_error + opened_file"

text \<open>\<open>cslg_last_open\<close>.\<close>

record last_open =
  directory :: string
  last_own_symtab :: bool

text \<open>The text up to its last slash, the slash kept for the root. It starts with one.\<close>

definition directory_of :: "string \<Rightarrow> string" where
  "directory_of target =
     (let slash = length target - Suc (length (takeWhile (\<lambda>c. c \<noteq> CHR ''/'') (rev target)))
      in take (if slash = 0 then 1 else slash) target)"

definition absolute :: "string \<Rightarrow> bool" where
  "absolute path \<longleftrightarrow> path \<noteq> [] \<and> hd path = CHR ''/''"

definition cslg_remember_directory :: "string option \<Rightarrow> string \<Rightarrow> last_open \<Rightarrow> last_open" where
  "cslg_remember_directory link path lo =
     (let target = (case link of Some text \<Rightarrow> take (PATH_MAX - 1) text | None \<Rightarrow> [])
      in if absolute target then lo\<lparr>directory := directory_of target\<rparr>
         else if length path \<ge> PATH_MAX \<or> \<not> absolute path then lo\<lparr>directory := []\<rparr>
         else lo\<lparr>directory := directory_of path\<rparr>)"

text \<open>The name handed to \<open>open\<close>.\<close>

definition path_to_open :: "last_open \<Rightarrow> string \<Rightarrow> string option" where
  "path_to_open lo filename =
     (if absolute filename then Some filename
      else if directory lo = [] then None
      else let resolved = directory lo @ CHR ''/'' # filename
           in if length resolved \<ge> PATH_MAX then None else Some resolved)"

text \<open>
  The file behind the descriptor, whether it counts as missing, and what is remembered; None when
  the layout check does not return.
\<close>

definition cslg_open_checked ::
    "elf_env \<Rightarrow> file_system \<Rightarrow> string \<Rightarrow> last_open \<Rightarrow> (opened_file option \<times> bool \<times> last_open) option" where
  "cslg_open_checked env fs filename lo =
     (case path_to_open lo filename of
        None \<Rightarrow> Some (None, True, lo)
      | Some path \<Rightarrow>
          (case fs path of
             Inl error \<Rightarrow> Some (None, error \<noteq> Other_error, lo)
           | Inr f \<Rightarrow>
               if \<not> regular f then Some (None, True, lo)
               else do {
                 fits \<leftarrow> cslg_elf_layout_fits_file env (contents f) (of_nat (length (contents f)));
                 case fits of
                   Inl problem \<Rightarrow> Some (None, True, lo)
                 | Inr own \<Rightarrow>
                     Some (Some f, False,
                           (cslg_remember_directory (fd_link f) path lo)\<lparr>last_own_symtab := own\<rparr>) }))"

section \<open>Registration\<close>

text \<open>The lookup functions of a state: the two that know nothing, and the ones of the files.\<close>

datatype fileline_handler = Elf_nodebug | Elf_fileline nat
datatype syminfo_handler = Elf_nosyms | Elf_syminfo

record backtrace_state =
  fileline_fn :: fileline_handler
  syminfo_fn :: syminfo_handler

definition cslg_backtrace_create_state :: "bool \<Rightarrow> backtrace_state option" where
  "cslg_backtrace_create_state allocated =
     (if \<not> allocated then None else Some \<lparr>fileline_fn = Elf_nodebug, syminfo_fn = Elf_nosyms\<rparr>)"

text \<open>\<open>elf_add\<close>: its result, what it found, and what its own opens of debug files leave remembered.\<close>

record elf_added =
  ea_ret :: int
  ea_fileline :: "nat option"
  ea_sym :: bool
  ea_dwarf :: bool
  ea_last_open :: last_open

type_synonym elf_adder = "string \<Rightarrow> opened_file \<Rightarrow> addr \<Rightarrow> last_open \<Rightarrow> elf_added"

text \<open>The answer is None on failure, and symbol table, DWARF and own symbol table otherwise.\<close>

definition cslg_backtrace_add_file ::
    "elf_env \<Rightarrow> file_system \<Rightarrow> elf_adder \<Rightarrow> backtrace_state \<Rightarrow> string \<Rightarrow> addr \<Rightarrow> last_open
       \<Rightarrow> ((bool \<times> bool \<times> bool) option \<times> backtrace_state \<times> last_open) option" where
  "cslg_backtrace_add_file env fs elf_add st path bias lo =
     do {
       (descriptor, does_not_exist, lo) \<leftarrow> cslg_open_checked env fs path (lo\<lparr>directory := []\<rparr>);
       case descriptor of
         None \<Rightarrow> Some (None, st, lo)
       | Some f \<Rightarrow>
           let own = last_own_symtab lo;
               r = elf_add path f bias lo;
               (found_dwarf, fileline) = (if ea_ret r \<le> 0 then (False, None) else (ea_dwarf r, ea_fileline r))
           in if ea_ret r \<le> 0 \<and> \<not> ea_sym r then Some (None, st, ea_last_open r)
              else
                let st = (if ea_sym r then st\<lparr>syminfo_fn := Elf_syminfo\<rparr> else st);
                    st = (case fileline of
                            Some fn \<Rightarrow> if found_dwarf then st\<lparr>fileline_fn := Elf_fileline fn\<rparr> else st
                          | None \<Rightarrow> st)
                in Some (Some (ea_sym r, found_dwarf, own), st, ea_last_open r) }"

section \<open>Nothing is looked up from the current directory\<close>

definition remembers_absolute :: "last_open \<Rightarrow> bool" where
  "remembers_absolute lo \<longleftrightarrow> directory lo = [] \<or> absolute (directory lo)"

lemma absolute_directory_of: "absolute target \<Longrightarrow> absolute (directory_of target)"
  by (cases target) (auto simp: absolute_def directory_of_def Let_def)

lemma remember_absolute: "remembers_absolute (cslg_remember_directory link path lo)"
  by (auto simp: remembers_absolute_def cslg_remember_directory_def Let_def absolute_directory_of)

lemma path_to_open_absolute: "remembers_absolute lo \<Longrightarrow> path_to_open lo name = Some path \<Longrightarrow> absolute path"
  by (auto simp: path_to_open_def remembers_absolute_def absolute_def Let_def split: if_splits)

lemma open_checked_remembers:
  assumes "cslg_open_checked env fs name lo = Some (f, missing, lo')" "remembers_absolute lo"
  shows "remembers_absolute lo'"
proof -
  have "remembers_absolute (l\<lparr>last_own_symtab := b\<rparr>) = remembers_absolute l" for l b
    by (simp add: remembers_absolute_def)
  with assms remember_absolute show ?thesis
    by (auto simp: cslg_open_checked_def split: option.splits sum.splits if_splits bind_splits)
qed

text \<open>Files opened one after another.\<close>

fun open_all ::
    "elf_env \<Rightarrow> file_system \<Rightarrow> string list \<Rightarrow> last_open \<Rightarrow> (opened_file option list \<times> last_open) option" where
  "open_all env fs [] lo = Some ([], lo)"
| "open_all env fs (name # names) lo = do {
     (f, missing, lo) \<leftarrow> cslg_open_checked env fs name lo;
     (files, lo) \<leftarrow> open_all env fs names lo;
     Some (f # files, lo) }"

lemma open_checked_agree:
  assumes "remembers_absolute lo" "\<forall>path. absolute path \<longrightarrow> fs path = fs' path"
  shows "cslg_open_checked env fs name lo = cslg_open_checked env fs' name lo"
  using path_to_open_absolute [OF assms(1)] assms(2)
  by (auto simp: cslg_open_checked_def split: option.split)

text \<open>
  Names from the files never reach the current directory: whatever names separate debug files and
  their links give, and in whatever order files are opened, the outcome depends on the absolute
  names of the file system only. Two file systems that agree on those, such as one before and after
  a \<open>chdir\<close> or with a file planted in the current directory, give the same files.
\<close>

theorem current_directory_is_irrelevant:
  assumes "remembers_absolute lo" "\<forall>path. absolute path \<longrightarrow> fs path = fs' path"
  shows "open_all env fs names lo = open_all env fs' names lo"
  using assms(1)
proof (induction names arbitrary: lo)
  case (Cons name names)
  note same = open_checked_agree [OF Cons.prems assms(2), of env name]
  show ?case
  proof (cases "cslg_open_checked env fs' name lo")
    case (Some r)
    obtain f missing lo' where r: "r = (f, missing, lo')" by (metis prod_cases3)
    have "remembers_absolute lo'" using open_checked_remembers [OF _ Cons.prems] Some r by blast
    from Cons.IH [OF this] show ?thesis by (simp add: same Some r)
  qed (simp add: same)
qed simp

text \<open>A separate debug file opened through a link, whose own link to a dwz file is relative.\<close>

definition debug_disk :: "string \<Rightarrow> file_system" where
  "debug_disk planted path =
     (if absolute path
      then Inr \<lparr>regular = True, contents = two_sections (char_of (3 :: nat)) NUL,
                fd_link = Some ''/usr/lib/debug/usr/bin/demo.debug''\<rparr>
      else Inr \<lparr>regular = True, contents = planted, fd_link = None\<rparr>)"

theorem current_directory_is_irrelevant_witness:
  "let lo = \<lparr>directory = [], last_own_symtab = False\<rparr>;
       names = [''/usr/lib/debug/.build-id/12/34.debug'', ''../../.dwz/demo''] in
   open_all elf64 (debug_disk ''planted'') names lo = open_all elf64 (debug_disk []) names lo"
  unfolding Let_def
  by (rule current_directory_is_irrelevant) (simp_all add: remembers_absolute_def debug_disk_def)

section \<open>What is registered was checked\<close>

definition created :: backtrace_state where
  "created = \<lparr>fileline_fn = Elf_nodebug, syminfo_fn = Elf_nosyms\<rparr>"

text \<open>The file a registration was answered for: opened by an absolute name, regular, and checked.\<close>

definition checked_file :: "elf_env \<Rightarrow> file_system \<Rightarrow> string \<Rightarrow> bool \<Rightarrow> bool" where
  "checked_file env fs path own \<longleftrightarrow>
     absolute path \<and>
     (\<exists>f. fs path = Inr f \<and> regular f \<and>
        cslg_elf_layout_fits_file env (contents f) (of_nat (length (contents f))) = Some (Inr own))"

lemma open_checked_file:
  assumes "cslg_open_checked env fs path (lo\<lparr>directory := []\<rparr>) = Some (Some f, missing, lo')"
  shows "checked_file env fs path (last_own_symtab lo')"
proof -
  have p: "path_to_open (lo\<lparr>directory := []\<rparr>) path = (if absolute path then Some path else None)"
    by (simp add: path_to_open_def)
  show ?thesis
    using assms
    by (auto simp: cslg_open_checked_def p checked_file_def split: if_splits sum.splits bind_splits)
qed

text \<open>
  A registration reports what the state can answer: when it fails, the new state still knows nothing;
  when it succeeds, names are looked up exactly when a symbol table was reported, lines only when
  DWARF was, and the file was opened by its absolute name, is regular, passed the layout check, and
  carries its own symbols exactly as reported.
\<close>

theorem registration_reports_state:
  assumes "cslg_backtrace_add_file env fs elf_add created path bias lo = Some (answer, st, lo')"
  shows "case answer of
      None \<Rightarrow> st = created
    | Some (symtab, dwarf, own) \<Rightarrow>
        (syminfo_fn st = Elf_syminfo \<longleftrightarrow> symtab) \<and> (fileline_fn st \<noteq> Elf_nodebug \<longrightarrow> dwarf) \<and>
        checked_file env fs path own"
proof -
  obtain f missing lo1 where o: "cslg_open_checked env fs path (lo\<lparr>directory := []\<rparr>) = Some (f, missing, lo1)"
    using assms by (auto simp: cslg_backtrace_add_file_def split: bind_splits)
  show ?thesis
  proof (cases f)
    case None
    then show ?thesis using assms o by (auto simp: cslg_backtrace_add_file_def)
  next
    case (Some x)
    note c = open_checked_file [OF o [unfolded Some]]
    show ?thesis
      using assms o c Some
      by (cases "ea_ret (elf_add path x bias lo1) \<le> 0"; cases "ea_fileline (elf_add path x bias lo1)")
        (auto simp: cslg_backtrace_add_file_def Let_def created_def split: if_splits)
  qed
qed

definition sample_adder :: elf_adder where
  "sample_adder path f bias lo =
     \<lparr>ea_ret = 1, ea_fileline = Some 7, ea_sym = True, ea_dwarf = True, ea_last_open = lo\<rparr>"

theorem registration_reports_state_witness:
  "\<exists>answer st lo'. cslg_backtrace_add_file elf64 (debug_disk []) sample_adder created ''/usr/bin/demo'' 0
       \<lparr>directory = [], last_own_symtab = False\<rparr> = Some (Some answer, st, lo') \<and>
     (case Some answer of
      None \<Rightarrow> st = created
    | Some (symtab, dwarf, own) \<Rightarrow>
        (syminfo_fn st = Elf_syminfo \<longleftrightarrow> symtab) \<and> (fileline_fn st \<noteq> Elf_nodebug \<longrightarrow> dwarf) \<and>
        checked_file elf64 (debug_disk []) ''/usr/bin/demo'' own)"
proof -
  let ?lo = "\<lparr>directory = [], last_own_symtab = False\<rparr>"
  obtain st lo' where r: "cslg_backtrace_add_file elf64 (debug_disk []) sample_adder created ''/usr/bin/demo'' 0
      ?lo = Some (Some (True, True, False), st, lo')"
    using two_sections_accepted
    by (simp add: cslg_backtrace_add_file_def cslg_open_checked_def path_to_open_def debug_disk_def
        absolute_def sample_adder_def)
  from registration_reports_state [OF r] r show ?thesis by blast
qed

section \<open>The resolver's registrations\<close>

text \<open>The resolver's world with this registration in the place of libbacktrace's answers.\<close>

definition with_extension ::
    "elf_env \<Rightarrow> file_system \<Rightarrow> elf_adder \<Rightarrow> last_open \<Rightarrow> world \<Rightarrow> world" where
  "with_extension env fs elf_add lo w =
     w\<lparr>add_file := (\<lambda>path bias.
         case cslg_backtrace_add_file env fs elf_add created path bias lo of
           None \<Rightarrow> None
         | Some (answer, st, lo') \<Rightarrow> answer)\<rparr>"

text \<open>
  The file an object's names and lines are taken from: opened by its absolute name, regular, accepted
  by the layout check, and the very file handed to \<open>elf_add\<close>, whose findings the object reports.
\<close>

definition read_from ::
    "elf_env \<Rightarrow> file_system \<Rightarrow> elf_adder \<Rightarrow> string \<Rightarrow> addr \<Rightarrow> object_file \<Rightarrow> bool" where
  "read_from env disk elf_add path bias object \<longleftrightarrow>
     absolute path \<and>
     (\<exists>f lo. disk path = Inr f \<and> regular f \<and>
        cslg_elf_layout_fits_file env (contents f) (of_nat (length (contents f))) =
          Some (Inr (has_own_symtab object)) \<and>
        has_symtab object = ea_sym (elf_add path f bias lo) \<and>
        has_dwarf object = (0 < ea_ret (elf_add path f bias lo) \<and> ea_dwarf (elf_add path f bias lo)))"

lemma open_checked_same_file:
  assumes "cslg_open_checked env disk path (lo\<lparr>directory := []\<rparr>) = Some (Some f, missing, lo')"
  shows "absolute path \<and> disk path = Inr f \<and> regular f \<and>
    cslg_elf_layout_fits_file env (contents f) (of_nat (length (contents f))) =
      Some (Inr (last_own_symtab lo'))"
proof -
  have p: "path_to_open (lo\<lparr>directory := []\<rparr>) path = (if absolute path then Some path else None)"
    by (simp add: path_to_open_def)
  show ?thesis
    using assms by (auto simp: cslg_open_checked_def p split: if_splits sum.splits bind_splits)
qed

lemma add_file_extension:
  assumes "add_file (with_extension env disk elf_add lo w) path bias =
      Some (has_symtab object, has_dwarf object, has_own_symtab object)"
  shows "read_from env disk elf_add path bias object"
proof -
  obtain answer st lo' where r: "cslg_backtrace_add_file env disk elf_add created path bias lo =
      Some (answer, st, lo')"
      "answer = Some (has_symtab object, has_dwarf object, has_own_symtab object)"
    using assms by (auto simp: with_extension_def split: option.splits)
  obtain f missing lo1 where o: "cslg_open_checked env disk path (lo\<lparr>directory := []\<rparr>) = Some (f, missing, lo1)"
    using r(1) by (auto simp: cslg_backtrace_add_file_def split: bind_splits)
  then obtain x where x: "f = Some x" using r by (cases f) (auto simp: cslg_backtrace_add_file_def)
  let ?r = "elf_add path x bias lo1"
  have "has_symtab object = ea_sym ?r \<and> has_dwarf object = (0 < ea_ret ?r \<and> ea_dwarf ?r) \<and>
      has_own_symtab object = last_own_symtab lo1"
    using r o x by (auto simp: cslg_backtrace_add_file_def Let_def split: if_splits)
  with open_checked_same_file [OF o [unfolded x]] show ?thesis by (auto simp: read_from_def)
qed

text \<open>What one request does to the registry.\<close>

lemma ensure_registers:
  assumes "ensure_object_loaded w fs info bias = (Some object, fs')" "objects fs (dli_fbase info) = None"
  shows "let path = fst (object_file_path w fs info) in
     add_file w path bias = Some (has_symtab object, has_dwarf object, has_own_symtab object) \<and>
     (dli_fbase info, path) \<in> set (registrations fs')"
proof -
  obtain path fs1 where p: "object_file_path w fs info = (path, fs1)" by fastforce
  show ?thesis
    using assms
    by (auto simp: ensure_object_loaded_def register_object_def p Let_def
        split: if_splits option.splits prod.splits)
qed

lemma ensure_new_object:
  assumes "ensure_object_loaded w fs info bias = (answer, fs')"
    and "objects fs b = None" "objects fs' b = Some object"
  shows "b = dli_fbase info \<and> answer = Some object"
proof -
  obtain path fs1 where p: "object_file_path w fs info = (path, fs1)" by fastforce
  then have "objects fs1 = objects fs"
    using objects_object_file_path(1) [of w fs info] by simp
  with assms show ?thesis
    by (auto simp: ensure_object_loaded_def register_object_def p load_failed_def Let_def
        split: if_splits option.splits prod.splits)
qed

lemma ensure_keeps_registrations:
  "set (registrations fs) \<subseteq> set (registrations (snd (ensure_object_loaded w fs info bias)))"
proof -
  obtain path fs1 where p: "object_file_path w fs info = (path, fs1)" by fastforce
  then have "registrations fs1 = registrations fs"
    using objects_object_file_path(3) [of w fs info] by simp
  then show ?thesis
    by (auto simp: ensure_object_loaded_def register_object_def p load_failed_def Let_def
        split: option.split prod.split)
qed

lemma load_calls_keep_registrations:
  "set (registrations fs) \<subseteq> set (registrations (snd (load_calls fs calls)))"
proof (induction calls arbitrary: fs)
  case (Cons c calls)
  obtain w info bias where c: "c = (w, info, bias)" by (cases c)
  show ?case
    using ensure_keeps_registrations [of fs w info bias] Cons.IH
    by (fastforce simp: c case_prod_beta Let_def)
qed simp

text \<open>
  A request of the resolver in its environment of that moment: the file system, \<open>elf_add\<close> and the
  directory remembered from earlier files may differ from one request to the next.
\<close>

type_synonym request = "file_system \<times> elf_adder \<times> last_open \<times> load_call"

definition load_of :: "elf_env \<Rightarrow> request \<Rightarrow> load_call" where
  "load_of env c = (case c of (disk, elf_add, lo, w, info, bias) \<Rightarrow>
     (with_extension env disk elf_add lo w, info, bias))"

definition object_base :: "request \<Rightarrow> addr" where
  "object_base c = (case c of (disk, elf_add, lo, w, info, bias) \<Rightarrow> dli_fbase info)"

text \<open>The request registered this object, from the file found for it in the state before.\<close>

definition registered_by :: "elf_env \<Rightarrow> files \<Rightarrow> files \<Rightarrow> object_file \<Rightarrow> request \<Rightarrow> bool" where
  "registered_by env before after object c =
     (case c of (disk, elf_add, lo, w, info, bias) \<Rightarrow>
        let path = fst (object_file_path (with_extension env disk elf_add lo w) before info)
        in read_from env disk elf_add path bias object \<and>
           (dli_fbase info, path) \<in> set (registrations after))"

lemma registered_by_later:
  "registered_by env before after object c \<Longrightarrow> set (registrations after) \<subseteq> set (registrations later) \<Longrightarrow>
   registered_by env before later object c"
  by (auto simp: registered_by_def Let_def split: prod.splits)

lemma load_calls_registered:
  assumes "i < length cs" "fst (load_calls fs (map (load_of env) cs)) ! i = Some object"
  shows "objects fs (object_base (cs ! i)) = Some object \<or>
    (\<exists>j\<le>i. object_base (cs ! j) = object_base (cs ! i) \<and>
       registered_by env (snd (load_calls fs (map (load_of env) (take j cs))))
         (snd (load_calls fs (map (load_of env) cs))) object (cs ! j))"
  using assms
proof (induction cs arbitrary: fs i)
  case (Cons c cs)
  obtain disk elf_add lo w info bias where c: "c = (disk, elf_add, lo, w, info, bias)" by (metis prod.collapse)
  let ?w = "with_extension env disk elf_add lo w"
  obtain answer fs' where e: "ensure_object_loaded ?w fs info bias = (answer, fs')" by fastforce
  have lc: "load_of env c = (?w, info, bias)" by (simp add: load_of_def c)
  let ?later = "snd (load_calls fs' (map (load_of env) cs))"
  have later: "snd (load_calls fs (map (load_of env) (c # cs))) = ?later"
    by (simp add: lc e case_prod_beta Let_def)
  have first: "registered_by env fs ?later object c"
    if "answer = Some object" "objects fs (dli_fbase info) = None"
  proof -
    have "registered_by env fs fs' object c"
      using ensure_registers [OF e [unfolded that(1)] that(2)] add_file_extension
      by (auto simp: registered_by_def c Let_def)
    then show ?thesis by (rule registered_by_later [OF _ load_calls_keep_registrations])
  qed
  show ?case
  proof (cases i)
    case 0
    then have "answer = Some object"
      using Cons.prems(2) by (simp add: lc e case_prod_beta Let_def)
    then show ?thesis
      using first later ensure_object_loaded_decides [of ?w fs info bias] e 0
      by (cases "objects fs (dli_fbase info)")
        (auto simp: object_base_def c ensure_object_loaded_def)
  next
    case (Suc k)
    then have "k < length cs" "fst (load_calls fs' (map (load_of env) cs)) ! k = Some object"
      using Cons.prems by (simp_all add: lc e case_prod_beta Let_def)
    from Cons.IH [OF this] consider
        "objects fs' (object_base (cs ! k)) = Some object"
      | j where "j \<le> k" "object_base (cs ! j) = object_base (cs ! k)"
          "registered_by env (snd (load_calls fs' (map (load_of env) (take j cs)))) ?later object (cs ! j)"
      by blast
    then show ?thesis
    proof cases
      case 1
      show ?thesis
      proof (cases "objects fs (object_base (cs ! k))")
        case None
        with ensure_new_object [OF e None 1] first later Suc show ?thesis
          by (intro disjI2 exI [of _ 0]) (auto simp: object_base_def c)
      next
        case (Some other)
        have "files_grow fs fs'" using ensure_object_loaded_grow [of fs ?w info bias] e by simp
        with Some 1 have "other = object" by (auto simp: files_grow_def map_le_def dom_def)
        with Some Suc show ?thesis by simp
      qed
    next
      case 2
      then show ?thesis
        using Suc later
        by (intro disjI2 exI [of _ "Suc j"]) (simp add: lc e case_prod_beta Let_def)
    qed
  qed
qed simp

text \<open>
  C29. Whatever the resolver asks for, in any order and however the loader, the file system and
  libbacktrace change from one request to the next: an object it takes names or lines from was
  registered by this or an earlier request for the same object, from the path found for it at that
  request. The file at that path was opened by its absolute name, is regular and passed the layout
  check, and it is that file, not another one, that libbacktrace was given and whose findings the
  object reports.
\<close>

theorem resolver_reads_checked_files:
  assumes "i < length cs"
    and "fst (load_calls no_files (map (load_of env) cs)) ! i = Some object"
  shows "\<exists>j\<le>i. object_base (cs ! j) = object_base (cs ! i) \<and>
    registered_by env (snd (load_calls no_files (map (load_of env) (take j cs))))
      (snd (load_calls no_files (map (load_of env) cs))) object (cs ! j)"
  using load_calls_registered [OF assms] by (simp add: no_files_def)

definition demo_request :: request where
  "demo_request =
     (debug_disk [], sample_adder, \<lparr>directory = [], last_own_symtab = False\<rparr>, sample_world,
      \<lparr>dli_fname = Some ''/usr/lib/a.so'', dli_fbase = 4096, dli_sname = None\<rparr>, 4096)"

definition demo_object :: object_file where
  "demo_object = \<lparr>of_state = 0, has_symtab = True, has_dwarf = True, has_own_symtab = False\<rparr>"

lemma demo_request_loads:
  "fst (load_calls no_files (map (load_of elf64) [demo_request, demo_request])) =
     [Some demo_object, Some demo_object]"
  using two_sections_accepted
  by (simp add: demo_request_def demo_object_def load_of_def with_extension_def ensure_object_loaded_def
      register_object_def no_files_def object_file_path_def argv0_def get_argv0_def library_path_def
      sample_world_def c_str_def byte_at_def cslg_backtrace_add_file_def cslg_open_checked_def
      path_to_open_def debug_disk_def absolute_def sample_adder_def Let_def)

theorem resolver_reads_checked_files_witness:
  "fst (load_calls no_files (map (load_of elf64) [demo_request, demo_request])) ! 1 = Some demo_object \<and>
   (\<exists>j\<le>1. object_base ([demo_request, demo_request] ! j) = object_base ([demo_request, demo_request] ! 1) \<and>
      registered_by elf64
        (snd (load_calls no_files (map (load_of elf64) (take j [demo_request, demo_request]))))
        (snd (load_calls no_files (map (load_of elf64) [demo_request, demo_request]))) demo_object
        ([demo_request, demo_request] ! j))"
proof
  show m: "fst (load_calls no_files (map (load_of elf64) [demo_request, demo_request])) ! 1 =
      Some demo_object"
    unfolding demo_request_loads by simp
  show "\<exists>j\<le>1. object_base ([demo_request, demo_request] ! j) =
        object_base ([demo_request, demo_request] ! 1) \<and>
      registered_by elf64
        (snd (load_calls no_files (map (load_of elf64) (take j [demo_request, demo_request]))))
        (snd (load_calls no_files (map (load_of elf64) [demo_request, demo_request]))) demo_object
        ([demo_request, demo_request] ! j)"
    by (rule resolver_reads_checked_files [OF _ m]) simp
qed

end
