(* ===== verification/Spec2Isabelle.thy ===== *)
theory Spec2Isabelle
  imports ProcessProperties RaceProperties SharedCaches ExceptionTrees ObjectOpening ExceptionRuntime ResolverCaches StdSymbolFilter BaseName FrameExit
begin

text \<open>
  The Call Stack Logger: a tracer linked into a C++ program that is compiled with
  \<open>-finstrument-functions\<close>. The compiler calls a hook at the entry and at the exit of every function;
  the tracer writes one line per call to a trace file of the calling thread, shows the nesting as a
  tree, and patches a call's line in place with its duration, or with a mark of how it ended, when
  it returns. Frames that leave without an exit hook (exceptions, \<open>longjmp\<close>, inlining) are found and
  reclaimed from a shadow stack of frame records. Throws, catches and terminations are lines of
  their own, written by interposed entry points of the C++ runtime.

  Parts, their theories and their source. All paths are under \<open>src/\<close>.

  \<^item> \<open>Prelude\<close>: byte strings, C numerals, \<open>snprintf\<close> and \<open>pwrite\<close> on byte lists, counting from the top of a
    stack. Addresses are 64-bit words (\<open>addr\<close>), durations 64-bit words (\<open>u64\<close>), signed counts \<open>int\<close>.
  \<^item> \<open>DurationFormat\<close> (\<open>include/durationFormat.h\<close>), \<open>PrettyTime\<close> (\<open>include/prettyTime.h\<close>), \<open>TraceFilePath\<close>
    (\<open>include/traceFilePath.h\<close>), \<open>LineFormat\<close> (\<open>include/format.h\<close>), \<open>EventFormat\<close> (\<open>include/eventFormat.h\<close>):
    the text the tracer writes, each formatter with its buffer capacity.
  \<^item> \<open>FrontCache\<close> (\<open>include/frontCache.h\<close>): the direct-mapped caches in front of the shared maps, behind
    the interface \<open>direct_mapped_cache\<close> that \<open>LevelRules\<close> implements as well.
  \<^item> \<open>StdSymbolFilter\<close> (\<open>include/stdSymbolFilter.h\<close>): which mangled names belong to the standard library.
  \<^item> \<open>FrameReconcile\<close>, \<open>FrameExit\<close>, \<open>BaseName\<close> (\<open>include/frameReconcile.h\<close>): which records are dead at an
    enter, an exit and a catch, which record an exit hook belongs to, and base names of functions.
  \<^item> \<open>LevelRules\<close> (\<open>src/trace.cpp\<close>): the level of a frame, which orders the records.
  \<^item> \<open>ObjectFiles\<close>, \<open>SymbolLookup\<close>, \<open>Resolver\<close>, \<open>ResolverCaches\<close> (\<open>src/callStack.cpp\<close>): from an address to a
    name and a line, and the caches that make every answer permanent. Each lookup keeps a log: taking and
    releasing \<open>s_resolver_mutex\<close> and asking the loader append to it where the code does them, and only
    \<open>ask_loader\<close> has the loader's answers. \<open>get_call_stack\<close> narrows its buffer's size to an \<open>int\<close> as the
    code does, which bounds the depth of a captured stack (\<open>call_stack_complete\<close>).
  \<^item> \<open>ElfLayout\<close>, \<open>ObjectOpening\<close> (\<open>src/backtraceExtension.c\<close>): the check of an object file before it is mapped,
    the checked open and the registration with libbacktrace. The file system, \<open>elf_add\<close> and the loader
    may answer differently at every request.
  \<^item> \<open>TraceState\<close>, \<open>TraceFiles\<close>, \<open>TraceHooks\<close>, \<open>TraceEvents\<close> (\<open>src/trace.cpp\<close>): the records, the state of a
    thread with the bytes of its trace file, the process-wide globals, and the operations on them:
    patching and reclaiming, opening and closing, the two hooks, the exception events.
  \<^item> \<open>ExceptionRuntime\<close>, \<open>Interposers\<close> (\<open>src/exceptions.cpp\<close>): exception classes and the runtime's code
    ranges, and the five interposed functions.
  \<^item> \<open>TracerScope\<close> (\<open>include/tracerScope.h\<close>): the scope over the re-entrancy guard and what runs inside it: the
    public entry points \<open>resolve\<close> and \<open>get_call_stack\<close>, and the program's own \<open>what()\<close>. The throw and the
    catch interposer are given once more with the acts of the \<open>what()\<close> they call, and shown to be the
    ones of \<open>Interposers\<close> after the lookups that \<open>what()\<close> made, so a process with such objects is one of
    \<open>TraceProcess\<close> (\<open>running_what_is_a_run\<close>).
  \<^item> \<open>TraceProcess\<close>: the process as a step relation: any interleaving of the hooks, the interposed calls,
    the public calls, the startup, the shutdown and the ends of threads.
  \<^item> \<open>FileRaces\<close> (\<open>get_thread_fp\<close>, \<open>open_this_thread_file\<close>, \<open>trace_shutdown\<close> and \<open>~PerThreadTraceFile\<close> of
    \<open>src/trace.cpp\<close>): the life of the trace files once more, access by access: threads interleave anywhere
    between two accesses to the flags, the mutex, the registry and the handles, an unlocked read of a
    flag may be stale, and a cancellation may be pending (\<open>ScopedCancelDisable\<close>).

  The proofs about the state are layered. \<open>ReclaimEffect\<close> and \<open>TraceInvariant\<close> say what reclaiming does to
  records and bytes and that every operation keeps the bookkeeping (depth and logged records agree,
  the stack fits its capacity). \<open>StepInvariants\<close> is the interface \<open>step_invariant\<close>: an invariant that the
  few primitive updates keep is kept by both hooks, all runtime calls and every step of a process;
  \<open>TraceProcess\<close> interprets it for the registry of open files and \<open>TracePatches\<close> for the patch fields of
  open lines. \<open>BalancedCalls\<close> shows that a tree of calls that return leaves the bookkeeping unchanged.
  \<open>TraceText\<close> refines the hooks to an abstract writer: what a tree of calls leaves in the file is the
  text \<open>expected_text\<close> computes from the tree alone. \<open>EventEffects\<close> says what a throw and a catch do to
  records and lines: the records a catch reclaims are exactly those below its level, and their lines
  get the word for unwound and the mark. \<open>ExceptionTrees\<close> extends the writer to trees in which calls
  throw and catch. \<open>ProcessProperties\<close> concludes for every reachable process, and that no step after the
  startup aborts; \<open>SharedCaches\<close> concludes for the resolver's memory, the shared caches and every
  thread's caches before them. \<open>RaceProperties\<close> shows that the operations on trace files are atomic to the other
  threads, so that \<open>TraceProcess\<close> may take them for one step, that nothing is used after its end, how many
  lines the shutdown still lets through, that no thread waits forever for the mutex, and that no thread is
  cancelled inside the tracer.

  What the outside answers is an input of each operation: the clocks, \<open>fwrite\<close>'s count, whether
  memory or a file could be had, the unwinder's contexts, the dynamic linker (\<open>dynamic_linker\<close>), the
  loader, libbacktrace and the file system (the record \<open>world\<close>), and what other threads put into the
  shared caches while the resolver's mutex is released (\<open>interfere\<close>). Throwing C++ code is a branch of
  the model with the state it leaves.
  Loops are recursive functions on lists or with a measure; the one that could run forever on other
  inputs, over the notes of an ELF section, is a partial function, and is shown to end. No definition
  uses fuel. The value None of the check of object files and of the filter of library symbols is a
  read outside the memory they were given, which the properties exclude.

  Assumed of the outside: a \<open>pwrite\<close> through the patch descriptor of a thread's own file succeeds (the code
  ignores its result and names a hardware error as the only failure), and a pointer the loader or the unwinder
  answers can be read. The time zone and the locale stay what they are, so \<open>localtime_r\<close> and \<open>strftime\<close> are a
  function of the second. What a stream keeps in its buffer after a short write is not followed: after a
  short line the cursor is invalid and nothing later is patched, and the properties of patch fields
  assume that the header, whose \<open>fprintf\<close> result the code ignores, is written whole. Running out of
  memory inside a lookup leaves the caches as the interference of the other threads has them, and
  releases the mutex by the destructor of the \<open>lock_guard\<close>; the logs are those of lookups that return.
  The text of a dependent exception, which \<open>on_catch\<close> and \<open>on_terminate\<close> ask for while they hold the guard, is
  an input; what its \<open>what()\<close> does is not followed there.

  Not modelled: interleaving inside a hook, apart from the shared caches and the trace files; the contents of
  a file in \<open>FileRaces\<close>, which counts lines; asynchronous cancellation; a traced process after \<open>fork()\<close>,
  which the program does not support; libbacktrace itself, of which \<open>elf_add\<close>, the structures of ELF
  headers and the lookups are parameters; the demo program, the benchmark and the tests.
\<close>

end
